(* ===== verification/Prelude.thy ===== *)
theory Prelude
  imports Main "HOL-Library.Word"
begin

text \<open>
  Shared vocabulary of the development: Rust's machine integers as words, byte slices as
  lists, the slice operations of the Rust core library that the sources use
  (\<open>copy_from_slice\<close>, \<open>split_once\<close>, \<open>strip_prefix\<close>, \<open>checked_mul\<close>, \<open>saturating_sub\<close>, the
  ASCII classification of bytes), and the lemmas about them that the component theories
  share. Fallible operations return a sum whose left side is the error
  (\<open>Result<T, E>\<close> is \<open>'e + 't\<close>) or an option.
\<close>

unbundle bit_operations_syntax

type_synonym u8 = "8 word"
type_synonym u16 = "16 word"
type_synonym u32 = "32 word"
type_synonym u64 = "64 word"
type_synonym bytes = "u8 list"

named_theorems word_nat "facts that turn word comparisons and sums into natural numbers"

subsection \<open>Machine integers\<close>

declare word_less_nat_alt [word_nat]
declare word_le_nat_alt [word_nat]

lemma unat_plus_nowrap [word_nat]:
  fixes a b :: "'a::len word"
  assumes "unat a + unat b < 2 ^ LENGTH('a)"
  shows "unat (a + b) = unat a + unat b"
  using assms by (simp add: unat_add_lem)

lemma unat_minus_le [word_nat]:
  fixes a b :: "'a::len word"
  assumes "unat b \<le> unat a"
  shows "unat (a - b) = unat a - unat b"
  using assms by (simp add: unat_sub word_le_nat_alt)

lemma unat_ucast_mod:
  fixes w :: "'a::len word"
  shows "unat (ucast w :: 'b::len word) = unat w mod 2 ^ LENGTH('b)"
  by (metis of_nat_unat unat_of_nat)

text \<open>\<open>u64::saturating_sub\<close>: zero instead of a wrap-around.\<close>

definition saturating_sub :: "'a::len word \<Rightarrow> 'a word \<Rightarrow> 'a word" where
  "saturating_sub a b = (if a < b then 0 else a - b)"

lemma unat_saturating_sub [simp]: "unat (saturating_sub a b) = unat a - unat b"
  by (auto simp: saturating_sub_def word_nat not_less)

text \<open>\<open>checked_mul\<close> and \<open>checked_add\<close>: \<open>None\<close> on overflow.\<close>

definition checked_mul :: "'a::len word \<Rightarrow> 'a word \<Rightarrow> 'a word option" where
  "checked_mul a b = (if unat a * unat b < 2 ^ LENGTH('a) then Some (a * b) else None)"

definition checked_add :: "'a::len word \<Rightarrow> 'a word \<Rightarrow> 'a word option" where
  "checked_add a b = (if unat a + unat b < 2 ^ LENGTH('a) then Some (a + b) else None)"

lemma checked_mul_nat:
  "map_option unat (checked_mul a (b :: 'a::len word)) =
     (if unat a * unat b < 2 ^ LENGTH('a) then Some (unat a * unat b) else None)"
  by (simp add: checked_mul_def unat_mult_lem[THEN iffD1])

lemma checked_add_nat:
  "map_option unat (checked_add a (b :: 'a::len word)) =
     (if unat a + unat b < 2 ^ LENGTH('a) then Some (unat a + unat b) else None)"
  by (simp add: checked_add_def unat_plus_nowrap)

subsection \<open>Bytes\<close>

text \<open>A byte string literal of the sources (\<open>b"..."\<close>, and every \<open>str\<close> constant, all of
  which are ASCII).\<close>

definition ascii :: "string \<Rightarrow> bytes" where
  "ascii s = map of_char s"

lemma length_ascii [simp]: "length (ascii s) = length s"
  by (simp add: ascii_def)

definition is_ascii_digit :: "u8 \<Rightarrow> bool" where
  "is_ascii_digit b \<longleftrightarrow> 0x30 \<le> b \<and> b \<le> 0x39"

definition is_ascii_hexdigit :: "u8 \<Rightarrow> bool" where
  "is_ascii_hexdigit b \<longleftrightarrow> is_ascii_digit b \<or> (0x41 \<le> b \<and> b \<le> 0x46) \<or> (0x61 \<le> b \<and> b \<le> 0x66)"

definition is_ascii_alphanumeric :: "u8 \<Rightarrow> bool" where
  "is_ascii_alphanumeric b \<longleftrightarrow>
     is_ascii_digit b \<or> (0x41 \<le> b \<and> b \<le> 0x5A) \<or> (0x61 \<le> b \<and> b \<le> 0x7A)"

text \<open>\<open>u8::is_ascii_whitespace\<close>: tab, line feed, form feed, carriage return, space.\<close>

definition is_ascii_whitespace :: "u8 \<Rightarrow> bool" where
  "is_ascii_whitespace b \<longleftrightarrow> b = 0x09 \<or> b = 0x0A \<or> b = 0x0C \<or> b = 0x0D \<or> b = 0x20"

definition to_ascii_lowercase :: "u8 \<Rightarrow> u8" where
  "to_ascii_lowercase b = (if 0x41 \<le> b \<and> b \<le> 0x5A then b + 0x20 else b)"

definition eq_ignore_ascii_case :: "bytes \<Rightarrow> bytes \<Rightarrow> bool" where
  "eq_ignore_ascii_case a b \<longleftrightarrow> map to_ascii_lowercase a = map to_ascii_lowercase b"

lemma digit_not_whitespace: "is_ascii_digit b \<Longrightarrow> \<not> is_ascii_whitespace b"
  by (auto simp: is_ascii_digit_def is_ascii_whitespace_def)

subsection \<open>Slices\<close>

text \<open>\<open>buf[at..at + data.len()].copy_from_slice(data)\<close>, for a range that the caller has
  checked to lie inside \<open>buf\<close>.\<close>

definition copy_at :: "'a list \<Rightarrow> nat \<Rightarrow> 'a list \<Rightarrow> 'a list" where
  "copy_at buf at data = take at buf @ data @ drop (at + length data) buf"

lemma length_copy_at [simp]:
  "at + length data \<le> length buf \<Longrightarrow> length (copy_at buf at data) = length buf"
  by (simp add: copy_at_def)

lemma take_copy_at [simp]:
  "at + length data \<le> length buf \<Longrightarrow>
     take (at + length data) (copy_at buf at data) = take at buf @ data"
  by (simp add: copy_at_def)

lemma drop_copy_at:
  "at + length data \<le> n \<Longrightarrow> at \<le> length buf \<Longrightarrow> drop n (copy_at buf at data) = drop n buf"
  by (simp add: copy_at_def min_def)

lemma copy_at_0: "copy_at buf 0 data = data @ drop (length data) buf"
  by (simp add: copy_at_def)

lemma copy_at_snoc:
  "at < length buf \<Longrightarrow> buf[at := x] = copy_at buf at [x]"
  by (simp add: copy_at_def upd_conv_take_nth_drop)

text \<open>\<open>position\<close>: the index of the first element that satisfies a predicate.\<close>

fun position :: "('a \<Rightarrow> bool) \<Rightarrow> 'a list \<Rightarrow> nat option" where
  "position p [] = None"
| "position p (x # xs) = (if p x then Some 0 else map_option Suc (position p xs))"

lemma position_None [simp]: "position p xs = None \<longleftrightarrow> (\<forall>x \<in> set xs. \<not> p x)"
  by (induction xs) auto

lemma position_Some:
  "position p xs = Some i \<longleftrightarrow>
     i < length xs \<and> p (xs ! i) \<and> (\<forall>x \<in> set (take i xs). \<not> p x)"
proof (induction xs arbitrary: i)
  case Nil
  then show ?case by simp
next
  case (Cons x xs)
  then show ?case by (cases i) auto
qed

lemma position_append:
  "\<forall>x \<in> set xs. \<not> p x \<Longrightarrow> position p (xs @ ys) = map_option ((+) (length xs)) (position p ys)"
proof (induction xs)
  case Nil
  show ?case by (cases "position p ys") (simp_all del: position_None)
next
  case (Cons x xs)
  then show ?case
    by (cases "position p ys") (simp_all add: option.map_comp comp_def del: position_None)
qed

lemma position_split:
  "(case position ((=) c) xs of Some i \<Rightarrow> (take i xs, drop i xs) | None \<Rightarrow> (xs, [])) = (a, b) \<longleftrightarrow>
     xs = a @ b \<and> c \<notin> set a \<and> (b = [] \<or> hd b = c)"
proof (cases "position ((=) c) xs")
  case None
  then have "c \<notin> set xs" by auto
  with None show ?thesis by (cases b) (auto simp del: position_None)
next
  case (Some i)
  then have i: "i < length xs" "c = xs ! i" "c \<notin> set (take i xs)" by (auto simp: position_Some)
  have "xs = a @ b \<and> c \<notin> set a \<and> (b = [] \<or> hd b = c) \<longrightarrow> length a = i"
  proof
    assume A: "xs = a @ b \<and> c \<notin> set a \<and> (b = [] \<or> hd b = c)"
    with i have "b \<noteq> []" by (auto dest: nth_mem)
    then obtain b' where "b = c # b'" using A by (cases b) auto
    with A have "position ((=) c) xs = Some (length a)"
      using position_append [of a "(=) c" "c # b'"] by auto
    with Some show "length a = i" by simp
  qed
  with Some i show ?thesis
    by (auto simp: hd_drop_conv_nth) (metis append_take_drop_id)
qed

definition starts_with :: "'a list \<Rightarrow> 'a list \<Rightarrow> bool" where
  "starts_with xs prefix \<longleftrightarrow> take (length prefix) xs = prefix"

lemma starts_with_append [simp]: "starts_with (p @ xs) p"
  by (simp add: starts_with_def)

lemma starts_with_iff: "starts_with xs p \<longleftrightarrow> (\<exists>ys. xs = p @ ys)"
  by (metis append_take_drop_id starts_with_append starts_with_def)

text \<open>For evaluation: it stops at the first difference.\<close>

lemma starts_with_code [code]:
  "starts_with xs [] = True"
  "starts_with [] (p # ps) = False"
  "starts_with (x # xs) (p # ps) = (if x = p then starts_with xs ps else False)"
  by (auto simp: starts_with_def)

text \<open>\<open>str::split_once\<close> and \<open>str::rsplit_once\<close>: the parts around the first occurrence of a
  (non-empty) pattern, and around the last occurrence of a character.\<close>

fun split_once :: "'a list \<Rightarrow> 'a list \<Rightarrow> ('a list \<times> 'a list) option" where
  "split_once pat [] = None"
| "split_once pat (x # xs) =
     (if starts_with (x # xs) pat then Some ([], drop (length pat) (x # xs))
      else map_option (\<lambda>(a, b). (x # a, b)) (split_once pat xs))"

lemma split_once_sound: "split_once pat xs = Some (a, b) \<Longrightarrow> xs = a @ pat @ b"
  by (induction xs arbitrary: a) (auto simp: starts_with_iff split: if_splits)

lemma split_once_first:
  "c \<notin> set a \<Longrightarrow> split_once (c # cs) (a @ (c # cs) @ b) = Some (a, b)"
  by (induction a) (auto simp: starts_with_def)

definition rsplit_once :: "'a \<Rightarrow> 'a list \<Rightarrow> ('a list \<times> 'a list) option" where
  "rsplit_once c xs =
     (case position ((=) c) (rev xs) of
        None \<Rightarrow> None
      | Some i \<Rightarrow> Some (take (length xs - 1 - i) xs, drop (length xs - i) xs))"

lemma rsplit_once_None [simp]: "rsplit_once c xs = None \<longleftrightarrow> c \<notin> set xs"
proof (cases "position ((=) c) (rev xs)")
  case None
  then have "c \<notin> set xs" by auto
  with None show ?thesis by (simp add: rsplit_once_def del: position_None)
next
  case (Some i)
  then have "c \<in> set xs" using nth_mem [of i "rev xs"] by (simp add: position_Some)
  with Some show ?thesis by (simp add: rsplit_once_def)
qed

lemma rsplit_once_append: "c \<notin> set b \<Longrightarrow> rsplit_once c (a @ c # b) = Some (a, b)"
proof -
  assume "c \<notin> set b"
  then have "position ((=) c) (rev (a @ c # b)) = Some (length b)"
    using position_append [of "rev b" "(=) c" "c # rev a"] by auto
  then show ?thesis by (simp add: rsplit_once_def)
qed

lemma rsplit_once_sound:
  assumes "rsplit_once c xs = Some (a, b)"
  shows "xs = a @ c # b \<and> c \<notin> set b"
proof -
  have "c \<in> set xs" using assms by (metis option.distinct(1) rsplit_once_None)
  then obtain a' b' where xs: "xs = a' @ c # b'" "c \<notin> set b'"
    by (metis split_list_last)
  with rsplit_once_append [OF xs(2), of a'] assms show ?thesis by simp
qed

text \<open>\<open>split\<close> on one character: always at least one piece.\<close>

fun split_on :: "'a \<Rightarrow> 'a list \<Rightarrow> 'a list list" where
  "split_on c [] = [[]]"
| "split_on c (x # xs) =
     (if x = c then [] # split_on c xs
      else (x # hd (split_on c xs)) # tl (split_on c xs))"

lemma split_on_nonempty [simp]: "split_on c xs \<noteq> []"
  by (cases xs) auto

text \<open>For evaluation: one recursive call.\<close>

lemma split_on_code [code]:
  "split_on c [] = [[]]"
  "split_on c (x # xs) =
     (case split_on c xs of
        p # ps \<Rightarrow> if x = c then [] # p # ps else (x # p) # ps
      | [] \<Rightarrow> [])"
  by (auto split: list.split)

lemma split_on_append:
  "c \<notin> set a \<Longrightarrow> split_on c (a @ c # xs) = a # split_on c xs"
  by (induction a) auto

lemma split_on_none: "c \<notin> set a \<Longrightarrow> split_on c a = [a]"
  by (induction a) auto

lemma split_on_pieces: "p \<in> set (split_on c xs) \<Longrightarrow> c \<notin> set p"
proof (induction xs arbitrary: p)
  case Nil
  then show ?case by simp
next
  case (Cons x xs)
  have "hd (split_on c xs) \<in> set (split_on c xs)" by simp
  moreover have "set (tl (split_on c xs)) \<subseteq> set (split_on c xs)"
    by (metis list.set_sel(2) split_on_nonempty subsetI)
  ultimately show ?case using Cons by (auto split: if_splits)
qed

subsection \<open>Trimming\<close>

text \<open>\<open>trim_ascii\<close> of \<open>core/src/ota/mod.rs\<close>: its two loops over the indices.\<close>

function trim_start :: "bytes \<Rightarrow> nat \<Rightarrow> nat \<Rightarrow> nat" where
  "trim_start input start stop =
     (if start < stop \<and> is_ascii_whitespace (input ! start)
      then trim_start input (start + 1) stop else start)"
  by pat_completeness auto
termination
  by (relation "measure (\<lambda>(input, start, stop). stop - start)") auto

function trim_end :: "bytes \<Rightarrow> nat \<Rightarrow> nat \<Rightarrow> nat" where
  "trim_end input start stop =
     (if start < stop \<and> is_ascii_whitespace (input ! (stop - 1))
      then trim_end input start (stop - 1) else stop)"
  by pat_completeness auto
termination
  by (relation "measure (\<lambda>(input, start, stop). stop)") auto

declare trim_start.simps [simp del] trim_end.simps [simp del]

definition trim_ascii :: "bytes \<Rightarrow> bytes" where
  "trim_ascii input =
     (let start = trim_start input 0 (length input);
          stop = trim_end input start (length input)
      in take (stop - start) (drop start input))"

abbreviation white_space :: "bytes \<Rightarrow> bool" where
  "white_space w \<equiv> \<forall>b \<in> set w. is_ascii_whitespace b"

text \<open>A text that neither begins nor ends with whitespace.\<close>

definition trimmed :: "bytes \<Rightarrow> bool" where
  "trimmed t \<longleftrightarrow> t = [] \<or> \<not> is_ascii_whitespace (hd t) \<and> \<not> is_ascii_whitespace (last t)"

lemma trim_end_same: "trim_end x n n = n"
  by (subst trim_end.simps) simp

lemma trim_start_over:
  "white_space w \<Longrightarrow> x = u @ w @ r \<Longrightarrow> r = [] \<or> \<not> is_ascii_whitespace (hd r) \<Longrightarrow>
     trim_start x (length u) (length x) = length u + length w"
proof (induction w arbitrary: u)
  case Nil
  then show ?case by (cases r) (auto simp: trim_start.simps)
next
  case (Cons b w)
  from Cons.IH [of "u @ [b]"] Cons.prems show ?case
    by (subst trim_start.simps) auto
qed

lemma trim_end_over:
  "white_space w \<Longrightarrow> x = u @ t @ w @ r \<Longrightarrow> t = [] \<or> \<not> is_ascii_whitespace (last t) \<Longrightarrow>
     trim_end x (length u) (length u + length t + length w) = length u + length t"
proof (induction w arbitrary: r rule: rev_induct)
  case Nil
  then show ?case
    by (cases t rule: rev_cases) (auto simp: trim_end.simps nth_append)
next
  case (snoc b w)
  from snoc.IH [of "b # r"] snoc.prems show ?case
    by (subst trim_end.simps) (auto simp: nth_append)
qed

lemma trim_ascii_over:
  assumes "white_space w" and "white_space w'" and "trimmed t"
  shows "trim_ascii (w @ t @ w') = t"
proof (cases "t = []")
  case True
  then have "trim_start (w @ t @ w') 0 (length (w @ t @ w')) = length (w @ w')"
    using trim_start_over [of "w @ w'" "w @ w'" "[]" "[]"] assms by auto
  with True show ?thesis by (simp add: trim_ascii_def trim_end_same)
next
  case False
  then have "trim_start (w @ t @ w') 0 (length (w @ t @ w')) = length w"
    using trim_start_over [of w "w @ t @ w'" "[]" "t @ w'"] assms by (auto simp: trimmed_def)
  moreover have "trim_end (w @ t @ w') (length w) (length (w @ t @ w')) = length w + length t"
    using trim_end_over [of w' "w @ t @ w'" w t "[]"] assms False by (simp add: trimmed_def add.assoc)
  ultimately show ?thesis by (simp add: trim_ascii_def)
qed

lemma trim_split: "\<exists>w t w'. x = w @ t @ w' \<and> white_space w \<and> white_space w' \<and> trimmed t"
proof -
  let ?y = "dropWhile is_ascii_whitespace x"
  let ?t = "rev (dropWhile is_ascii_whitespace (rev ?y))"
  let ?w' = "rev (takeWhile is_ascii_whitespace (rev ?y))"
  have y: "?y = ?t @ ?w'"
    by (metis rev_append rev_rev_ident takeWhile_dropWhile_id)
  have "trimmed ?t"
  proof (cases "?t = []")
    case False
    then have "?y \<noteq> []" by (metis Nil_is_rev_conv dropWhile.simps(1))
    then have "\<not> is_ascii_whitespace (hd ?y)" by (rule hd_dropWhile)
    then have "\<not> is_ascii_whitespace (hd ?t)" using y False by (metis hd_append2)
    moreover have "\<not> is_ascii_whitespace (last ?t)"
      using False by (metis hd_dropWhile last_rev rev_is_Nil_conv)
    ultimately show ?thesis by (simp add: trimmed_def)
  qed (simp add: trimmed_def)
  moreover have "x = takeWhile is_ascii_whitespace x @ ?t @ ?w'"
    using y by (metis takeWhile_dropWhile_id)
  moreover have "white_space (takeWhile is_ascii_whitespace x)" "white_space ?w'"
    by (auto dest: set_takeWhileD)
  ultimately show ?thesis by blast
qed

lemma trim_ascii_iff:
  "trim_ascii x = t \<longleftrightarrow>
     trimmed t \<and> (\<exists>w w'. x = w @ t @ w' \<and> white_space w \<and> white_space w')"
proof
  obtain w u w' where x: "x = w @ u @ w'" "white_space w" "white_space w'" "trimmed u"
    using trim_split [of x] by (elim exE conjE)
  have u: "trim_ascii x = u" unfolding x(1) using x(2-4) by (rule trim_ascii_over)
  assume "trim_ascii x = t"
  with u have "t = u" by simp
  with x show "trimmed t \<and> (\<exists>w w'. x = w @ t @ w' \<and> white_space w \<and> white_space w')" by auto
next
  assume "trimmed t \<and> (\<exists>w w'. x = w @ t @ w' \<and> white_space w \<and> white_space w')"
  then show "trim_ascii x = t" by (auto intro: trim_ascii_over)
qed

end
