(* ===== verification/Machines.thy ===== *)
theory Machines
  imports Prelude
begin

text \<open>
  The components with state are deterministic step functions: one call of a method, or one
  turn of a task's loop, takes the state and an event and returns the new state and what the
  code hands back. This theory runs them over lists of events and states, as locales, the
  two contracts that the components share: an invariant that relates the state to the
  history of events, and a simulation of an abstract machine.
\<close>

primrec run :: "('s \<Rightarrow> 'e \<Rightarrow> 's \<times> 'o) \<Rightarrow> 's \<Rightarrow> 'e list \<Rightarrow> 's \<times> 'o list" where
  "run step s [] = (s, [])"
| "run step s (e # es) =
     (let (s', out) = step s e; (s'', outs) = run step s' es in (s'', out # outs))"

abbreviation final :: "('s \<Rightarrow> 'e \<Rightarrow> 's \<times> 'o) \<Rightarrow> 's \<Rightarrow> 'e list \<Rightarrow> 's" where
  "final step s es \<equiv> fst (run step s es)"

abbreviation outputs :: "('s \<Rightarrow> 'e \<Rightarrow> 's \<times> 'o) \<Rightarrow> 's \<Rightarrow> 'e list \<Rightarrow> 'o list" where
  "outputs step s es \<equiv> snd (run step s es)"

lemma final_Cons [simp]: "final step s (e # es) = final step (fst (step s e)) es"
  by (simp add: split_beta)

lemma outputs_Cons [simp]:
  "outputs step s (e # es) = snd (step s e) # outputs step (fst (step s e)) es"
  by (simp add: split_beta)

declare run.simps(2) [simp del]

lemma final_append [simp]: "final step s (xs @ ys) = final step (final step s xs) ys"
  by (induction xs arbitrary: s) simp_all

lemma outputs_append [simp]:
  "outputs step s (xs @ ys) = outputs step s xs @ outputs step (final step s xs) ys"
  by (induction xs arbitrary: s) simp_all

lemma length_outputs [simp]: "length (outputs step s es) = length es"
  by (induction es arbitrary: s) simp_all

subsection \<open>Invariants over the history of events\<close>

text \<open>
  \<open>env\<close> is what the environment guarantees of a sequence of events (a clock that does not
  run backwards, say); it must hold of every prefix of a sequence that satisfies it.
\<close>

locale history_machine =
  fixes step :: "'s \<Rightarrow> 'e \<Rightarrow> 's \<times> 'o"
    and start :: 's
    and env :: "'e list \<Rightarrow> bool"
    and inv :: "'s \<Rightarrow> 'e list \<Rightarrow> bool"
  assumes inv_start: "inv start []"
    and env_prefix: "env (es @ [e]) \<Longrightarrow> env es"
    and inv_step: "inv s es \<Longrightarrow> env (es @ [e]) \<Longrightarrow> inv (fst (step s e)) (es @ [e])"
begin

lemma env_prefixes: "env (xs @ ys) \<Longrightarrow> env xs"
  by (induction ys rule: rev_induct) (auto dest: env_prefix simp flip: append_assoc)

lemma inv_final: "env es \<Longrightarrow> inv (final step start es) es"
proof (induction es rule: rev_induct)
  case Nil
  show ?case by (simp add: inv_start)
next
  case (snoc e es)
  from snoc.prems have "env es" by (rule env_prefix)
  then have "inv (final step start es) es" by (rule snoc.IH)
  then show ?case using snoc.prems by (simp add: inv_step)
qed

lemma inv_before:
  assumes "env (xs @ e # ys)"
  shows "inv (final step start xs) xs" and "env (xs @ [e])"
proof -
  have "env ((xs @ [e]) @ ys)" using assms by simp
  then show "env (xs @ [e])" by (rule env_prefixes)
  then show "inv (final step start xs) xs" by (rule inv_final [OF env_prefix])
qed

end

subsection \<open>Simulation of an abstract machine\<close>

text \<open>
  The abstract machine may restrict the events the environment offers in its state
  (\<open>legal\<close>); on legal runs both machines answer every event alike.
\<close>

primrec legal_run :: "('a \<Rightarrow> 'e \<Rightarrow> bool) \<Rightarrow> ('a \<Rightarrow> 'e \<Rightarrow> 'a \<times> 'o) \<Rightarrow> 'a \<Rightarrow> 'e list \<Rightarrow> bool" where
  "legal_run legal astep a [] = True"
| "legal_run legal astep a (e # es) =
     (legal a e \<and> legal_run legal astep (fst (astep a e)) es)"

lemma legal_run_append:
  "legal_run legal astep a (xs @ ys) \<longleftrightarrow>
     legal_run legal astep a xs \<and> legal_run legal astep (final astep a xs) ys"
  by (induction xs arbitrary: a) auto

locale simulation =
  fixes cstep :: "'s \<Rightarrow> 'e \<Rightarrow> 's \<times> 'o"
    and astep :: "'a \<Rightarrow> 'e \<Rightarrow> 'a \<times> 'o"
    and legal :: "'a \<Rightarrow> 'e \<Rightarrow> bool"
    and rel :: "'s \<Rightarrow> 'a \<Rightarrow> bool"
  assumes sim_step: "rel s a \<Longrightarrow> legal a e \<Longrightarrow>
      rel (fst (cstep s e)) (fst (astep a e)) \<and> snd (cstep s e) = snd (astep a e)"
begin

lemma sim_run:
  "rel s a \<Longrightarrow> legal_run legal astep a es \<Longrightarrow>
     rel (final cstep s es) (final astep a es) \<and> outputs cstep s es = outputs astep a es"
proof (induction es arbitrary: s a)
  case Nil
  then show ?case by simp
next
  case (Cons e es)
  then have "rel (fst (cstep s e)) (fst (astep a e))" and "snd (cstep s e) = snd (astep a e)"
    using sim_step by auto
  with Cons show ?case by simp
qed

lemmas sim_final = sim_run [THEN conjunct1]
lemmas sim_outputs = sim_run [THEN conjunct2]

end

end
