(* ===== verification/Door.thy ===== *)
theory Door
  imports Machines
begin

text \<open>
  The door policy of \<open>core/src/door.rs\<close>: the relay interlock (one pulse at a time, then a
  mandatory cooldown) and the reed debouncer. Milliseconds are \<open>u64\<close> as in the code; sums
  wrap around, as in the release profile. The interlock refines an abstract relay guard over
  unbounded time as long as every trigger is preceded by a poll at the same instant, which
  is how the actuator task calls it; the debouncer is related to the history of its samples.
\<close>

subsection \<open>Constants and data\<close>

definition RELAY_PULSE_MS :: u32 where "RELAY_PULSE_MS = 600"
definition RELAY_COOLDOWN_MS :: u32 where "RELAY_COOLDOWN_MS = 2000"
definition REED_DEBOUNCE_MS :: u32 where "REED_DEBOUNCE_MS = 50"

datatype door_state = Open | Closed

datatype door_command = Trigger | QueryStatus

datatype relay_action = AssertHigh | DeassertLow

datatype trigger_rejection = PulseActive | Cooldown (remaining_ms: u32)

subsection \<open>The relay interlock\<close>

record relay_interlock =
  pulse_end_ms :: "u64 option"
  cooldown_end_ms :: "u64 option"

definition interlock_new :: relay_interlock where
  "interlock_new = \<lparr>pulse_end_ms = None, cooldown_end_ms = None\<rparr>"

definition is_pulsing :: "relay_interlock \<Rightarrow> u64 \<Rightarrow> bool" where
  "is_pulsing s now_ms =
     (case pulse_end_ms s of Some end_ms \<Rightarrow> now_ms < end_ms | None \<Rightarrow> False)"

definition trigger ::
  "relay_interlock \<Rightarrow> u64 \<Rightarrow> relay_interlock \<times> (trigger_rejection + relay_action)" where
  "trigger s now_ms =
     (if is_pulsing s now_ms then (s, Inl PulseActive)
      else case cooldown_end_ms s of
        Some end_ms \<Rightarrow>
          if now_ms < end_ms then (s, Inl (Cooldown (ucast (end_ms - now_ms))))
          else (s\<lparr>pulse_end_ms := Some (now_ms + ucast RELAY_PULSE_MS),
                  cooldown_end_ms := None\<rparr>, Inr AssertHigh)
      | None \<Rightarrow>
          (s\<lparr>pulse_end_ms := Some (now_ms + ucast RELAY_PULSE_MS),
             cooldown_end_ms := None\<rparr>, Inr AssertHigh))"

definition poll :: "relay_interlock \<Rightarrow> u64 \<Rightarrow> relay_interlock \<times> relay_action option" where
  "poll s now_ms =
     (case pulse_end_ms s of
        Some end_ms \<Rightarrow>
          if end_ms \<le> now_ms
          then (s\<lparr>pulse_end_ms := None,
                  cooldown_end_ms := Some (end_ms + ucast RELAY_COOLDOWN_MS)\<rparr>,
                Some DeassertLow)
          else (s, None)
      | None \<Rightarrow> (s, None))"

text \<open>The interlock as a machine: one event per method call.\<close>

datatype interlock_call = Call_Poll (call_time: u64) | Call_Trigger (call_time: u64)

datatype interlock_answer =
  Polled "relay_action option" | Triggered "trigger_rejection + relay_action"

fun interlock_step ::
  "relay_interlock \<Rightarrow> interlock_call \<Rightarrow> relay_interlock \<times> interlock_answer" where
  "interlock_step s (Call_Poll t) = map_prod id Polled (poll s t)"
| "interlock_step s (Call_Trigger t) = map_prod id Triggered (trigger s t)"

text \<open>
  The abstract guard: the time the last pulse started, whether the relay is still asserted
  for it, and the time of the latest call, all as natural numbers.
\<close>

record relay_guard =
  started :: "nat option"
  high :: bool
  clock :: nat

definition guard_new :: relay_guard where
  "guard_new = \<lparr>started = None, high = False, clock = 0\<rparr>"

definition PERIOD :: nat where
  "PERIOD = unat RELAY_PULSE_MS + unat RELAY_COOLDOWN_MS"

fun guard_step :: "relay_guard \<Rightarrow> interlock_call \<Rightarrow> relay_guard \<times> interlock_answer" where
  "guard_step g (Call_Poll t) =
     (case started g of
        Some b \<Rightarrow>
          if high g \<and> b + unat RELAY_PULSE_MS \<le> unat t
          then (g\<lparr>high := False, clock := unat t\<rparr>, Polled (Some DeassertLow))
          else (g\<lparr>clock := unat t\<rparr>, Polled None)
      | None \<Rightarrow> (g\<lparr>clock := unat t\<rparr>, Polled None))"
| "guard_step g (Call_Trigger t) =
     (case started g of
        Some b \<Rightarrow>
          if unat t < b + unat RELAY_PULSE_MS then (g, Triggered (Inl PulseActive))
          else if unat t < b + PERIOD
          then (g, Triggered (Inl (Cooldown (of_nat (b + PERIOD - unat t)))))
          else (\<lparr>started = Some (unat t), high = True, clock = unat t\<rparr>,
                Triggered (Inr AssertHigh))
      | None \<Rightarrow>
          (\<lparr>started = Some (unat t), high = True, clock = unat t\<rparr>,
           Triggered (Inr AssertHigh)))"

text \<open>
  What the environment must respect: the clock does not run backwards and stays clear of
  the end of the \<open>u64\<close> range, and a trigger comes at the instant of the call before it.
\<close>

definition time_ok :: "u64 \<Rightarrow> bool" where
  "time_ok t \<longleftrightarrow> unat t + PERIOD < 2 ^ 64"

fun guard_legal :: "relay_guard \<Rightarrow> interlock_call \<Rightarrow> bool" where
  "guard_legal g (Call_Poll t) = (clock g \<le> unat t \<and> time_ok t)"
| "guard_legal g (Call_Trigger t) = (clock g = unat t \<and> time_ok t)"

definition guard_rel :: "relay_interlock \<Rightarrow> relay_guard \<Rightarrow> bool" where
  "guard_rel s g \<longleftrightarrow>
     map_option unat (pulse_end_ms s) =
       (if high g then map_option (\<lambda>b. b + unat RELAY_PULSE_MS) (started g) else None) \<and>
     map_option unat (cooldown_end_ms s) =
       (if high g then None else map_option (\<lambda>b. b + PERIOD) (started g)) \<and>
     (high g \<longrightarrow> started g \<noteq> None) \<and>
     (case started g of None \<Rightarrow> True
      | Some b \<Rightarrow> b + PERIOD < 2 ^ 64 \<and> b \<le> clock g \<and>
          (high g \<longleftrightarrow> clock g < b + unat RELAY_PULSE_MS))"

lemmas door_consts =
  RELAY_PULSE_MS_def RELAY_COOLDOWN_MS_def REED_DEBOUNCE_MS_def PERIOD_def

lemma guard_rel_new [simp]: "guard_rel interlock_new guard_new"
  by (simp add: guard_rel_def interlock_new_def guard_new_def)

lemma unat_pulse_end:
  "time_ok t \<Longrightarrow> unat (t + 600) = unat t + 600" "time_ok t \<Longrightarrow> unat (t + 2600) = unat t + 2600"
  by (simp_all add: time_ok_def word_nat door_consts)

lemma guard_rel_poll:
  assumes "guard_rel s g" and "guard_legal g (Call_Poll t)"
  shows "guard_rel (fst (poll s t)) (fst (guard_step g (Call_Poll t)))"
    and "Polled (snd (poll s t)) = snd (guard_step g (Call_Poll t))"
  using assms
  by (auto simp: guard_rel_def poll_def door_consts word_nat split: option.splits if_splits)

lemma ucast_remaining:
  fixes z t :: u64
  assumes "unat z = m" and "unat t \<le> m"
  shows "(ucast (z - t) :: u32) = of_nat (m - unat t)"
proof -
  have "unat (z - t) = m - unat t" using assms by (simp add: word_nat)
  then show ?thesis by (metis of_nat_unat)
qed

lemma guard_rel_trigger:
  assumes "guard_rel s g" and "guard_legal g (Call_Trigger t)"
  shows "guard_rel (fst (trigger s t)) (fst (guard_step g (Call_Trigger t)))"
    and "Triggered (snd (trigger s t)) = snd (guard_step g (Call_Trigger t))"
  using assms
  by (auto simp: guard_rel_def trigger_def is_pulsing_def time_ok_def door_consts word_nat
      simp del: of_nat_diff of_nat_add split: option.splits if_splits intro!: ucast_remaining)

interpretation relay: simulation interlock_step guard_step guard_legal guard_rel
proof unfold_locales
  fix s g e
  assume rel: "guard_rel s g" and ok: "guard_legal g e"
  show "guard_rel (fst (interlock_step s e)) (fst (guard_step g e)) \<and>
      snd (interlock_step s e) = snd (guard_step g e)"
  proof (cases e)
    case (Call_Poll t)
    with rel ok guard_rel_poll [of s g t] show ?thesis by simp
  next
    case (Call_Trigger t)
    with rel ok guard_rel_trigger [of s g t] show ?thesis by simp
  qed
qed

subsection \<open>Pulses are spaced by pulse plus cooldown\<close>

text \<open>The start times of the pulses a sequence of calls was granted.\<close>

definition pulse_starts :: "interlock_call list \<Rightarrow> interlock_answer list \<Rightarrow> nat list" where
  "pulse_starts es outs =
     map (\<lambda>(e, out). unat (call_time e))
       (filter (\<lambda>(e, out). out = Triggered (Inr AssertHigh)) (zip es outs))"

lemma pulse_starts_simps [simp]:
  "pulse_starts [] outs = []"
  "pulse_starts (e # es) (out # outs) =
     (if out = Triggered (Inr AssertHigh) then [unat (call_time e)] else []) @
     pulse_starts es outs"
  by (simp_all add: pulse_starts_def)

definition spaced :: "nat \<Rightarrow> nat list \<Rightarrow> bool" where
  "spaced d ts \<longleftrightarrow> sorted_wrt (\<lambda>a b. a + d \<le> b) ts"

text \<open>The guard never answers a trigger with \<open>DeassertLow\<close>, and each grant respects its predecessor.\<close>

lemma guard_grants_spaced:
  assumes "\<forall>b. started g = Some b \<longrightarrow> b \<le> clock g"
    and "legal_run guard_legal guard_step g es"
  shows "(\<forall>b \<in> set_option (started g).
            \<forall>t \<in> set (pulse_starts es (outputs guard_step g es)). b + PERIOD \<le> t) \<and>
         spaced PERIOD (pulse_starts es (outputs guard_step g es))"
  using assms
proof (induction es arbitrary: g)
  case Nil
  then show ?case by (simp add: spaced_def)
next
  case (Cons e es)
  let ?g = "fst (guard_step g e)"
  have "\<forall>b. started ?g = Some b \<longrightarrow> b \<le> clock ?g"
    using Cons.prems by (cases e) (auto split: option.splits if_splits)
  with Cons.IH [of ?g] Cons.prems(2)
  have IH: "\<forall>b \<in> set_option (started ?g).
        \<forall>t \<in> set (pulse_starts es (outputs guard_step ?g es)). b + PERIOD \<le> t"
      "spaced PERIOD (pulse_starts es (outputs guard_step ?g es))"
    by simp_all
  show ?case
  proof (cases "snd (guard_step g e) = Triggered (Inr AssertHigh)")
    case True
    then have "started ?g = Some (unat (call_time e))"
      and "\<forall>b. started g = Some b \<longrightarrow> b + PERIOD \<le> unat (call_time e)"
      by (cases e; auto split: option.splits if_splits)+
    with IH True show ?thesis
      by (fastforce simp: spaced_def)
  next
    case False
    then have "started ?g = started g"
      by (cases e) (auto split: option.splits if_splits)
    with IH False show ?thesis by (simp)
  qed
qed

lemma interlock_grants_spaced:
  assumes "legal_run guard_legal guard_step guard_new es"
  shows "spaced PERIOD (pulse_starts es (outputs interlock_step interlock_new es))"
  using guard_grants_spaced [OF _ assms] relay.sim_outputs [OF guard_rel_new assms]
  by (simp add: guard_new_def)

subsection \<open>Assertions and releases alternate\<close>

fun relay_writes :: "interlock_answer \<Rightarrow> relay_action list" where
  "relay_writes (Polled (Some a)) = [a]"
| "relay_writes (Polled None) = []"
| "relay_writes (Triggered (Inr a)) = [a]"
| "relay_writes (Triggered (Inl r)) = []"

lemma distinct_adj_Cons_iff:
  "distinct_adj (x # xs) \<longleftrightarrow> (xs = [] \<or> hd xs \<noteq> x) \<and> distinct_adj xs"
  by (cases xs) auto

lemma guard_actions_alternate:
  assumes "high g \<longrightarrow> (\<exists>b. started g = Some b \<and> clock g < b + unat RELAY_PULSE_MS)"
    and "\<forall>b. started g = Some b \<longrightarrow> \<not> high g \<longrightarrow> b + unat RELAY_PULSE_MS \<le> clock g"
    and "legal_run guard_legal guard_step g es"
  shows "distinct_adj ((if high g then AssertHigh else DeassertLow) #
           concat (map relay_writes (outputs guard_step g es)))"
  using assms
proof (induction es arbitrary: g)
  case Nil
  then show ?case by simp
next
  case (Cons e es)
  let ?g = "fst (guard_step g e)"
  have "high ?g \<longrightarrow> (\<exists>b. started ?g = Some b \<and> clock ?g < b + unat RELAY_PULSE_MS)"
    and "\<forall>b. started ?g = Some b \<longrightarrow> \<not> high ?g \<longrightarrow> b + unat RELAY_PULSE_MS \<le> clock ?g"
    using Cons.prems by (cases e; auto simp: door_consts split: option.splits if_splits)+
  with Cons.IH [of ?g] Cons.prems(3)
  have IH: "distinct_adj ((if high ?g then AssertHigh else DeassertLow) #
      concat (map relay_writes (outputs guard_step ?g es)))"
    by simp
  have "relay_writes (snd (guard_step g e)) =
      (if high ?g = high g then [] else if high ?g then [AssertHigh] else [DeassertLow])"
    using Cons.prems by (cases e) (auto simp: door_consts split: option.splits if_splits)
  with IH show ?case by (auto split: if_splits)
qed

lemma interlock_actions_alternate:
  assumes "legal_run guard_legal guard_step guard_new es"
  shows "distinct_adj (DeassertLow #
           concat (map relay_writes (outputs interlock_step interlock_new es)))"
  using guard_actions_alternate [OF _ _ assms] relay.sim_outputs [OF guard_rel_new assms]
  by (simp add: guard_new_def)

subsection \<open>The cooldown answer is exact\<close>

lemma cooldown_answer:
  assumes "guard_rel s g" and "guard_legal g (Call_Trigger t)"
    and "snd (trigger s t) = Inl (Cooldown r)"
  shows "\<exists>e. cooldown_end_ms s = Some e \<and> pulse_end_ms s = None \<and>
           e = t + ucast r \<and> unat e = unat t + unat r \<and> 0 < unat r \<and> unat r \<le> 2000"
proof -
  from assms obtain e where e: "cooldown_end_ms s = Some e" "unat t < unat e" "r = ucast (e - t)"
      "pulse_end_ms s = None" "unat e \<le> unat t + 2000"
    by (auto simp: guard_rel_def trigger_def is_pulsing_def door_consts word_nat
        split: option.splits if_splits)
  have d: "unat (e - t) = unat e - unat t"
    using e(2) by (simp add: word_nat)
  have r: "unat r = unat e - unat t"
    unfolding e(3) unat_ucast_mod d using e(5) by simp
  have "unat (t + ucast r) = unat e"
    using e(2,5) r unsigned_less [of e] by (subst unat_plus_nowrap) (simp_all add: unat_ucast_mod)
  then have "e = t + ucast r" by (simp add: word_unat_eq_iff)
  with e(1,2,4,5) r show ?thesis by simp
qed

text \<open>Without a poll after the pulse, the cooldown is never armed.\<close>

lemma unpolled_trigger_accepted:
  assumes "time_ok t" and "unat t + unat RELAY_PULSE_MS \<le> unat t'"
  shows "snd (trigger (fst (trigger interlock_new t)) t') = Inr AssertHigh"
  using assms
  by (simp add: trigger_def interlock_new_def is_pulsing_def time_ok_def door_consts word_nat)

subsection \<open>The reed debouncer\<close>

record reed_debouncer =
  committed :: door_state
  pending :: "(door_state \<times> u64) option"

definition debouncer_new :: "door_state \<Rightarrow> reed_debouncer" where
  "debouncer_new initial = \<lparr>committed = initial, pending = None\<rparr>"

definition debouncer_state :: "reed_debouncer \<Rightarrow> door_state" where
  "debouncer_state d = committed d"

definition is_pending :: "reed_debouncer \<Rightarrow> bool" where
  "is_pending d \<longleftrightarrow> pending d \<noteq> None"

text \<open>The level of a sample: \<open>reed_closed == true\<close> is a closed door.\<close>

definition reed_level :: "bool \<Rightarrow> door_state" where
  "reed_level reed_closed = (if reed_closed then Closed else Open)"

definition update :: "reed_debouncer \<Rightarrow> bool \<Rightarrow> u64 \<Rightarrow> reed_debouncer \<times> door_state option" where
  "update d reed_closed now_ms =
     (let desired = reed_level reed_closed in
      if desired = committed d then (d\<lparr>pending := None\<rparr>, None)
      else case pending d of
        Some (state, since_ms) \<Rightarrow>
          if state = desired then
            if ucast REED_DEBOUNCE_MS \<le> saturating_sub now_ms since_ms
            then (d\<lparr>committed := desired, pending := None\<rparr>, Some desired)
            else (d, None)
          else (d\<lparr>pending := Some (desired, now_ms)\<rparr>, None)
      | None \<Rightarrow> (d\<lparr>pending := Some (desired, now_ms)\<rparr>, None))"

fun debounce_step :: "reed_debouncer \<Rightarrow> bool \<times> u64 \<Rightarrow> reed_debouncer \<times> door_state option" where
  "debounce_step d (reed_closed, now_ms) = update d reed_closed now_ms"

text \<open>
  \<open>stable_since es l since\<close>: the samples \<open>es\<close> end in a run, taken from time \<open>since\<close> on,
  all at level \<open>l\<close>.
\<close>

definition stable_since :: "(bool \<times> u64) list \<Rightarrow> door_state \<Rightarrow> u64 \<Rightarrow> bool" where
  "stable_since es l since \<longleftrightarrow>
     (\<exists>before suf. es = before @ suf \<and> suf \<noteq> [] \<and> snd (hd suf) = since \<and>
        (\<forall>(c, t) \<in> set suf. reed_level c = l))"

lemma stable_since_snoc:
  "stable_since es l since \<Longrightarrow> reed_level c = l \<Longrightarrow> stable_since (es @ [(c, t)]) l since"
  unfolding stable_since_def
proof (elim exE conjE)
  fix before suf
  assume *: "reed_level c = l" "es = before @ suf" "suf \<noteq> []" "snd (hd suf) = since"
    "\<forall>(c, t) \<in> set suf. reed_level c = l"
  then have "es @ [(c, t)] = before @ (suf @ [(c, t)]) \<and> suf @ [(c, t)] \<noteq> [] \<and>
      snd (hd (suf @ [(c, t)])) = since \<and> (\<forall>(c, t) \<in> set (suf @ [(c, t)]). reed_level c = l)"
    by auto
  then show "\<exists>before suf. es @ [(c, t)] = before @ suf \<and> suf \<noteq> [] \<and> snd (hd suf) = since \<and>
      (\<forall>(c, t) \<in> set suf. reed_level c = l)"
    by blast
qed

lemma stable_since_new: "reed_level c = l \<Longrightarrow> stable_since (es @ [(c, t)]) l t"
  unfolding stable_since_def by (rule exI [of _ es], rule exI [of _ "[(c, t)]"]) simp

lemma stable_since_last: "stable_since (es @ [(c, t)]) l since \<Longrightarrow> reed_level c = l"
  unfolding stable_since_def
  by (elim exE conjE, rule_tac xs = suf in rev_cases) auto

text \<open>
  The debouncer's invariant over its samples: the pending candidate is the level that the
  samples have shown without interruption since the recorded time. With no candidate, the
  last sample showed the committed level (or was the one that committed it).
\<close>

definition debounce_inv :: "reed_debouncer \<Rightarrow> (bool \<times> u64) list \<Rightarrow> bool" where
  "debounce_inv d es \<longleftrightarrow>
     (case pending d of
        None \<Rightarrow> es \<noteq> [] \<longrightarrow> reed_level (fst (last es)) = committed d
      | Some (l, since) \<Rightarrow> l \<noteq> committed d \<and> stable_since es l since)"

lemma debounce_inv_step:
  assumes "debounce_inv d es"
  shows "debounce_inv (fst (debounce_step d e)) (es @ [e])"
proof (cases e)
  case (Pair c t)
  show ?thesis
    using assms unfolding Pair
    by (auto simp: debounce_inv_def update_def Let_def intro: stable_since_snoc stable_since_new
        split: option.splits if_splits)
qed

interpretation reed: history_machine debounce_step "debouncer_new initial" "\<lambda>_. True" debounce_inv
  for initial
  by unfold_locales (simp_all add: debounce_inv_step, simp add: debounce_inv_def debouncer_new_def)

lemma commit_needs_stability:
  assumes "snd (debounce_step (final debounce_step (debouncer_new initial) es) (c, t)) = Some l"
  shows "l = reed_level c \<and>
    (\<exists>since. stable_since (es @ [(c, t)]) l since \<and> unat since + unat REED_DEBOUNCE_MS \<le> unat t)"
proof -
  have "debounce_inv (final debounce_step (debouncer_new initial) es) es"
    by (rule reed.inv_final) simp
  with assms show ?thesis
    by (auto simp: debounce_inv_def update_def Let_def word_nat door_consts
        intro!: exI intro: stable_since_snoc split: option.splits if_splits)
qed

lemma stable_since_le:
  assumes "stable_since es l since" and "sorted (map (unat \<circ> snd) (es @ e # xs))"
  shows "unat since \<le> unat (snd e)"
proof -
  from assms(1) have "since \<in> snd ` set es"
    by (auto simp: stable_since_def intro!: image_eqI [of _ snd])
  with assms(2) show ?thesis by (auto simp: sorted_append)
qed

definition settling :: "reed_debouncer \<Rightarrow> door_state \<Rightarrow> u64 \<Rightarrow> bool" where
  "settling d l t0 \<longleftrightarrow> committed d = l \<or>
     (\<exists>since. pending d = Some (l, since) \<and> unat since \<le> unat t0)"

lemma settling_start:
  assumes "debounce_inv d es" and "sorted (map (unat \<circ> snd) (es @ (c, t0) # xs))"
    and "reed_level c = l"
  shows "settling (fst (debounce_step d (c, t0))) l t0"
  using assms stable_since_le [OF _ assms(2)]
  by (auto simp: settling_def debounce_inv_def update_def Let_def split: option.splits if_splits)

lemma settling_step:
  "settling d l t0 \<Longrightarrow> reed_level c = l \<Longrightarrow> settling (fst (debounce_step d (c, t))) l t0"
  by (auto simp: settling_def update_def Let_def split: option.splits if_splits)

lemma settling_run:
  "settling d l t0 \<Longrightarrow> \<forall>(c, t) \<in> set es. reed_level c = l \<Longrightarrow>
     settling (final debounce_step d es) l t0"
proof (induction es arbitrary: d)
  case (Cons e es)
  then show ?case by (cases e) (auto intro: settling_step simp del: debounce_step.simps)
qed simp

lemma settling_commit:
  "settling d l t0 \<Longrightarrow> reed_level c = l \<Longrightarrow> unat t0 + unat REED_DEBOUNCE_MS \<le> unat t \<Longrightarrow>
     committed (fst (debounce_step d (c, t))) = l"
  by (auto simp: settling_def update_def Let_def word_nat door_consts)

text \<open>A level that stays for the debounce time is committed, whatever came before.\<close>

lemma stable_level_committed:
  assumes mono: "sorted (map (unat \<circ> snd) (es @ (c0, t0) # mid @ [(c, t)]))"
    and level: "\<forall>(c, t) \<in> set ((c0, t0) # mid @ [(c, t)]). reed_level c = l"
    and long: "unat t0 + unat REED_DEBOUNCE_MS \<le> unat t"
  shows "committed (final debounce_step (debouncer_new initial) (es @ (c0, t0) # mid @ [(c, t)])) = l"
proof -
  let ?d = "final debounce_step (debouncer_new initial) es"
  have "debounce_inv ?d es" by (rule reed.inv_final) simp
  then have "settling (fst (debounce_step ?d (c0, t0))) l t0"
    using level by (intro settling_start [OF _ mono]) auto
  then have "settling (final debounce_step (fst (debounce_step ?d (c0, t0))) mid) l t0"
    using level by (intro settling_run) auto
  then show ?thesis
    using level long by (simp add: settling_commit del: debounce_step.simps)
qed

text \<open>What is emitted is a change of the committed state, so emissions alternate.\<close>

lemma debounce_emits:
  "snd (debounce_step d e) =
     (if committed (fst (debounce_step d e)) = committed d then None
      else Some (committed (fst (debounce_step d e))))"
  by (cases e) (auto simp: update_def Let_def split: option.splits)

lemma emissions_alternate:
  "distinct_adj (committed d # concat (map (case_option [] (\<lambda>l. [l])) (outputs debounce_step d es)))"
proof (induction es arbitrary: d)
  case (Cons e es)
  show ?case
    using Cons.IH [of "fst (debounce_step d e)"]
    by (auto simp: debounce_emits [of d e] simp del: debounce_step.simps)
qed simp

subsection \<open>Properties\<close>

text \<open>A day at the door: a pulse, a trigger too early, one after the cooldown.\<close>

definition sample_calls :: "interlock_call list" where
  "sample_calls =
     [Call_Poll 0, Call_Trigger 0, Call_Poll 600, Call_Trigger 600, Call_Poll 2600, Call_Trigger 2600]"

lemma sample_legal: "legal_run guard_legal guard_step guard_new sample_calls"
  by (simp add: sample_calls_def guard_new_def time_ok_def door_consts)

text \<open>
  C1: on every sequence of calls in which the clock does not run backwards and each trigger
  comes at the instant of the call before it, the interlock answers every call exactly as
  the abstract guard does, cooldown remainders included.
\<close>

theorem interlock_refines_guard:
  assumes "legal_run guard_legal guard_step guard_new es"
  shows "outputs interlock_step interlock_new es = outputs guard_step guard_new es"
  by (rule relay.sim_outputs [OF guard_rel_new assms])

theorem interlock_refines_guard_witness:
  "outputs interlock_step interlock_new sample_calls = outputs guard_step guard_new sample_calls \<and>
   outputs guard_step guard_new sample_calls =
     [Polled None, Triggered (Inr AssertHigh), Polled (Some DeassertLow),
      Triggered (Inl (Cooldown 2000)), Polled None, Triggered (Inr AssertHigh)]"
  using interlock_refines_guard [OF sample_legal]
  by (simp add: sample_calls_def guard_new_def door_consts)

text \<open>
  C9: on the sequences of calls of the property above, in which the clock does not run backwards and each trigger
  comes at the instant of the call before it (as the actuator's poll does), the pulses granted start at least a pulse plus
  a cooldown apart, and the actions the interlock asks for strictly alternate, an assertion first: a release is asked
  for once per pulse and never without one. Without such a poll the cooldown is not
  enforced (\<open>trigger_without_poll_skips_cooldown\<close>).
\<close>

theorem interlock_pulse_safety:
  assumes "legal_run guard_legal guard_step guard_new es"
  shows "spaced (unat RELAY_PULSE_MS + unat RELAY_COOLDOWN_MS)
           (pulse_starts es (outputs interlock_step interlock_new es)) \<and>
         distinct_adj (DeassertLow # concat (map relay_writes (outputs interlock_step interlock_new es)))"
  using interlock_grants_spaced [OF assms] interlock_actions_alternate [OF assms]
  by (simp add: PERIOD_def)

theorem interlock_pulse_safety_witness:
  "spaced 2600 (pulse_starts sample_calls (outputs interlock_step interlock_new sample_calls)) \<and>
   pulse_starts sample_calls (outputs interlock_step interlock_new sample_calls) = [0, 2600]"
  using interlock_pulse_safety [OF sample_legal]
  by (simp add: sample_calls_def interlock_new_def trigger_def poll_def is_pulsing_def door_consts)

text \<open>
  A cooldown answer is exact. If, after a legal run, a trigger at the instant of the last
  call is answered with a remaining time, that time is between 1 and the cooldown, every
  earlier retry is refused as well, and a retry after exactly that time is granted.
\<close>

lemma cooldown_remaining_exact:
  assumes "legal_run guard_legal guard_step guard_new (es @ [Call_Trigger t])"
    and "s = final interlock_step interlock_new es"
    and "snd (trigger s t) = Inl (Cooldown r)"
  shows "0 < unat r \<and> unat r \<le> unat RELAY_COOLDOWN_MS \<and>
    snd (trigger s (t + ucast r)) = Inr AssertHigh \<and>
    (\<forall>t'. t \<le> t' \<and> t' < t + ucast r \<longrightarrow> (\<exists>r'. snd (trigger s t') = Inl (Cooldown r')))"
proof -
  have legal: "legal_run guard_legal guard_step guard_new es"
    "guard_legal (final guard_step guard_new es) (Call_Trigger t)"
    using assms(1) by (simp_all add: legal_run_append)
  have "guard_rel s (final guard_step guard_new es)"
    unfolding assms(2) by (rule relay.sim_final [OF guard_rel_new legal(1)])
  from cooldown_answer [OF this legal(2) assms(3)]
  obtain e where "cooldown_end_ms s = Some e" "pulse_end_ms s = None" "e = t + ucast r"
    "0 < unat r" "unat r \<le> 2000"
    by blast
  then show ?thesis
    by (auto simp: trigger_def is_pulsing_def door_consts)
qed

lemma cooldown_remaining_exact_example:
  "snd (trigger (final interlock_step interlock_new [Call_Poll 0, Call_Trigger 0, Call_Poll 700])
     (700 + ucast (1900 :: u32))) = Inr AssertHigh"
proof -
  let ?es = "[Call_Poll 0, Call_Trigger 0, Call_Poll 700]"
  have "legal_run guard_legal guard_step guard_new (?es @ [Call_Trigger 700])"
    by (simp add: guard_new_def time_ok_def door_consts)
  moreover have "snd (trigger (final interlock_step interlock_new ?es) 700) = Inl (Cooldown 1900)"
    by (simp add: interlock_new_def trigger_def poll_def is_pulsing_def door_consts)
  ultimately show ?thesis
    using cooldown_remaining_exact [of ?es 700, OF _ refl, of 1900] by blast
qed

text \<open>
  The cooldown is armed by \<open>poll\<close> alone. A second trigger after the pulse time, with no
  poll in between, is granted however short the pause: the interlock by itself does not
  enforce the cooldown, only its use by the actuator task does.
\<close>

lemma trigger_without_poll_skips_cooldown:
  assumes "time_ok t" and "unat t + unat RELAY_PULSE_MS \<le> unat t'"
  shows "outputs interlock_step interlock_new [Call_Trigger t, Call_Trigger t'] =
    [Triggered (Inr AssertHigh), Triggered (Inr AssertHigh)]"
  using unpolled_trigger_accepted [OF assms]
  by (simp add: trigger_def interlock_new_def is_pulsing_def)

lemma trigger_without_poll_example:
  "outputs interlock_step interlock_new [Call_Trigger 0, Call_Trigger 600] =
    [Triggered (Inr AssertHigh), Triggered (Inr AssertHigh)]"
  by (rule trigger_without_poll_skips_cooldown) (simp_all add: time_ok_def door_consts)

text \<open>
  C21: the debouncer commits a state only if every sample since some instant at least the
  debounce time ago has shown that level; glitches never get through.
\<close>

theorem debounce_commit_sound:
  assumes "snd (debounce_step (final debounce_step (debouncer_new initial) es) (c, t)) = Some l"
  shows "l = reed_level c \<and>
    (\<exists>since. stable_since (es @ [(c, t)]) l since \<and> unat since + unat REED_DEBOUNCE_MS \<le> unat t)"
  using assms by (rule commit_needs_stability)

theorem debounce_commit_sound_witness:
  "\<exists>since. stable_since [(False, 0), (False, 50)] Open since \<and>
     unat since + unat REED_DEBOUNCE_MS \<le> unat (50 :: u64)"
proof -
  have "snd (debounce_step (final debounce_step (debouncer_new Closed) [(False, 0)]) (False, 50)) =
      Some Open"
    by (simp add: debouncer_new_def update_def reed_level_def saturating_sub_def door_consts)
  from debounce_commit_sound [OF this] show ?thesis by simp
qed

text \<open>
  C22: conversely, under a clock that does not run backwards, a level shown by every sample
  over at least the debounce time is committed, whatever the samples before it and however
  often the caller samples.
\<close>

theorem debounce_commit_complete:
  assumes "sorted (map (unat \<circ> snd) (es @ (c0, t0) # mid @ [(c, t)]))"
    and "\<forall>(c, t) \<in> set ((c0, t0) # mid @ [(c, t)]). reed_level c = l"
    and "unat t0 + unat REED_DEBOUNCE_MS \<le> unat t"
  shows "committed (final debounce_step (debouncer_new initial) (es @ (c0, t0) # mid @ [(c, t)])) = l"
  using assms by (rule stable_level_committed)

theorem debounce_commit_complete_witness:
  "committed (final debounce_step (debouncer_new Open)
     ([(False, 0), (True, 10), (False, 20)] @ (True, 30) # [(True, 60)] @ [(True, 80)])) = Closed"
  by (rule debounce_commit_complete) (simp_all add: reed_level_def door_consts)

end
