(* ===== verification/Actuator.thy ===== *)
theory Actuator
  imports Door
begin

text \<open>
  The actuator task of \<open>app/src/actuator.rs\<close>: one turn of its loop receives a command and,
  for a trigger, polls the interlock, asks it for a pulse, holds the relay for the pulse
  time and reconciles the interlock. The clock readings of a turn are part of its event, so
  the timing of the runtime is explicit: \<open>turn_now\<close> is the first \<open>now_ms()\<close>, \<open>turn_after\<close> the
  one after the pulse (the end of the turn when there is no pulse). \<open>Timer::after\<close> waits at
  least the duration it is given.
\<close>

record actuator =
  relay_high :: bool
  interlock :: relay_interlock

text \<open>\<open>relay.set_low()\<close> and \<open>RelayInterlock::new()\<close>, before the loop.\<close>

definition actuator_start :: actuator where
  "actuator_start = \<lparr>relay_high = False, interlock = interlock_new\<rparr>"

fun apply_relay :: "bool \<Rightarrow> relay_action \<Rightarrow> bool" where
  "apply_relay level AssertHigh = True"
| "apply_relay level DeassertLow = False"

record turn =
  turn_cmd :: door_command
  turn_now :: u64
  turn_after :: u64

datatype turn_result = Pulsed | Rejected trigger_rejection | Ignored

text \<open>A turn answers with the writes to the relay pin, in order, and its outcome.\<close>

definition actuator_turn ::
  "actuator \<Rightarrow> turn \<Rightarrow> actuator \<times> relay_action list \<times> turn_result" where
  "actuator_turn a e =
     (case turn_cmd e of
        Trigger \<Rightarrow>
          (let (i1, due) = poll (interlock a) (turn_now e);
               level1 = (case due of Some action \<Rightarrow> apply_relay (relay_high a) action
                         | None \<Rightarrow> relay_high a);
               writes1 = (case due of Some action \<Rightarrow> [action] | None \<Rightarrow> []);
               (i2, answer) = trigger i1 (turn_now e)
           in case answer of
                Inr action \<Rightarrow>
                  (let level2 = apply_relay level1 action;
                       level3 = apply_relay level2 DeassertLow;
                       (i3, _) = poll i2 (turn_after e)
                   in (\<lparr>relay_high = level3, interlock = i3\<rparr>,
                       writes1 @ [action, DeassertLow], Pulsed))
              | Inl reason \<Rightarrow>
                  (\<lparr>relay_high = level1, interlock = i2\<rparr>, writes1, Rejected reason))
      | QueryStatus \<Rightarrow> (a, [], Ignored))"

subsection \<open>What the task promises\<close>

text \<open>The specification keeps the start of the last pulse and the time the last turn ended.\<close>

record pulser =
  last_pulse :: "nat option"
  idle_since :: nat

definition pulser_start :: pulser where
  "pulser_start = \<lparr>last_pulse = None, idle_since = 0\<rparr>"

definition ready :: "pulser \<Rightarrow> turn \<Rightarrow> bool" where
  "ready p e \<longleftrightarrow> turn_cmd e = Trigger \<and>
     (\<forall>b \<in> set_option (last_pulse p). b + PERIOD \<le> unat (turn_now e))"

definition pulser_turn :: "pulser \<Rightarrow> turn \<Rightarrow> pulser \<times> relay_action list \<times> turn_result" where
  "pulser_turn p e =
     (if turn_cmd e = QueryStatus then (p\<lparr>idle_since := unat (turn_after e)\<rparr>, [], Ignored)
      else if ready p e
      then (\<lparr>last_pulse = Some (unat (turn_now e)), idle_since = unat (turn_after e)\<rparr>,
            [AssertHigh, DeassertLow], Pulsed)
      else (p\<lparr>idle_since := unat (turn_after e)\<rparr>, [],
            Rejected (Cooldown (of_nat (the (last_pulse p) + PERIOD - unat (turn_now e))))))"

text \<open>
  The runtime's part: turns do not overlap, a pulse turn lasts at least the pulse time, and
  the clock stays clear of the end of its range.
\<close>

definition turn_legal :: "pulser \<Rightarrow> turn \<Rightarrow> bool" where
  "turn_legal p e \<longleftrightarrow> idle_since p \<le> unat (turn_now e) \<and> unat (turn_now e) \<le> unat (turn_after e) \<and>
     time_ok (turn_after e) \<and>
     (ready p e \<longrightarrow> unat (turn_now e) + unat RELAY_PULSE_MS \<le> unat (turn_after e))"

definition pulser_rel :: "actuator \<Rightarrow> pulser \<Rightarrow> bool" where
  "pulser_rel a p \<longleftrightarrow> \<not> relay_high a \<and> pulse_end_ms (interlock a) = None \<and>
     map_option unat (cooldown_end_ms (interlock a)) = map_option (\<lambda>b. b + PERIOD) (last_pulse p) \<and>
     (\<forall>b \<in> set_option (last_pulse p). b + unat RELAY_PULSE_MS \<le> idle_since p \<and> b + PERIOD < 2 ^ 64)"

lemma pulser_rel_start [simp]: "pulser_rel actuator_start pulser_start"
  by (simp add: pulser_rel_def actuator_start_def pulser_start_def interlock_new_def)

lemma poll_idle: "pulse_end_ms i = None \<Longrightarrow> poll i t = (i, None)"
  by (simp add: poll_def)

lemma trigger_idle:
  assumes "pulse_end_ms i = None"
    and "map_option unat (cooldown_end_ms i) = map_option (\<lambda>b. b + PERIOD) prev"
  shows "trigger i t =
    (if \<forall>b \<in> set_option prev. b + PERIOD \<le> unat t
     then (i\<lparr>pulse_end_ms := Some (t + ucast RELAY_PULSE_MS), cooldown_end_ms := None\<rparr>, Inr AssertHigh)
     else (i, Inl (Cooldown (of_nat (the prev + PERIOD - unat t)))))"
  using assms
  by (cases prev) (auto simp: trigger_def is_pulsing_def word_nat simp del: of_nat_diff
      split: option.splits intro!: ucast_remaining)

lemma poll_ends_pulse:
  assumes "pulse_end_ms i = Some (t + ucast RELAY_PULSE_MS)" and "time_ok t"
    and "unat t + unat RELAY_PULSE_MS \<le> unat t'"
  shows "\<exists>c. poll i t' = (i\<lparr>pulse_end_ms := None, cooldown_end_ms := Some c\<rparr>, Some DeassertLow) \<and>
           unat c = unat t + PERIOD"
proof (intro exI conjI)
  have "t + 600 \<le> t'"
    using assms(2,3) by (simp add: word_le_nat_alt unat_pulse_end RELAY_PULSE_MS_def)
  then show "poll i t' = (i\<lparr>pulse_end_ms := None, cooldown_end_ms := Some (t + 2600)\<rparr>, Some DeassertLow)"
    using assms(1) by (simp add: poll_def RELAY_PULSE_MS_def RELAY_COOLDOWN_MS_def)
  show "unat (t + 2600) = unat t + PERIOD"
    using assms(2) by (simp add: unat_pulse_end door_consts)
qed

lemma pulser_turn_sim:
  assumes rel: "pulser_rel a p" and ok: "turn_legal p e"
  shows "pulser_rel (fst (actuator_turn a e)) (fst (pulser_turn p e)) \<and>
    snd (actuator_turn a e) = snd (pulser_turn p e)"
proof (cases "turn_cmd e")
  case QueryStatus
  with rel ok show ?thesis
    by (auto simp: actuator_turn_def pulser_turn_def pulser_rel_def turn_legal_def)
next
  case Trigger
  let ?t = "turn_now e"
  from rel have idle: "pulse_end_ms (interlock a) = None" "\<not> relay_high a"
    "map_option unat (cooldown_end_ms (interlock a)) = map_option (\<lambda>b. b + PERIOD) (last_pulse p)"
    by (simp_all add: pulser_rel_def)
  show ?thesis
  proof (cases "ready p e")
    case True
    let ?i = "(interlock a)\<lparr>pulse_end_ms := Some (?t + ucast RELAY_PULSE_MS), cooldown_end_ms := None\<rparr>"
    have now: "time_ok ?t" "unat ?t + unat RELAY_PULSE_MS \<le> unat (turn_after e)"
      using ok True by (auto simp: turn_legal_def time_ok_def)
    obtain c where "poll ?i (turn_after e) =
        (?i\<lparr>pulse_end_ms := None, cooldown_end_ms := Some c\<rparr>, Some DeassertLow)"
      and "unat c = unat ?t + PERIOD"
      using poll_ends_pulse [of ?i, OF _ now] by auto
    with idle Trigger True now show ?thesis
      by (simp add: actuator_turn_def pulser_turn_def poll_idle trigger_idle pulser_rel_def
          ready_def time_ok_def)
  next
    case False
    with idle Trigger rel ok show ?thesis
      by (auto simp: actuator_turn_def pulser_turn_def poll_idle trigger_idle pulser_rel_def
          ready_def turn_legal_def)
  qed
qed

interpretation pulse_task: simulation actuator_turn pulser_turn turn_legal pulser_rel
  by unfold_locales (rule pulser_turn_sim)

subsection \<open>Pulses of the task\<close>

definition pulse_times :: "turn list \<Rightarrow> (relay_action list \<times> turn_result) list \<Rightarrow> nat list" where
  "pulse_times es outs =
     map (\<lambda>(e, out). unat (turn_now e)) (filter (\<lambda>(e, out). snd out = Pulsed) (zip es outs))"

lemma pulse_times_simps [simp]:
  "pulse_times [] outs = []"
  "pulse_times (e # es) (out # outs) =
     (if snd out = Pulsed then [unat (turn_now e)] else []) @ pulse_times es outs"
  by (simp_all add: pulse_times_def split_beta)

lemma pulser_spaced:
  "(\<forall>b \<in> set_option (last_pulse p).
       \<forall>t \<in> set (pulse_times es (outputs pulser_turn p es)). b + PERIOD \<le> t) \<and>
   spaced PERIOD (pulse_times es (outputs pulser_turn p es))"
proof (induction es arbitrary: p)
  case Nil
  then show ?case by (simp add: spaced_def)
next
  case (Cons e es)
  let ?p = "fst (pulser_turn p e)"
  show ?case
  proof (cases "snd (snd (pulser_turn p e)) = Pulsed")
    case True
    then have "last_pulse ?p = Some (unat (turn_now e))"
      and "\<forall>b \<in> set_option (last_pulse p). b + PERIOD \<le> unat (turn_now e)"
      by (auto simp: pulser_turn_def ready_def split: if_splits)
    with Cons [of ?p] True show ?thesis by (fastforce simp: spaced_def)
  next
    case False
    then have "last_pulse ?p = last_pulse p"
      by (auto simp: pulser_turn_def)
    with Cons [of ?p] False show ?thesis by simp
  qed
qed

subsection \<open>Properties\<close>

text \<open>
  C2: the actuator task grants a trigger exactly when a pulse plus a cooldown has passed
  since its last pulse began; then it writes high and low to the pin, in that order, and
  otherwise it touches the pin not at all and reports the time that remains. It never
  answers that a pulse is active.
\<close>

theorem actuator_refines_pulser:
  assumes "legal_run turn_legal pulser_turn pulser_start es"
  shows "outputs actuator_turn actuator_start es = outputs pulser_turn pulser_start es"
  by (rule pulse_task.sim_outputs [OF pulser_rel_start assms])

definition sample_turns :: "turn list" where
  "sample_turns =
     [\<lparr>turn_cmd = Trigger, turn_now = 0, turn_after = 600\<rparr>,
      \<lparr>turn_cmd = QueryStatus, turn_now = 700, turn_after = 700\<rparr>,
      \<lparr>turn_cmd = Trigger, turn_now = 1000, turn_after = 1000\<rparr>,
      \<lparr>turn_cmd = Trigger, turn_now = 2600, turn_after = 3201\<rparr>]"

lemma sample_turns_legal: "legal_run turn_legal pulser_turn pulser_start sample_turns"
  by (simp add: sample_turns_def turn_legal_def pulser_turn_def pulser_start_def ready_def
      time_ok_def door_consts)

theorem actuator_refines_pulser_witness:
  "outputs actuator_turn actuator_start sample_turns =
     [([AssertHigh, DeassertLow], Pulsed), ([], Ignored), ([], Rejected (Cooldown 1600)),
      ([AssertHigh, DeassertLow], Pulsed)]"
  using actuator_refines_pulser [OF sample_turns_legal]
  by (simp add: sample_turns_def pulser_turn_def pulser_start_def ready_def door_consts)

text \<open>
  C10: whatever commands arrive, the relay is deasserted at the end of every turn of the task
  and the pulses start at least a pulse plus a cooldown apart.
\<close>

theorem actuator_safety:
  assumes "legal_run turn_legal pulser_turn pulser_start es"
  shows "\<not> relay_high (final actuator_turn actuator_start es) \<and>
    spaced (unat RELAY_PULSE_MS + unat RELAY_COOLDOWN_MS)
      (pulse_times es (outputs actuator_turn actuator_start es))"
  using pulse_task.sim_run [OF pulser_rel_start assms] pulser_spaced [of pulser_start es]
  by (simp add: pulser_rel_def PERIOD_def)

theorem actuator_safety_witness:
  "\<not> relay_high (final actuator_turn actuator_start sample_turns) \<and>
    spaced 2600 (pulse_times sample_turns (outputs actuator_turn actuator_start sample_turns))"
  using actuator_safety [OF sample_turns_legal] by (simp add: door_consts)

end
