(* ===== verification/Sensor.thy ===== *)
theory Sensor
  imports Door
begin

text \<open>
  The reed task of \<open>app/src/sensor.rs\<close>: it samples GPIO 21, feeds the debouncer, signals
  committed changes and chooses how to wait for the next sample. A turn's event is the level
  read and the clock reading; its answer is the state it signals, if any, and the wait it
  enters (with its bound in milliseconds).
\<close>

datatype wait =
  Wait_Timer u64          \<comment> \<open>\<open>Timer::after\<close>\<close>
| Wait_Low u64            \<comment> \<open>\<open>with_timeout(.., reed.wait_for_low())\<close>\<close>
| Wait_High u64           \<comment> \<open>\<open>with_timeout(.., reed.wait_for_high())\<close>\<close>

text \<open>Start-up: the debouncer starts from the first level, which is signalled.\<close>

definition sensor_start :: "bool \<Rightarrow> reed_debouncer \<times> door_state" where
  "sensor_start reed_is_high =
     (let initial = (if reed_is_high then Closed else Open) in (debouncer_new initial, initial))"

definition sensor_turn ::
  "reed_debouncer \<Rightarrow> bool \<times> u64 \<Rightarrow> reed_debouncer \<times> door_state option \<times> wait" where
  "sensor_turn d e =
     (let (closed, now) = e;
          (d', change) = update d closed now;
          debounce = ucast REED_DEBOUNCE_MS
      in (d', change,
          if is_pending d' then Wait_Timer debounce
          else if closed then Wait_Low debounce else Wait_High debounce))"

lemma sensor_turn_simps [simp]:
  "fst (sensor_turn d e) = fst (debounce_step d e)"
  "fst (snd (sensor_turn d e)) = snd (debounce_step d e)"
  by (cases e, simp add: sensor_turn_def Let_def split: prod.split)+

lemma sensor_final: "final sensor_turn d es = final debounce_step d es"
  by (induction es arbitrary: d) simp_all

lemma sensor_changes: "map fst (outputs sensor_turn d es) = outputs debounce_step d es"
  by (induction es arbitrary: d) simp_all

text \<open>The last state signalled, over a run that starts with \<open>signalled\<close>.\<close>

definition last_signal :: "door_state \<Rightarrow> (door_state option \<times> wait) list \<Rightarrow> door_state" where
  "last_signal signalled outs = fold (\<lambda>(change, _) s. case change of Some l \<Rightarrow> l | None \<Rightarrow> s) outs signalled"

lemma last_signal_committed:
  "last_signal (committed d) (outputs sensor_turn d es) = committed (final sensor_turn d es)"
proof (induction es arbitrary: d)
  case Nil
  show ?case by (simp add: last_signal_def)
next
  case (Cons e es)
  have "(case snd (debounce_step d e) of Some l \<Rightarrow> l | None \<Rightarrow> committed d) =
      committed (fst (debounce_step d e))"
    by (simp add: debounce_emits)
  with Cons.IH [of "fst (debounce_step d e)"] show ?case
    by (simp add: last_signal_def split_beta)
qed

lemma sensor_wait:
  assumes "debounce_inv d es"
  shows "snd (snd (sensor_turn d (closed, now))) =
    (if reed_level closed = committed (fst (debounce_step d (closed, now)))
     then if closed then Wait_Low 50 else Wait_High 50 else Wait_Timer 50)"
  using assms debounce_inv_step [OF assms, of "(closed, now)"]
  by (auto simp: sensor_turn_def Let_def is_pending_def debounce_inv_def door_consts
      dest: stable_since_last split: option.splits prod.splits)

subsection \<open>Properties\<close>

text \<open>
  C27: over any run of the reed task, the last state it has signalled is the committed state,
  consecutive signals differ, and after every sample it waits at most the debounce time: for
  the opposite level when the sample agrees with the committed state, on a timer while a
  candidate is pending.
\<close>

theorem sensor_signals_committed:
  "let (d0, first) = sensor_start level; (d, outs) = run sensor_turn d0 es in
     last_signal first outs = committed d \<and>
     distinct_adj (first # concat (map (case_option [] (\<lambda>l. [l])) (map fst outs))) \<and>
     snd (snd (sensor_turn d (closed, now))) =
       (if reed_level closed = committed (fst (sensor_turn d (closed, now)))
        then if closed then Wait_Low 50 else Wait_High 50 else Wait_Timer 50)"
proof -
  let ?d0 = "fst (sensor_start level)"
  have start: "snd (sensor_start level) = committed ?d0" "?d0 = debouncer_new (committed ?d0)"
    by (simp_all add: sensor_start_def Let_def debouncer_new_def)
  have inv: "debounce_inv (final sensor_turn ?d0 es) es"
    unfolding sensor_final by (subst start(2)) (rule reed.inv_final, simp)
  show ?thesis
    using last_signal_committed [of ?d0 es] sensor_wait [OF inv]
      emissions_alternate [of ?d0 es, folded sensor_changes]
    by (simp add: split_beta start(1))
qed

end
