(* ===== verification/Flash_Layout.thy ===== *)
theory Flash_Layout
  imports Machines
begin

text \<open>
  The flash map of \<open>core/src/flash.rs\<close>: constants, partitions and the address arithmetic,
  on \<open>u32\<close> words as in the code (no sum of the layout wraps, which the proofs establish).
\<close>

subsection \<open>Constants\<close>

definition FLASH_BASE :: u32 where "FLASH_BASE = 0x10000000"
definition FLASH_BYTES :: u32 where "FLASH_BYTES = 2 * 1024 * 1024"
definition FLASH_END :: u32 where "FLASH_END = FLASH_BASE + FLASH_BYTES"
definition PAGE_BYTES :: u32 where "PAGE_BYTES = 4096"
definition WRITE_BYTES :: u32 where "WRITE_BYTES = 1"
definition BOOTLOADER_BASE :: u32 where "BOOTLOADER_BASE = 0x10000000"
definition BOOTLOADER_BYTES :: u32 where "BOOTLOADER_BYTES = 24 * 1024"
definition ACTIVE_BASE :: u32 where "ACTIVE_BASE = 0x10006000"
definition ACTIVE_BYTES :: u32 where "ACTIVE_BYTES = 780 * 1024"
definition DFU_BASE :: u32 where "DFU_BASE = 0x100C9000"
definition DFU_BYTES :: u32 where "DFU_BYTES = 784 * 1024"
definition STATE_BASE :: u32 where "STATE_BASE = 0x1018D000"
definition STATE_BYTES :: u32 where "STATE_BYTES = 4 * 1024"
definition SPARE_BASE :: u32 where "SPARE_BASE = 0x1018E000"
definition SPARE_BYTES :: u32 where "SPARE_BYTES = FLASH_END - SPARE_BASE"
definition BOOT2_BYTES :: u32 where "BOOT2_BYTES = 256"

lemmas flash_consts =
  FLASH_BASE_def FLASH_BYTES_def FLASH_END_def PAGE_BYTES_def WRITE_BYTES_def
  BOOTLOADER_BASE_def BOOTLOADER_BYTES_def ACTIVE_BASE_def ACTIVE_BYTES_def DFU_BASE_def
  DFU_BYTES_def STATE_BASE_def STATE_BYTES_def SPARE_BASE_def SPARE_BYTES_def BOOT2_BYTES_def

definition is_multiple_of :: "u32 \<Rightarrow> u32 \<Rightarrow> bool" where
  "is_multiple_of a b \<longleftrightarrow> (if b = 0 then a = 0 else a mod b = 0)"

text \<open>The compile-time assertions of the layout, in the order of the source.\<close>

definition layout_asserts :: "bool list" where
  "layout_asserts =
     [is_multiple_of BOOTLOADER_BASE PAGE_BYTES, is_multiple_of ACTIVE_BASE PAGE_BYTES,
      is_multiple_of DFU_BASE PAGE_BYTES, is_multiple_of STATE_BASE PAGE_BYTES,
      is_multiple_of SPARE_BASE PAGE_BYTES,
      is_multiple_of ACTIVE_BYTES PAGE_BYTES, is_multiple_of DFU_BYTES PAGE_BYTES,
      is_multiple_of STATE_BYTES PAGE_BYTES, is_multiple_of SPARE_BYTES PAGE_BYTES,
      BOOTLOADER_BASE + BOOTLOADER_BYTES = ACTIVE_BASE,
      DFU_BASE = ACTIVE_BASE + ACTIVE_BYTES,
      DFU_BYTES = ACTIVE_BYTES + PAGE_BYTES,
      STATE_BASE = DFU_BASE + DFU_BYTES,
      SPARE_BASE = STATE_BASE + STATE_BYTES,
      SPARE_BASE + SPARE_BYTES = FLASH_END,
      2 + 4 * (ACTIVE_BYTES div PAGE_BYTES) \<le> STATE_BYTES div WRITE_BYTES]"

subsection \<open>Partitions\<close>

datatype partition = Bootloader | Active | Dfu | State | Spare

fun base_address :: "partition \<Rightarrow> u32" where
  "base_address Bootloader = BOOTLOADER_BASE"
| "base_address Active = ACTIVE_BASE"
| "base_address Dfu = DFU_BASE"
| "base_address State = STATE_BASE"
| "base_address Spare = SPARE_BASE"

definition offset :: "partition \<Rightarrow> u32" where
  "offset p = base_address p - FLASH_BASE"

fun len_bytes :: "partition \<Rightarrow> u32" where
  "len_bytes Bootloader = BOOTLOADER_BYTES"
| "len_bytes Active = ACTIVE_BYTES"
| "len_bytes Dfu = DFU_BYTES"
| "len_bytes State = STATE_BYTES"
| "len_bytes Spare = SPARE_BYTES"

definition end_address :: "partition \<Rightarrow> u32" where
  "end_address p = base_address p + len_bytes p"

definition end_offset :: "partition \<Rightarrow> u32" where
  "end_offset p = offset p + len_bytes p"

definition page_count :: "partition \<Rightarrow> u32" where
  "page_count p = len_bytes p div PAGE_BYTES"

definition contains_address :: "partition \<Rightarrow> u32 \<Rightarrow> bool" where
  "contains_address p addr \<longleftrightarrow> base_address p \<le> addr \<and> addr < end_address p"

definition contains_offset :: "partition \<Rightarrow> u32 \<Rightarrow> bool" where
  "contains_offset p off \<longleftrightarrow> offset p \<le> off \<and> off < end_offset p"

definition flash_offset_to_address :: "u32 \<Rightarrow> u32 option" where
  "flash_offset_to_address off = (if off < FLASH_BYTES then Some (FLASH_BASE + off) else None)"

definition address_to_flash_offset :: "u32 \<Rightarrow> u32 option" where
  "address_to_flash_offset addr =
     (if FLASH_BASE \<le> addr \<and> addr < FLASH_END then Some (addr - FLASH_BASE) else None)"

definition is_page_aligned :: "u32 \<Rightarrow> bool" where
  "is_page_aligned a = is_multiple_of a PAGE_BYTES"

definition partition_for_address :: "u32 \<Rightarrow> partition option" where
  "partition_for_address addr =
     (if contains_address Bootloader addr then Some Bootloader
      else if contains_address Active addr then Some Active
      else if contains_address Dfu addr then Some Dfu
      else if contains_address State addr then Some State
      else if contains_address Spare addr then Some Spare
      else None)"

definition partition_for_offset :: "u32 \<Rightarrow> partition option" where
  "partition_for_offset off =
     (if contains_offset Bootloader off then Some Bootloader
      else if contains_offset Active off then Some Active
      else if contains_offset Dfu off then Some Dfu
      else if contains_offset State off then Some State
      else if contains_offset Spare off then Some Spare
      else None)"

definition active_page_count :: u32 where "active_page_count = ACTIVE_BYTES div PAGE_BYTES"
definition dfu_page_count :: u32 where "dfu_page_count = DFU_BYTES div PAGE_BYTES"

definition required_state_write_units :: "u32 \<Rightarrow> u32" where
  "required_state_write_units active_bytes = 2 + 4 * (active_bytes div PAGE_BYTES)"

definition state_write_units :: u32 where "state_write_units = STATE_BYTES div WRITE_BYTES"
definition max_app_binary_bytes :: u32 where "max_app_binary_bytes = ACTIVE_BYTES"

definition max_bootloader_binary_bytes :: u32 where
  "max_bootloader_binary_bytes = BOOTLOADER_BYTES - BOOT2_BYTES"

definition can_fit_in_active :: "u32 \<Rightarrow> bool" where
  "can_fit_in_active binary_size \<longleftrightarrow> binary_size \<le> ACTIVE_BYTES"

definition can_fit_in_dfu :: "u32 \<Rightarrow> bool" where
  "can_fit_in_dfu binary_size \<longleftrightarrow> binary_size \<le> DFU_BYTES"

definition can_fit_in_bootloader :: "u32 \<Rightarrow> bool" where
  "can_fit_in_bootloader binary_size \<longleftrightarrow> binary_size \<le> max_bootloader_binary_bytes"

subsection \<open>The layout as ranges of natural numbers\<close>

text \<open>The flash range that a partition occupies, as flash-relative natural numbers.\<close>

fun part_range :: "partition \<Rightarrow> nat \<times> nat" where
  "part_range Bootloader = (0, 0x6000)"
| "part_range Active = (0x6000, 0xC9000)"
| "part_range Dfu = (0xC9000, 0x18D000)"
| "part_range State = (0x18D000, 0x18E000)"
| "part_range Spare = (0x18E000, 0x200000)"

definition in_range :: "partition \<Rightarrow> nat \<Rightarrow> bool" where
  "in_range p n \<longleftrightarrow> fst (part_range p) \<le> n \<and> n < snd (part_range p)"

lemma in_range_unique: "in_range p n \<Longrightarrow> in_range q n \<Longrightarrow> p = q"
  by (cases p; cases q) (simp_all add: in_range_def)

lemma in_range_cover: "(\<exists>p. in_range p n) \<longleftrightarrow> n < unat FLASH_BYTES"
proof
  show "\<exists>p. in_range p n \<Longrightarrow> n < unat FLASH_BYTES"
  proof (elim exE)
    fix p show "in_range p n \<Longrightarrow> n < unat FLASH_BYTES"
      by (cases p) (simp_all add: in_range_def flash_consts)
  qed
  assume "n < unat FLASH_BYTES"
  then have "n < 0x6000 \<or> 0x6000 \<le> n \<and> n < 0xC9000 \<or> 0xC9000 \<le> n \<and> n < 0x18D000 \<or>
      0x18D000 \<le> n \<and> n < 0x18E000 \<or> 0x18E000 \<le> n \<and> n < 0x200000"
    by (auto simp: flash_consts)
  then show "\<exists>p. in_range p n"
    unfolding in_range_def
    by (elim disjE) (rule exI [of _ Bootloader] exI [of _ Active] exI [of _ Dfu]
        exI [of _ State] exI [of _ Spare], simp)+
qed

lemma contains_offset_iff: "contains_offset p off \<longleftrightarrow> in_range p (unat off)"
  by (cases p) (simp_all add: contains_offset_def end_offset_def offset_def in_range_def
      flash_consts word_nat)

lemma contains_address_iff:
  "contains_address p addr \<longleftrightarrow> unat FLASH_BASE \<le> unat addr \<and> in_range p (unat addr - unat FLASH_BASE)"
  by (cases p) (auto simp: contains_address_def end_address_def in_range_def flash_consts word_nat)

lemma partition_for_offset_iff: "partition_for_offset off = Some p \<longleftrightarrow> in_range p (unat off)"
proof -
  have "partition_for_offset off = Some p \<Longrightarrow> in_range p (unat off)" for p
    by (auto simp: partition_for_offset_def contains_offset_iff split: if_splits)
  moreover have "partition_for_offset off = None \<Longrightarrow> \<not> in_range q (unat off)" for q
    by (cases q) (auto simp: partition_for_offset_def contains_offset_iff split: if_splits)
  ultimately show ?thesis by (cases "partition_for_offset off") (auto dest: in_range_unique)
qed

lemma partition_for_address_iff: "partition_for_address addr = Some p \<longleftrightarrow> contains_address p addr"
proof -
  have "contains_address p addr \<Longrightarrow> contains_address q addr \<Longrightarrow> p = q" for p q
    by (auto simp: contains_address_iff dest: in_range_unique)
  moreover have "partition_for_address addr = Some p \<Longrightarrow> contains_address p addr" for p
    by (auto simp: partition_for_address_def split: if_splits)
  moreover have "partition_for_address addr = None \<Longrightarrow> \<not> contains_address q addr" for q
    by (cases q) (auto simp: partition_for_address_def split: if_splits)
  ultimately show ?thesis by (cases "partition_for_address addr") auto
qed

lemma offset_address_roundtrip:
  "flash_offset_to_address off = Some addr \<longleftrightarrow> address_to_flash_offset addr = Some off"
  by (auto simp: flash_offset_to_address_def address_to_flash_offset_def flash_consts word_nat)

lemma partition_lookup_agree:
  assumes "flash_offset_to_address off = Some addr"
  shows "partition_for_offset off = partition_for_address addr"
proof -
  have "unat addr = unat FLASH_BASE + unat off"
    using assms by (auto simp: flash_offset_to_address_def flash_consts word_nat split: if_splits)
  then have "partition_for_offset off = Some p \<longleftrightarrow> partition_for_address addr = Some p" for p
    by (simp add: partition_for_offset_iff partition_for_address_iff contains_address_iff)
  then show ?thesis by (metis option.exhaust)
qed

lemma partition_for_address_None:
  "partition_for_address addr = None \<longleftrightarrow> address_to_flash_offset addr = None"
proof -
  have "partition_for_address addr \<noteq> None \<longleftrightarrow>
      unat FLASH_BASE \<le> unat addr \<and> unat addr - unat FLASH_BASE < unat FLASH_BYTES"
    by (auto simp: partition_for_address_iff contains_address_iff simp flip: in_range_cover)
  then show ?thesis
    by (auto simp: address_to_flash_offset_def flash_consts word_nat)
qed

subsection \<open>The order of the partitions\<close>

text \<open>Partitions are ordered by where they start; the lookup is monotone for that order.\<close>

instantiation partition :: linorder
begin

definition less_eq_partition :: "partition \<Rightarrow> partition \<Rightarrow> bool" where
  "less_eq_partition p q \<longleftrightarrow> base_address p \<le> base_address q"

definition less_partition :: "partition \<Rightarrow> partition \<Rightarrow> bool" where
  "less_partition p q \<longleftrightarrow> base_address p < base_address q"

instance
proof
  fix p q r :: partition
  show "p < q \<longleftrightarrow> p \<le> q \<and> \<not> q \<le> p"
    by (auto simp: less_eq_partition_def less_partition_def)
  show "p \<le> p"
    by (simp add: less_eq_partition_def)
  show "p \<le> q \<Longrightarrow> q \<le> r \<Longrightarrow> p \<le> r"
    by (simp add: less_eq_partition_def)
  show "p \<le> q \<Longrightarrow> q \<le> p \<Longrightarrow> p = q"
    by (cases p; cases q) (simp_all add: less_eq_partition_def flash_consts)
  show "p \<le> q \<or> q \<le> p"
    by (auto simp: less_eq_partition_def)
qed

end

lemma partitions_sorted: "sorted_wrt (<) [Bootloader, Active, Dfu, State, Spare]"
  by (simp add: less_partition_def flash_consts)

lemma ordered_apart: "p < q \<Longrightarrow> end_address p \<le> base_address q"
  by (cases p; cases q) (simp_all add: less_partition_def end_address_def flash_consts)

lemma lookup_mono:
  assumes "partition_for_address a = Some p" and "partition_for_address b = Some q" and "a \<le> b"
  shows "p \<le> q"
proof (rule ccontr)
  assume "\<not> p \<le> q"
  then have "end_address q \<le> base_address p" by (intro ordered_apart) simp
  with assms show False by (auto simp: partition_for_address_iff contains_address_def)
qed

subsection \<open>Properties\<close>

text \<open>
  Every address belongs to exactly the partition that the lookup returns, and to none
  exactly when it lies outside the flash window: the partitions are disjoint and cover the
  flash without a gap. The compile-time assertions of the layout all hold.
\<close>

lemma partitions_tile_flash:
  "(partition_for_address addr = Some p \<longleftrightarrow> contains_address p addr) \<and>
   (partition_for_address addr = None \<longleftrightarrow> \<not> (FLASH_BASE \<le> addr \<and> addr < FLASH_END)) \<and>
   list_all id layout_asserts"
  by (simp add: partition_for_address_iff partition_for_address_None address_to_flash_offset_def)
    (simp add: layout_asserts_def is_multiple_of_def flash_consts)

text \<open>
  Offset and address conversion are inverse to each other on the whole flash and fail
  together outside it, and looking a partition up by offset or by address agrees.
\<close>

lemma offset_address_inverse:
  "(flash_offset_to_address off = Some addr \<longleftrightarrow> address_to_flash_offset addr = Some off) \<and>
   partition_for_offset off = Option.bind (flash_offset_to_address off) partition_for_address"
proof (intro conjI)
  show "flash_offset_to_address off = Some addr \<longleftrightarrow> address_to_flash_offset addr = Some off"
    by (rule offset_address_roundtrip)
  show "partition_for_offset off = Option.bind (flash_offset_to_address off) partition_for_address"
  proof (cases "flash_offset_to_address off")
    case None
    then have "\<not> (\<exists>p. in_range p (unat off))"
      unfolding in_range_cover
      by (simp add: flash_offset_to_address_def word_less_nat_alt split: if_splits)
    then have "partition_for_offset off = None"
      by (metis not_Some_eq partition_for_offset_iff)
    with None show ?thesis by simp
  next
    case (Some addr)
    with partition_lookup_agree [OF Some] show ?thesis by simp
  qed
qed

end
