(* ===== verification/Update_Machine.thy ===== *)
theory Update_Machine
  imports Flash_Layout
begin

text \<open>
  The update lifecycle of \<open>core/src/flash.rs\<close>: staging, marking, swapping, confirming and
  rolling back, as the methods of \<open>UpdateStateMachine\<close>. The two \<open>expect\<close> calls of \<open>on_reset\<close>
  are the answer \<open>Panicked\<close>, which the invariant excludes.
\<close>

datatype update_state = US_Boot | SwapPending | SwapTesting | Revert | DfuDetach

datatype boot_action = BootActive | SwappedAndBoot | RolledBackAndBoot | EnterUsbBoot

record update_machine =
  update_state :: update_state
  active_version :: u32
  staged_version :: "u32 option"
  previous_version :: "u32 option"

definition machine_new :: "u32 \<Rightarrow> update_machine" where
  "machine_new initial_version =
     \<lparr>update_state = US_Boot, active_version = initial_version,
      staged_version = None, previous_version = None\<rparr>"

definition stage_firmware ::
  "update_machine \<Rightarrow> u32 \<Rightarrow> u32 \<Rightarrow> update_machine \<times> (string + unit)" where
  "stage_firmware m version size_bytes =
     (if \<not> can_fit_in_active size_bytes
      then (m, Inl ''firmware binary exceeds active partition capacity'')
      else (m\<lparr>staged_version := Some version\<rparr>, Inr ()))"

definition mark_updated :: "update_machine \<Rightarrow> update_machine \<times> (string + unit)" where
  "mark_updated m =
     (if staged_version m = None
      then (m, Inl ''cannot mark updated without staged firmware'')
      else if update_state m = SwapTesting
      then (m, Inl ''cannot mark updated while unconfirmed swap is pending verification'')
      else (m\<lparr>update_state := SwapPending\<rparr>, Inr ()))"

definition mark_booted :: "update_machine \<Rightarrow> update_machine \<times> (string + unit)" where
  "mark_booted m =
     (case update_state m of
        SwapPending \<Rightarrow> (m, Inl ''cannot mark booted while update is pending reboot swap'')
      | DfuDetach \<Rightarrow> (m, Inl ''cannot mark booted in DFU detach state'')
      | _ \<Rightarrow> (m\<lparr>update_state := US_Boot, previous_version := None, staged_version := None\<rparr>, Inr ()))"

definition mark_dfu :: "update_machine \<Rightarrow> update_machine" where
  "mark_dfu m = m\<lparr>update_state := DfuDetach\<rparr>"

text \<open>\<open>None\<close> is the panic of an \<open>expect\<close>.\<close>

definition on_reset :: "update_machine \<Rightarrow> (update_machine \<times> boot_action) option" where
  "on_reset m =
     (case update_state m of
        US_Boot \<Rightarrow> Some (m, BootActive)
      | SwapPending \<Rightarrow>
          (case staged_version m of
             None \<Rightarrow> None
           | Some new_active \<Rightarrow>
               Some (m\<lparr>staged_version := None, previous_version := Some (active_version m),
                       active_version := new_active, update_state := SwapTesting\<rparr>,
                     SwappedAndBoot))
      | SwapTesting \<Rightarrow>
          (case previous_version m of
             None \<Rightarrow> None
           | Some rollback_ver \<Rightarrow>
               Some (m\<lparr>previous_version := None, staged_version := Some (active_version m),
                       active_version := rollback_ver, update_state := Revert\<rparr>,
                     RolledBackAndBoot))
      | Revert \<Rightarrow> Some (m, BootActive)
      | DfuDetach \<Rightarrow> Some (m, EnterUsbBoot))"

subsection \<open>Runs\<close>

datatype update_call = Stage u32 u32 | Mark_Updated | Mark_Booted | Mark_Dfu | Reset

datatype update_answer = Returned "string + unit" | Booted boot_action | Panicked

fun update_step :: "update_machine \<Rightarrow> update_call \<Rightarrow> update_machine \<times> update_answer" where
  "update_step m (Stage v n) = map_prod id Returned (stage_firmware m v n)"
| "update_step m Mark_Updated = map_prod id Returned (mark_updated m)"
| "update_step m Mark_Booted = map_prod id Returned (mark_booted m)"
| "update_step m Mark_Dfu = (mark_dfu m, Returned (Inr ()))"
| "update_step m Reset =
     (case on_reset m of None \<Rightarrow> (m, Panicked) | Some (m', a) \<Rightarrow> (m', Booted a))"

lemmas update_ops =
  stage_firmware_def mark_updated_def mark_booted_def mark_dfu_def on_reset_def

definition machine_ok :: "update_machine \<Rightarrow> bool" where
  "machine_ok m \<longleftrightarrow>
     (update_state m = SwapPending \<longrightarrow> staged_version m \<noteq> None) \<and>
     (update_state m = SwapTesting \<longrightarrow> previous_version m \<noteq> None)"

lemma machine_ok_step: "machine_ok m \<Longrightarrow> machine_ok (fst (update_step m e))"
  by (cases e) (auto simp: machine_ok_def update_ops split: update_state.splits option.splits)

lemma machine_ok_answer: "machine_ok m \<Longrightarrow> snd (update_step m e) \<noteq> Panicked"
  by (cases e) (auto simp: machine_ok_def update_ops split: update_state.splits option.splits)

interpretation lifecycle: history_machine update_step "machine_new v" "\<lambda>_. True" "\<lambda>m _. machine_ok m"
  for v
  by unfold_locales (simp_all add: machine_ok_step, simp add: machine_ok_def machine_new_def)

lemma lifecycle_no_panic: "Panicked \<notin> set (outputs update_step (machine_new v) es)"
proof
  assume "Panicked \<in> set (outputs update_step (machine_new v) es)"
  moreover have "machine_ok m \<Longrightarrow> Panicked \<notin> set (outputs update_step m es)" for m
    by (induction es arbitrary: m)
      (use machine_ok_answer machine_ok_step in \<open>auto simp: eq_commute [of Panicked]\<close>)
  moreover have "machine_ok (machine_new v)"
    using lifecycle.inv_start [of v] .
  ultimately show False by blast
qed

subsection \<open>The confirmed version\<close>

text \<open>
  The specification tracks the version that was last confirmed: the initial one, and then
  whatever runs when \<open>mark_booted\<close> succeeds.
\<close>

fun confirm_step ::
  "update_machine \<times> u32 \<Rightarrow> update_call \<Rightarrow> (update_machine \<times> u32) \<times> update_answer" where
  "confirm_step (m, c) e =
     (let (m', out) = update_step m e in
      ((m', if e = Mark_Booted \<and> out = Returned (Inr ()) then active_version m else c), out))"

definition confirm_inv :: "update_machine \<times> u32 \<Rightarrow> bool" where
  "confirm_inv = (\<lambda>(m, c). update_state m \<noteq> DfuDetach \<and> machine_ok m \<and>
     (if update_state m = SwapTesting then previous_version m = Some c else active_version m = c))"

lemma confirm_inv_step:
  "confirm_inv mc \<Longrightarrow> e \<noteq> Mark_Dfu \<Longrightarrow> confirm_inv (fst (confirm_step mc e))"
  by (cases mc; cases e)
    (auto simp: confirm_inv_def machine_ok_def update_ops split: update_state.splits option.splits)

interpretation confirm: history_machine confirm_step "(machine_new v, v)"
  "\<lambda>es. Mark_Dfu \<notin> set es" "\<lambda>mc _. confirm_inv mc"
  for v
proof unfold_locales
  show "confirm_inv (machine_new v, v)"
    by (simp add: confirm_inv_def machine_ok_def machine_new_def)
qed (auto intro: confirm_inv_step simp del: confirm_step.simps)

lemma confirm_final: "fst (final confirm_step (m, c) es) = final update_step m es"
  by (induction es arbitrary: m c) (simp_all add: split_beta)

text \<open>The version confirmed last in a run, read off its calls.\<close>

definition confirmed_version :: "u32 \<Rightarrow> update_call list \<Rightarrow> u32" where
  "confirmed_version v es = snd (final confirm_step (machine_new v, v) es)"

lemma confirmed_invariant:
  assumes "Mark_Dfu \<notin> set es"
  shows "confirm_inv (final update_step (machine_new v) es, confirmed_version v es)"
  using confirm.inv_final [OF assms, of v]
  by (metis confirm_final confirmed_version_def prod.collapse)

text \<open>Two resets with no confirmation in between reach the confirmed version from anywhere.\<close>

lemma two_resets_restore:
  assumes "confirm_inv (m, c)"
  shows "active_version (final update_step m [Reset, Reset]) = c"
  using assms
  by (auto simp: confirm_inv_def machine_ok_def on_reset_def split: update_state.splits if_splits)




subsection \<open>Properties\<close>

text \<open>No sequence of calls makes the lifecycle panic: both \<open>expect\<close>s of \<open>on_reset\<close> hold.\<close>

lemma lifecycle_never_panics:
  "Panicked \<notin> set (outputs update_step (machine_new v) es)"
  by (rule lifecycle_no_panic)

text \<open>
  C12: an unconfirmed image is rolled back, as long as the device is not detached to USB. After any calls other than \<open>mark_dfu\<close>,
  two resets with no confirmation in between leave the device on the version that was
  confirmed last, and outside the trial state the running version is that version already.
\<close>

theorem rollback_to_confirmed:
  assumes "Mark_Dfu \<notin> set es"
  shows "active_version (final update_step (machine_new v) (es @ [Reset, Reset])) =
      confirmed_version v es \<and>
    (update_state (final update_step (machine_new v) es) \<noteq> SwapTesting \<longrightarrow>
     active_version (final update_step (machine_new v) es) = confirmed_version v es)"
  using confirmed_invariant [OF assms, of v] two_resets_restore [OF confirmed_invariant [OF assms, of v]]
  by (simp add: confirm_inv_def)

theorem rollback_to_confirmed_witness:
  "active_version (final update_step (machine_new 1)
     ([Stage 2 1000, Mark_Updated, Reset, Stage 3 1000] @ [Reset, Reset])) = 1"
proof -
  let ?es = "[Stage 2 1000, Mark_Updated, Reset, Stage 3 1000]"
  have "confirmed_version 1 ?es = 1"
    by (simp add: confirmed_version_def machine_new_def update_ops can_fit_in_active_def flash_consts)
  with rollback_to_confirmed [of ?es 1] show ?thesis by simp
qed



end
