(* ===== verification/Wifi_Policy.thy ===== *)
theory Wifi_Policy
  imports Machines
begin

text \<open>
  The recovery policy of \<open>core/src/wifi.rs\<close> (the no-lease watchdog and the rejoin counter) and
  the contract of an exponential backoff that the Wi-Fi supervisor and the telemetry task
  both implement.
\<close>

definition JOIN_TIMEOUT_MS :: u64 where "JOIN_TIMEOUT_MS = 15000"
definition DHCP_TIMEOUT_MS :: u64 where "DHCP_TIMEOUT_MS = 15000"
definition DHCP_ATTEMPTS :: u32 where "DHCP_ATTEMPTS = 3"
definition LEAVE_TIMEOUT_MS :: u64 where "LEAVE_TIMEOUT_MS = 5000"
definition INITIAL_BACKOFF_MS :: u64 where "INITIAL_BACKOFF_MS = 1000"
definition MAX_BACKOFF_MS :: u64 where "MAX_BACKOFF_MS = 30000"
definition MQTT_REJOIN_FAILURES :: u32 where "MQTT_REJOIN_FAILURES = 5"
definition NO_IP_REBOOT_MS :: u64 where "NO_IP_REBOOT_MS = 10 * 60 * 1000"

lemmas wifi_consts =
  JOIN_TIMEOUT_MS_def DHCP_TIMEOUT_MS_def DHCP_ATTEMPTS_def LEAVE_TIMEOUT_MS_def
  INITIAL_BACKOFF_MS_def MAX_BACKOFF_MS_def MQTT_REJOIN_FAILURES_def NO_IP_REBOOT_MS_def

subsection \<open>The no-lease watchdog\<close>

record no_ip_watchdog =
  last_ip_ms :: "u64 option"

definition no_ip_new :: no_ip_watchdog where
  "no_ip_new = \<lparr>last_ip_ms = None\<rparr>"

definition note_ip :: "no_ip_watchdog \<Rightarrow> u64 \<Rightarrow> no_ip_watchdog" where
  "note_ip w now_ms = w\<lparr>last_ip_ms := Some now_ms\<rparr>"

definition reboot_due :: "no_ip_watchdog \<Rightarrow> u64 \<Rightarrow> bool" where
  "reboot_due w now_ms =
     (let reference = (case last_ip_ms w of Some t \<Rightarrow> t | None \<Rightarrow> 0)
      in NO_IP_REBOOT_MS \<le> saturating_sub now_ms reference)"

lemma reboot_due_iff:
  "reboot_due w now \<longleftrightarrow>
     (case last_ip_ms w of Some t \<Rightarrow> unat t | None \<Rightarrow> 0) + 600000 \<le> unat now"
  by (auto simp: reboot_due_def wifi_consts word_nat split: option.split)

subsection \<open>The rejoin counter\<close>

record rejoin_counter =
  failures :: u32

definition rejoin_new :: rejoin_counter where
  "rejoin_new = \<lparr>failures = 0\<rparr>"

definition failure :: "rejoin_counter \<Rightarrow> rejoin_counter \<times> bool" where
  "failure c =
     (let c1 = c\<lparr>failures := failures c + 1\<rparr> in
      if MQTT_REJOIN_FAILURES \<le> failures c1 then (c1\<lparr>failures := 0\<rparr>, True) else (c1, False))"

definition success :: "rejoin_counter \<Rightarrow> rejoin_counter" where
  "success c = c\<lparr>failures := 0\<rparr>"

text \<open>One connect attempt: \<open>True\<close> is a success, which never trips.\<close>

definition rejoin_step :: "rejoin_counter \<Rightarrow> bool \<Rightarrow> rejoin_counter \<times> bool" where
  "rejoin_step c connected = (if connected then (success c, False) else failure c)"

text \<open>The length of the run of failures at the end of a history of attempts.\<close>

definition trailing_failures :: "bool list \<Rightarrow> nat" where
  "trailing_failures es = length (takeWhile Not (rev es))"

lemma trailing_failures_simps [simp]:
  "trailing_failures [] = 0"
  "trailing_failures (es @ [e]) = (if e then 0 else Suc (trailing_failures es))"
  by (simp_all add: trailing_failures_def)

definition rejoin_inv :: "rejoin_counter \<Rightarrow> bool list \<Rightarrow> bool" where
  "rejoin_inv c es \<longleftrightarrow> unat (failures c) = trailing_failures es mod unat MQTT_REJOIN_FAILURES"

lemma failure_nat:
  assumes "unat (failures c) < 5"
  shows "unat (failures (fst (failure c))) = Suc (unat (failures c)) mod 5"
    and "snd (failure c) \<longleftrightarrow> Suc (unat (failures c)) mod 5 = 0"
  using assms by (auto simp: failure_def wifi_consts word_nat Let_def mod_Suc)

lemma rejoin_inv_step: "rejoin_inv c es \<Longrightarrow> rejoin_inv (fst (rejoin_step c e)) (es @ [e])"
  by (auto simp: rejoin_inv_def rejoin_step_def success_def failure_nat wifi_consts mod_Suc_eq)

interpretation rejoin: history_machine rejoin_step rejoin_new "\<lambda>_. True" rejoin_inv
  by unfold_locales (simp_all add: rejoin_inv_step, simp add: rejoin_inv_def rejoin_new_def)

lemma rejoin_trip_iff:
  "snd (rejoin_step (final rejoin_step rejoin_new es) e) \<longleftrightarrow>
     \<not> e \<and> 5 dvd trailing_failures (es @ [e])"
proof -
  let ?c = "final rejoin_step rejoin_new es"
  have "rejoin_inv ?c es" by (rule rejoin.inv_final) simp
  then have "unat (failures ?c) = trailing_failures es mod 5"
    by (simp add: rejoin_inv_def wifi_consts)
  then show ?thesis
    by (simp add: rejoin_step_def failure_nat mod_Suc_eq dvd_eq_mod_eq_0)
qed

subsection \<open>Exponential backoff\<close>

text \<open>
  A client waits the current backoff and replaces it: the contract is doubling up to a cap.
\<close>

locale backoff_policy =
  fixes next_backoff :: "u64 \<Rightarrow> u64"
    and initial :: nat
    and cap :: nat
  assumes doubles: "unat b \<le> cap \<Longrightarrow> unat (next_backoff b) = min (2 * unat b) cap"
    and initial_le: "initial \<le> cap"
begin

lemma backoff_after:
  assumes "unat b = initial"
  shows "unat ((next_backoff ^^ n) b) = min (2 ^ n * initial) cap"
proof (induction n)
  case 0
  then show ?case using assms initial_le by simp
next
  case (Suc n)
  then have "unat ((next_backoff ^^ n) b) \<le> cap" by simp
  with Suc show ?case by (simp add: doubles min_def)
qed

lemma backoff_bounds:
  assumes "initial \<le> unat b" and "unat b \<le> cap"
  shows "initial \<le> unat (next_backoff b)" and "unat (next_backoff b) \<le> cap"
  using assms by (simp_all add: doubles)

end

subsection \<open>Properties\<close>

text \<open>
  The rejoin counter asks for a rejoin at every fifth consecutive failure, and only
  there: after any history of attempts, an attempt trips it exactly when it fails and the
  failures since the last success are a multiple of the threshold.
\<close>

lemma rejoin_every_fifth_failure:
  "snd (rejoin_step (final rejoin_step rejoin_new es) e) \<longleftrightarrow>
     \<not> e \<and> unat MQTT_REJOIN_FAILURES dvd trailing_failures (es @ [e])"
  using rejoin_trip_iff [of es e] by (simp add: wifi_consts)

end
