(* ===== verification/Utf8.thy ===== *)
theory Utf8
  imports Prelude
begin

text \<open>
  \<open>core::str::from_utf8\<close>, which turns byte slices into string slices: the validity rule of
  the Rust core library (RFC 3629: no overlong forms, no surrogates, at most U+10FFFF).
  String slices are byte lists throughout the development; those the code receives as
  \<open>&str\<close> are valid by type.
\<close>

definition is_cont :: "u8 \<Rightarrow> bool" where
  "is_cont b \<longleftrightarrow> 0x80 \<le> b \<and> b \<le> 0xBF"

text \<open>The width that a first byte announces (0 for a byte that starts no character).\<close>

definition lead_width :: "u8 \<Rightarrow> nat" where
  "lead_width a =
     (if a < 0x80 then 1
      else if 0xC2 \<le> a \<and> a \<le> 0xDF then 2
      else if 0xE0 \<le> a \<and> a \<le> 0xEF then 3
      else if 0xF0 \<le> a \<and> a \<le> 0xF4 then 4
      else 0)"

text \<open>The second byte excludes overlong forms, surrogates and values above U+10FFFF.\<close>

definition second_ok :: "u8 \<Rightarrow> u8 \<Rightarrow> bool" where
  "second_ok a b \<longleftrightarrow>
     (a = 0xE0 \<longrightarrow> 0xA0 \<le> b) \<and> (a = 0xED \<longrightarrow> b \<le> 0x9F) \<and>
     (a = 0xF0 \<longrightarrow> 0x90 \<le> b) \<and> (a = 0xF4 \<longrightarrow> b \<le> 0x8F)"

text \<open>The width of the well-formed character at the head of a byte list, or 0.\<close>

fun char_width :: "bytes \<Rightarrow> nat" where
  "char_width [] = 0"
| "char_width (a # as) =
     (let w = lead_width a; more = take (w - 1) as in
      if length more = w - 1 \<and> list_all is_cont more \<and> (more \<noteq> [] \<longrightarrow> second_ok a (hd more))
      then w else 0)"

function utf8_valid :: "bytes \<Rightarrow> bool" where
  "utf8_valid bs =
     (if bs = [] then True
      else if char_width bs = 0 then False
      else utf8_valid (drop (char_width bs) bs))"
  by pat_completeness auto
termination
  by (relation "measure length") auto

declare utf8_valid.simps [simp del]

lemma utf8_valid_Nil [simp]: "utf8_valid []"
  by (simp add: utf8_valid.simps)

lemma char_width_le: "char_width bs \<le> length bs"
  by (cases bs) (auto simp: Let_def)

lemma char_width_append: "char_width xs \<noteq> 0 \<Longrightarrow> char_width (xs @ ys) = char_width xs"
proof (cases xs)
  case (Cons a as)
  assume "char_width xs \<noteq> 0"
  then have "length (take (lead_width a - 1) as) = lead_width a - 1"
    unfolding Cons char_width.simps Let_def by presburger
  then have "take (lead_width a - 1) (as @ ys) = take (lead_width a - 1) as"
    by simp
  then show ?thesis by (simp only: Cons append_Cons char_width.simps Let_def)
qed simp

lemma utf8_valid_step: "char_width bs \<noteq> 0 \<Longrightarrow> utf8_valid bs = utf8_valid (drop (char_width bs) bs)"
  by (subst utf8_valid.simps) auto

lemma utf8_valid_append [simp]: "utf8_valid xs \<Longrightarrow> utf8_valid (xs @ ys) = utf8_valid ys"
proof (induction xs rule: utf8_valid.induct)
  case (1 xs)
  show ?case
  proof (cases "xs = []")
    case True
    then show ?thesis by simp
  next
    case False
    let ?w = "char_width xs"
    from False "1.prems" have w: "?w \<noteq> 0" and rest: "utf8_valid (drop ?w xs)"
      by (auto simp: utf8_valid.simps [of xs] split: if_splits)
    have "utf8_valid (xs @ ys) = utf8_valid (drop ?w (xs @ ys))"
      using w char_width_append [OF w, of ys] utf8_valid_step [of "xs @ ys"] by simp
    also have "\<dots> = utf8_valid (drop ?w xs @ ys)"
      using char_width_le [of xs] by simp
    also have "\<dots> = utf8_valid ys"
      using "1.IH" [OF False w rest] by simp
    finally show ?thesis .
  qed
qed

lemma utf8_valid_ascii_Cons [simp]: "b < 0x80 \<Longrightarrow> utf8_valid (b # bs) = utf8_valid bs"
  using utf8_valid_step [of "b # bs"] by (simp add: lead_width_def)

definition all_ascii :: "bytes \<Rightarrow> bool" where
  "all_ascii bs \<longleftrightarrow> (\<forall>b \<in> set bs. b < 0x80)"

lemma all_ascii_simps [simp]:
  "all_ascii []" "all_ascii (b # bs) \<longleftrightarrow> b < 0x80 \<and> all_ascii bs"
  "all_ascii (xs @ ys) \<longleftrightarrow> all_ascii xs \<and> all_ascii ys"
  by (auto simp: all_ascii_def)

lemma all_ascii_valid [simp]: "all_ascii bs \<Longrightarrow> utf8_valid bs"
  by (induction bs) simp_all

end
