(* ===== verification/Json_Scanner.thy ===== *)
theory Json_Scanner
  imports Utf8
begin

text \<open>
  The parser half of \<open>core/src/mqtt.rs\<close>: the scanner over a payload and
  \<open>parse_status_request\<close>. The scanner's functions take the scanner and return it with the
  position moved. The functions that call each other recursively (a value inside an array or
  an object) carry fuel; \<open>None\<close> is running out of it. The recursion consumes input, and
  \<open>scan_fuel\<close> is enough for every payload, so \<open>None\<close> is never the answer of
  \<open>parse_status_request\<close>.
\<close>

datatype status_request_error = NotObject | MissingUuid | UuidNotString | EmptyUuid | Malformed

datatype scan_value = V_String bytes | V_Other

record scanner =
  input :: bytes
  pos :: nat

definition is_ws :: "u8 \<Rightarrow> bool" where
  "is_ws b \<longleftrightarrow> b = 0x20 \<or> b = 0x09 \<or> b = 0x0D \<or> b = 0x0A"

definition peek :: "scanner \<Rightarrow> u8 option" where
  "peek s = (if pos s < length (input s) then Some (input s ! pos s) else None)"

definition advance :: "scanner \<Rightarrow> scanner" where
  "advance s = s\<lparr>pos := pos s + 1\<rparr>"

text \<open>\<open>Scanner::next\<close>\<close>

definition next_byte :: "scanner \<Rightarrow> (u8 \<times> scanner) option" where
  "next_byte s = (case peek s of None \<Rightarrow> None | Some b \<Rightarrow> Some (b, s\<lparr>pos := pos s + 1\<rparr>))"

lemma peek_Some_less: "peek s = Some b \<Longrightarrow> pos s < length (input s)"
  by (simp add: peek_def split: if_splits)

function skip_ws :: "scanner \<Rightarrow> scanner" where
  "skip_ws s = (case peek s of Some b \<Rightarrow> if is_ws b then skip_ws (advance s) else s | None \<Rightarrow> s)"
  by pat_completeness auto
termination
  by (relation "measure (\<lambda>s. length (input s) - pos s)")
    (auto simp: advance_def dest: peek_Some_less)

declare skip_ws.simps [simp del]

text \<open>The four hexadecimal digits of a \<open>\\u\<close> escape.\<close>

primrec scan_hex :: "nat \<Rightarrow> scanner \<Rightarrow> status_request_error + scanner" where
  "scan_hex 0 s = Inr s"
| "scan_hex (Suc n) s =
     (case next_byte s of
        None \<Rightarrow> Inl Malformed
      | Some (digit, s1) \<Rightarrow> if is_ascii_hexdigit digit then scan_hex n s1 else Inl Malformed)"

lemma next_byte_Some:
  "next_byte s = Some (b, s1) \<Longrightarrow> pos s < length (input s) \<and> s1 = s\<lparr>pos := pos s + 1\<rparr>"
  by (auto simp: next_byte_def peek_def split: if_splits)

lemma scan_hex_frame: "scan_hex n s = Inr s1 \<Longrightarrow> input s1 = input s \<and> pos s1 = pos s + n"
  by (induction n arbitrary: s) (auto split: option.splits if_splits dest!: next_byte_Some)

text \<open>\<open>b'"' | b'\\' | b'/' | b'b' | b'f' | b'n' | b'r' | b't'\<close>\<close>

definition simple_escapes :: "u8 set" where
  "simple_escapes = {0x22, 0x5C, 0x2F, 0x62, 0x66, 0x6E, 0x72, 0x74}"

text \<open>The loop of \<open>parse_string_raw\<close>; \<open>start\<close> is the position after the opening quote.\<close>

function string_loop :: "nat \<Rightarrow> scanner \<Rightarrow> status_request_error + bytes \<times> scanner" where
  "string_loop start s =
     (case next_byte s of
        None \<Rightarrow> Inl Malformed
      | Some (b, s1) \<Rightarrow>
          if b = 0x22 then
            (let body = take (pos s1 - 1 - start) (drop start (input s1))
             in if utf8_valid body then Inr (body, s1) else Inl Malformed)
          else if b = 0x5C then
            (case next_byte s1 of
               None \<Rightarrow> Inl Malformed
             | Some (e, s2) \<Rightarrow>
                 if e \<in> simple_escapes then string_loop start s2
                 else if e = 0x75 then
                   (case scan_hex 4 s2 of
                      Inl err \<Rightarrow> Inl err
                    | Inr s3 \<Rightarrow> string_loop start s3)
                 else Inl Malformed)
          else if b \<le> 0x1F then Inl Malformed
          else string_loop start s1)"
  by pat_completeness auto
termination
  by (relation "measure (\<lambda>(start, s). length (input s) - pos s)")
    (auto dest!: next_byte_Some scan_hex_frame)

declare string_loop.simps [simp del]

definition parse_string_raw :: "scanner \<Rightarrow> status_request_error + bytes \<times> scanner" where
  "parse_string_raw s = (let s1 = advance s in string_loop (pos s1) s1)"

primrec skip_literals :: "bytes list \<Rightarrow> scanner \<Rightarrow> status_request_error + scanner" where
  "skip_literals [] s = Inl Malformed"
| "skip_literals (l # ls) s =
     (if starts_with (drop (pos s) (input s)) l then Inr (s\<lparr>pos := pos s + length l\<rparr>)
      else skip_literals ls s)"

definition skip_literal :: "scanner \<Rightarrow> status_request_error + scanner" where
  "skip_literal s = skip_literals [ascii ''true'', ascii ''false'', ascii ''null''] s"

function digits_loop :: "scanner \<Rightarrow> scanner" where
  "digits_loop s =
     (case peek s of Some b \<Rightarrow> if is_ascii_digit b then digits_loop (advance s) else s | None \<Rightarrow> s)"
  by pat_completeness auto
termination
  by (relation "measure (\<lambda>s. length (input s) - pos s)")
    (auto simp: advance_def dest: peek_Some_less)

declare digits_loop.simps [simp del]

definition skip_digits :: "scanner \<Rightarrow> scanner \<times> bool" where
  "skip_digits s = (let s1 = digits_loop s in (s1, pos s < pos s1))"

text \<open>The three parts of \<open>skip_number\<close>: sign and integer, fraction, exponent.\<close>

definition skip_required_digits :: "scanner \<Rightarrow> status_request_error + scanner" where
  "skip_required_digits s =
     (let (s1, any) = skip_digits s in if any then Inr s1 else Inl Malformed)"

definition skip_integer :: "scanner \<Rightarrow> status_request_error + scanner" where
  "skip_integer s = skip_required_digits (if peek s = Some 0x2D then advance s else s)"

definition skip_fraction :: "scanner \<Rightarrow> status_request_error + scanner" where
  "skip_fraction s = (if peek s = Some 0x2E then skip_required_digits (advance s) else Inr s)"

definition skip_exponent :: "scanner \<Rightarrow> status_request_error + scanner" where
  "skip_exponent s =
     (if peek s = Some 0x65 \<or> peek s = Some 0x45 then
        (let s1 = advance s;
             s2 = (if peek s1 = Some 0x2B \<or> peek s1 = Some 0x2D then advance s1 else s1)
         in skip_required_digits s2)
      else Inr s)"

definition skip_number :: "scanner \<Rightarrow> status_request_error + scanner" where
  "skip_number s =
     (case skip_integer s of Inl e \<Rightarrow> Inl e | Inr s1 \<Rightarrow>
      (case skip_fraction s1 of Inl e \<Rightarrow> Inl e | Inr s2 \<Rightarrow> skip_exponent s2))"

text \<open>
  A key and its colon, as both object loops read them: whitespace, an opening quote, the
  string, whitespace, the colon.
\<close>

definition scan_key :: "scanner \<Rightarrow> status_request_error + bytes \<times> scanner" where
  "scan_key s =
     (let s1 = skip_ws s in
      if peek s1 \<noteq> Some 0x22 then Inl Malformed
      else case parse_string_raw s1 of
        Inl e \<Rightarrow> Inl e
      | Inr (key, s2) \<Rightarrow>
          (let s3 = skip_ws s2 in
           if peek s3 \<noteq> Some 0x3A then Inl Malformed else Inr (key, advance s3)))"

text \<open>What follows an entry: \<open>Some True\<close> is a comma, \<open>Some False\<close> the closing bracket.\<close>

definition scan_separator :: "u8 \<Rightarrow> scanner \<Rightarrow> status_request_error + bool \<times> scanner" where
  "scan_separator close s =
     (let s1 = skip_ws s in
      case peek s1 of
        Some b \<Rightarrow>
          if b = 0x2C then Inr (True, advance s1)
          else if b = close then Inr (False, advance s1)
          else Inl Malformed
      | None \<Rightarrow> Inl Malformed)"

subsection \<open>Values, objects and arrays\<close>

text \<open>
  \<open>parse_value\<close>, the loops of \<open>skip_object\<close> and \<open>skip_array\<close> (whose openings are in
  \<open>parse_value\<close>'s branches). \<open>skip_value_only\<close> is \<open>parse_value\<close> with the value dropped.
\<close>

fun parse_value :: "nat \<Rightarrow> scanner \<Rightarrow> (status_request_error + scan_value \<times> scanner) option"
and object_loop :: "nat \<Rightarrow> scanner \<Rightarrow> (status_request_error + scanner) option"
and array_loop :: "nat \<Rightarrow> scanner \<Rightarrow> (status_request_error + scanner) option" where
  "parse_value 0 s = None"
| "parse_value (Suc n) s =
     (let s1 = skip_ws s in
      case peek s1 of
        None \<Rightarrow> Some (Inl Malformed)
      | Some b \<Rightarrow>
          if b = 0x22 then
            Some (case parse_string_raw s1 of
                    Inl e \<Rightarrow> Inl e | Inr (str, s2) \<Rightarrow> Inr (V_String str, s2))
          else if b = 0x7B then
            map_option (map_sum id (Pair V_Other))
              (let s2 = skip_ws (advance s1) in
               if peek s2 = Some 0x7D then Some (Inr (advance s2)) else object_loop n s2)
          else if b = 0x5B then
            map_option (map_sum id (Pair V_Other))
              (let s2 = skip_ws (advance s1) in
               if peek s2 = Some 0x5D then Some (Inr (advance s2)) else array_loop n s2)
          else if b = 0x74 \<or> b = 0x66 \<or> b = 0x6E then
            Some (map_sum id (Pair V_Other) (skip_literal s1))
          else if b = 0x2D \<or> is_ascii_digit b then
            Some (map_sum id (Pair V_Other) (skip_number s1))
          else Some (Inl Malformed))"
| "object_loop 0 s = None"
| "object_loop (Suc n) s =
     (case scan_key s of
        Inl e \<Rightarrow> Some (Inl e)
      | Inr (_, s1) \<Rightarrow>
          (case parse_value n s1 of
             None \<Rightarrow> None
           | Some (Inl e) \<Rightarrow> Some (Inl e)
           | Some (Inr (_, s2)) \<Rightarrow>
               (case scan_separator 0x7D s2 of
                  Inl e \<Rightarrow> Some (Inl e)
                | Inr (again, s3) \<Rightarrow> if again then object_loop n s3 else Some (Inr s3))))"
| "array_loop 0 s = None"
| "array_loop (Suc n) s =
     (case parse_value n s of
        None \<Rightarrow> None
      | Some (Inl e) \<Rightarrow> Some (Inl e)
      | Some (Inr (_, s2)) \<Rightarrow>
          (case scan_separator 0x5D s2 of
             Inl e \<Rightarrow> Some (Inl e)
           | Inr (again, s3) \<Rightarrow> if again then array_loop n s3 else Some (Inr s3)))"

subsection \<open>The request\<close>

text \<open>The loop over the top-level members, with the first \<open>uuid\<close> found so far.\<close>

fun request_loop ::
  "nat \<Rightarrow> bytes option \<Rightarrow> scanner \<Rightarrow> (status_request_error + bytes option \<times> scanner) option" where
  "request_loop 0 found s = None"
| "request_loop (Suc n) found s =
     (case scan_key s of
        Inl e \<Rightarrow> Some (Inl e)
      | Inr (key, s1) \<Rightarrow>
          (case parse_value n s1 of
             None \<Rightarrow> None
           | Some (Inl e) \<Rightarrow> Some (Inl e)
           | Some (Inr (v, s2)) \<Rightarrow>
               (case (if key = ascii ''uuid'' \<and> found = None
                      then (case v of V_String uuid \<Rightarrow> Inr (Some uuid)
                            | V_Other \<Rightarrow> Inl UuidNotString)
                      else Inr found) of
                  Inl e \<Rightarrow> Some (Inl e)
                | Inr found' \<Rightarrow>
                    (case scan_separator 0x7D s2 of
                       Inl e \<Rightarrow> Some (Inl e)
                     | Inr (again, s3) \<Rightarrow>
                         if again then request_loop n found' s3
                         else Some (Inr (found', s3))))))"

definition scan_fuel :: "bytes \<Rightarrow> nat" where
  "scan_fuel payload = 2 * length payload + 2"

definition parse_status_request :: "bytes \<Rightarrow> (status_request_error + bytes) option" where
  "parse_status_request payload =
     (let s0 = skip_ws \<lparr>input = payload, pos = 0\<rparr> in
      if peek s0 \<noteq> Some 0x7B then Some (Inl NotObject)
      else
        let s1 = skip_ws (advance s0) in
        case (if peek s1 = Some 0x7D then Some (Inr (None, advance s1))
              else request_loop (scan_fuel payload) None s1) of
          None \<Rightarrow> None
        | Some (Inl e) \<Rightarrow> Some (Inl e)
        | Some (Inr (found, s2)) \<Rightarrow>
            (let s3 = skip_ws s2 in
             if pos s3 \<noteq> length (input s3) then Some (Inl Malformed)
             else case found of
               Some uuid \<Rightarrow> if uuid = [] then Some (Inl EmptyUuid) else Some (Inr uuid)
             | None \<Rightarrow> Some (Inl MissingUuid)))"

end
