(* ===== verification/Byte_Sink.thy ===== *)
theory Byte_Sink
  imports Prelude
begin

text \<open>
  The contract of a bounded byte sink: a fixed buffer with a fill position, to which a chunk
  is appended whole or not at all. Both writers of the program keep it, the \<open>write\<close> helper
  of \<open>core/src/mqtt.rs\<close> and \<open>TextBuf\<close> of \<open>app/src/ota/mod.rs\<close>, and whatever is composed of
  appends ends up as a concatenation.
\<close>

text \<open>Rust's \<open>?\<close> on a method that mutates its receiver: stop at the first error.\<close>

definition try_then :: "'s \<times> ('e + 'a) \<Rightarrow> ('s \<Rightarrow> 'a \<Rightarrow> 's \<times> ('e + 'b)) \<Rightarrow> 's \<times> ('e + 'b)" where
  "try_then m f = (case m of (s, Inl e) \<Rightarrow> (s, Inl e) | (s, Inr a) \<Rightarrow> f s a)"

lemma try_then_simps [simp]:
  "try_then (s, Inl e) f = (s, Inl e)"
  "try_then (s, Inr a) f = f s a"
  by (simp_all add: try_then_def)

lemma try_then_unit [simp]: "try_then m (\<lambda>s _. (s, Inr ())) = m"
  by (simp add: try_then_def split: prod.splits sum.splits)

lemma try_then_assoc:
  "try_then (try_then m f) g = try_then m (\<lambda>s a. try_then (f s a) g)"
  by (simp add: try_then_def split: prod.splits sum.splits)

primrec put_all :: "('s \<Rightarrow> bytes \<Rightarrow> 's \<times> ('e + unit)) \<Rightarrow> 's \<Rightarrow> bytes list \<Rightarrow> 's \<times> ('e + unit)" where
  "put_all put s [] = (s, Inr ())"
| "put_all put s (d # ds) = try_then (put s d) (\<lambda>s' _. put_all put s' ds)"

lemma put_all_append:
  "put_all put s (ds @ es) = try_then (put_all put s ds) (\<lambda>s' _. put_all put s' es)"
  by (induction ds arbitrary: s) (simp_all add: try_then_assoc)

lemma put_all_single [simp]: "put_all put s [d] = put s d"
  by simp

locale byte_sink =
  fixes put :: "'s \<Rightarrow> bytes \<Rightarrow> 's \<times> ('e + unit)"
    and written :: "'s \<Rightarrow> bytes"
    and room :: "'s \<Rightarrow> bytes"
    and ok :: "'s \<Rightarrow> bool"
    and full :: 'e
  assumes put_fits: "ok s \<Longrightarrow> length d \<le> length (room s) \<Longrightarrow>
      \<exists>s'. put s d = (s', Inr ()) \<and> ok s' \<and> written s' = written s @ d \<and>
        room s' = drop (length d) (room s)"
    and put_full: "ok s \<Longrightarrow> length (room s) < length d \<Longrightarrow> put s d = (s, Inl full)"
begin

text \<open>Chunks that fit together are appended one after the other, and nothing else changes.\<close>

lemma put_all_fits:
  "ok s \<Longrightarrow> length (concat ds) \<le> length (room s) \<Longrightarrow>
     \<exists>s'. put_all put s ds = (s', Inr ()) \<and> ok s' \<and> written s' = written s @ concat ds \<and>
       room s' = drop (length (concat ds)) (room s)"
proof (induction ds arbitrary: s)
  case Nil
  then show ?case by simp
next
  case (Cons d ds)
  then obtain s1 where s1: "put s d = (s1, Inr ())" "ok s1" "written s1 = written s @ d"
      "room s1 = drop (length d) (room s)"
    using put_fits [of s d] by auto
  with Cons.IH [of s1] Cons.prems show ?case by (auto simp: add.commute)
qed

text \<open>Otherwise the sequence stops with the sink's error, after a prefix of the chunks.\<close>

lemma put_all_full:
  "ok s \<Longrightarrow> length (room s) < length (concat ds) \<Longrightarrow> snd (put_all put s ds) = Inl full"
proof (induction ds arbitrary: s)
  case Nil
  then show ?case by simp
next
  case (Cons d ds)
  show ?case
  proof (cases "length d \<le> length (room s)")
    case True
    with Cons.prems obtain s1 where s1: "put s d = (s1, Inr ())" "ok s1"
        "room s1 = drop (length d) (room s)"
      using put_fits [of s d] by auto
    with Cons.IH [of s1] Cons.prems show ?thesis by (simp add: less_diff_conv2 True)
  next
    case False
    with Cons.prems show ?thesis by (simp add: put_full)
  qed
qed

text \<open>In every case the capacity is kept and what was written before stays.\<close>

lemma put_all_keeps:
  "ok s \<Longrightarrow> \<exists>s' r x. put_all put s ds = (s', r) \<and> ok s' \<and> written s' = written s @ x \<and>
     length x + length (room s') = length (room s)"
proof (induction ds arbitrary: s)
  case Nil
  then show ?case by simp
next
  case (Cons d ds)
  show ?case
  proof (cases "length d \<le> length (room s)")
    case True
    with Cons.prems obtain s1 where s1: "put s d = (s1, Inr ())" "ok s1"
        "written s1 = written s @ d" "room s1 = drop (length d) (room s)"
      using put_fits [of s d] by auto
    from Cons.IH [OF s1(2)] obtain s' r x where "put_all put s1 ds = (s', r)" "ok s'"
      "written s' = written s1 @ x" "length x + length (room s') = length (room s1)"
      by blast
    with s1 True show ?thesis by (auto intro!: exI [of _ "d @ x"])
  next
    case False
    with Cons.prems show ?thesis by (simp add: put_full)
  qed
qed

lemma put_all_ok_iff:
  "ok s \<Longrightarrow> snd (put_all put s ds) = Inr () \<longleftrightarrow> length (concat ds) \<le> length (room s)"
  using put_all_fits [of s ds] put_all_full [of s ds] by fastforce

end

end
