(* ===== verification/Decimal.thy ===== *)
theory Decimal
  imports Prelude
begin

text \<open>
  Decimal numbers as ASCII text: the reference printer and its inverse, against which the
  digit loops of the encoder, the version parser, the status line and the port parser are
  stated.
\<close>

fun decimal :: "nat \<Rightarrow> bytes" where
  "decimal n =
     (if n < 10 then [of_nat (0x30 + n)] else decimal (n div 10) @ [of_nat (0x30 + n mod 10)])"

declare decimal.simps [simp del]

definition digit_value :: "u8 \<Rightarrow> nat" where
  "digit_value d = unat d - 0x30"

definition number_value :: "bytes \<Rightarrow> nat" where
  "number_value ds = foldl (\<lambda>n d. 10 * n + digit_value d) 0 ds"

lemma unat_digit: "n < 10 \<Longrightarrow> unat (of_nat (0x30 + n) :: u8) = 0x30 + n"
  by (subst unat_of_nat) simp

lemma digit_of_nat:
  "n < 10 \<Longrightarrow> is_ascii_digit (of_nat (0x30 + n)) \<and> digit_value (of_nat (0x30 + n)) = n"
  using unat_digit [of n] by (simp add: is_ascii_digit_def digit_value_def word_nat del: of_nat_add)

lemma digit_value_less: "is_ascii_digit d \<Longrightarrow> digit_value d < 10"
  unfolding is_ascii_digit_def digit_value_def word_le_nat_alt by simp arith

lemma number_value_simps [simp]:
  "number_value [] = 0"
  "number_value (ds @ [d]) = 10 * number_value ds + digit_value d"
  by (simp_all add: number_value_def)

lemma decimal_nonempty [simp]: "decimal n \<noteq> []"
  by (subst decimal.simps) simp

lemma decimal_leading: "10 \<le> n \<Longrightarrow> hd (decimal n) \<noteq> 0x30"
proof (induction n rule: decimal.induct)
  case (1 n)
  have one: "hd (decimal m) \<noteq> 0x30" if "1 \<le> m" "m < 10" for m
  proof -
    have "m \<in> {1, 2, 3, 4, 5, 6, 7, 8, 9}" using that by auto
    then show ?thesis by (auto simp: decimal.simps [of m])
  qed
  have "hd (decimal (n div 10)) \<noteq> 0x30"
    using 1 one [of "n div 10"] by (cases "n div 10 < 10") auto
  with 1 show ?case by (subst decimal.simps) simp
qed

lemma decimal_digits: "\<forall>d \<in> set (decimal n). is_ascii_digit d"
proof (induction n rule: decimal.induct)
  case (1 n)
  show ?case
    using 1 digit_of_nat [of n] digit_of_nat [of "n mod 10"]
    by (subst decimal.simps) (auto simp del: of_nat_add)
qed

lemma number_value_decimal [simp]: "number_value (decimal n) = n"
proof (induction n rule: decimal.induct)
  case (1 n)
  show ?case
  proof (cases "n < 10")
    case True
    then show ?thesis
      using number_value_simps(2) [of "[]" "of_nat (0x30 + n)"] digit_of_nat [of n]
      by (subst decimal.simps) (simp del: of_nat_add)
  next
    case False
    then show ?thesis
      using 1 digit_of_nat [of "n mod 10"] by (subst decimal.simps) (simp del: of_nat_add)
  qed
qed

lemma length_decimal_le: "n < 10 ^ k \<Longrightarrow> 0 < k \<Longrightarrow> length (decimal n) \<le> k"
proof (induction n arbitrary: k rule: decimal.induct)
  case (1 n)
  show ?case
  proof (cases "n < 10")
    case True
    then show ?thesis using 1 by (subst decimal.simps) simp
  next
    case False
    obtain j where k: "k = Suc j" using "1.prems" by (cases k) auto
    have "0 < j" using False "1.prems" k by (cases j) auto
    have "n div 10 < 10 ^ j" using "1.prems" k by (simp add: less_mult_imp_div_less mult.commute)
    with 1 False k \<open>0 < j\<close> show ?thesis by (subst decimal.simps) simp
  qed
qed

lemma number_value_ge: "number_value ds \<le> number_value (ds @ es)"
  by (induction es rule: rev_induct) (auto simp flip: append_assoc intro: order_trans)

subsection \<open>Checked accumulation\<close>

text \<open>
  The digit loops of the sources: \<open>value.checked_mul(10)?.checked_add(digit)?\<close> at the width
  of the value, most significant digit first.
\<close>

fun checked_number :: "'a::len word \<Rightarrow> bytes \<Rightarrow> 'a word option" where
  "checked_number v [] = Some v"
| "checked_number v (d # ds) =
     (case checked_mul v 10 of
        None \<Rightarrow> None
      | Some v10 \<Rightarrow>
          (case checked_add v10 (ucast (d - 0x30)) of
             None \<Rightarrow> None | Some v' \<Rightarrow> checked_number v' ds))"

definition number_from :: "nat \<Rightarrow> bytes \<Rightarrow> nat" where
  "number_from n ds = foldl (\<lambda>n d. 10 * n + digit_value d) n ds"

lemma number_from_simps [simp]:
  "number_from n [] = n" "number_from n (d # ds) = number_from (10 * n + digit_value d) ds"
  by (simp_all add: number_from_def)

lemma number_from_0: "number_from 0 ds = number_value ds"
  by (simp add: number_from_def number_value_def)

lemma number_from_ge: "n \<le> number_from n ds"
proof (induction ds arbitrary: n)
  case Nil
  then show ?case by simp
next
  case (Cons d ds)
  have "n \<le> 10 * n + digit_value d" by simp
  also have "\<dots> \<le> number_from (10 * n + digit_value d) ds" by (rule Cons.IH)
  finally show ?case by simp
qed

lemma checked_digit:
  assumes "is_ascii_digit b" and "8 \<le> LENGTH('a::len)"
  shows "(case checked_mul (v :: 'a word) 10 of None \<Rightarrow> None
      | Some v10 \<Rightarrow> checked_add v10 (ucast (b - 0x30))) =
    (if 10 * unat v + digit_value b < 2 ^ LENGTH('a)
     then Some (of_nat (10 * unat v + digit_value b)) else None)"
proof -
  have big: "(2::nat) ^ 8 \<le> 2 ^ LENGTH('a)" using assms(2) by (rule power_increasing) simp
  have ten: "unat (10 :: 'a word) = 10"
    using big by (simp add: unsigned_numeral take_bit_eq_mod)
  have "unat (b - 0x30) = digit_value b"
    using assms(1) by (simp add: digit_value_def is_ascii_digit_def word_nat)
  moreover have "unat (ucast (b - 0x30) :: 'a word) = unat (b - 0x30)"
    using big unsigned_less [of "b - 0x30", where ?'a = nat] by (simp add: unat_ucast_mod)
  ultimately have d: "unat (ucast (b - 0x30) :: 'a word) = digit_value b" by simp
  have eq: "v * 10 + ucast (b - 0x30) = (of_nat (10 * unat v + digit_value b) :: 'a word)"
    by (simp add: mult.commute flip: d)
  show ?thesis
  proof (cases "unat v * unat (10 :: 'a word) < 2 ^ LENGTH('a)")
    case True
    then have "unat (v * 10) = unat v * 10" using unat_mult_lem [of v 10] by (simp only: ten)
    with True eq show ?thesis
      by (auto simp only: checked_mul_def checked_add_def d option.case if_True mult.commute)
  next
    case False
    then show ?thesis by (simp only: checked_mul_def ten) simp
  qed
qed

lemma checked_number_iff:
  assumes "list_all is_ascii_digit ds" and "8 \<le> LENGTH('a::len)"
  shows "checked_number (v :: 'a word) ds =
    (if number_from (unat v) ds < 2 ^ LENGTH('a) then Some (of_nat (number_from (unat v) ds)) else None)"
  using assms(1)
proof (induction ds arbitrary: v)
  case Nil
  then show ?case using unsigned_less [of v, where ?'a = nat] by simp
next
  case (Cons d ds)
  let ?n = "10 * unat v + digit_value d"
  have step: "checked_number v (d # ds) =
      (case (case checked_mul v 10 of None \<Rightarrow> None
         | Some v10 \<Rightarrow> checked_add v10 (ucast (d - 0x30))) of
       None \<Rightarrow> None | Some v' \<Rightarrow> checked_number v' ds)"
    by (simp split: option.split)
  show ?case
  proof (cases "?n < 2 ^ LENGTH('a)")
    case True
    then have "unat (of_nat ?n :: 'a word) = ?n"
      by (simp only: unat_of_nat mod_less)
    with True Cons checked_digit [of d v] assms(2) show ?thesis
      unfolding step by (simp del: of_nat_add of_nat_mult)
  next
    case False
    with Cons.prems checked_digit [of d v] assms(2) number_from_ge [of ?n ds] show ?thesis
      unfolding step by simp
  qed
qed

end
