(* ===== verification/Mqtt_Encode.thy ===== *)
theory Mqtt_Encode
  imports Byte_Sink Utf8 Decimal
begin

text \<open>
  The encoder half of \<open>core/src/mqtt.rs\<close>: the topics, and the payloads written into a buffer
  of the caller. A writer is the buffer with the position; every function returns the buffer
  as it leaves it, also when it fails.
\<close>

definition TOPIC_TRIGGER :: bytes where "TOPIC_TRIGGER = ascii ''garagedoor/trigger''"
definition TOPIC_STATUS :: bytes where "TOPIC_STATUS = ascii ''garagedoor/status''"
definition TOPIC_RESET :: bytes where "TOPIC_RESET = ascii ''garagedoor/reset''"
definition TOPIC_ONCHANGE :: bytes where "TOPIC_ONCHANGE = ascii ''garagedoor/onchange''"
definition TOPIC_STATUS_RESPONSE :: bytes where
  "TOPIC_STATUS_RESPONSE = ascii ''garagedoor/status/response''"

datatype encode_error = Truncated

type_synonym writer = "bytes \<times> nat"

definition write_bytes :: "writer \<Rightarrow> bytes \<Rightarrow> writer \<times> (encode_error + unit)" where
  "write_bytes w payload =
     (let (buf, pos) = w; stop = pos + length payload in
      if length buf < stop then (w, Inl Truncated)
      else ((copy_at buf pos payload, stop), Inr ()))"

text \<open>The digit loop of \<open>write_u32\<close>, least significant digit first.\<close>

function u32_digits :: "u32 \<Rightarrow> bytes" where
  "u32_digits value =
     (if 0 < value then (0x30 + ucast (value mod 10)) # u32_digits (value div 10) else [])"
  by pat_completeness auto
termination
  by (relation "measure unat") (simp_all add: word_nat unat_div)

declare u32_digits.simps [simp del]

fun write_digits :: "writer \<Rightarrow> bytes \<Rightarrow> writer \<times> (encode_error + unit)" where
  "write_digits w [] = (w, Inr ())"
| "write_digits (buf, pos) (d # ds) =
     (if length buf \<le> pos then ((buf, pos), Inl Truncated)
      else write_digits (buf[pos := d], pos + 1) ds)"

definition write_u32 :: "writer \<Rightarrow> u32 \<Rightarrow> writer \<times> (encode_error + unit)" where
  "write_u32 w value =
     (let digits = (if value = 0 then [0x30] else u32_digits value)
      in write_digits w (rev digits))"

definition finish :: "bytes \<Rightarrow> nat \<Rightarrow> encode_error + bytes" where
  "finish buf len = (if utf8_valid (take len buf) then Inr (take len buf) else Inl Truncated)"

definition write_exact :: "bytes \<Rightarrow> bytes \<Rightarrow> bytes \<times> (encode_error + bytes)" where
  "write_exact buf payload =
     (if length buf < length payload then (buf, Inl Truncated)
      else let buf' = copy_at buf 0 payload in (buf', finish buf' (length payload)))"

definition format_onchange :: "bytes \<Rightarrow> bool \<Rightarrow> bytes \<times> (encode_error + bytes)" where
  "format_onchange buf is_open =
     write_exact buf
       (if is_open then ascii ''{\"open\":true}'' else ascii ''{\"open\":false}'')"

definition format_status_response ::
  "bytes \<Rightarrow> bytes \<Rightarrow> bool \<Rightarrow> u32 \<Rightarrow> bytes \<times> (encode_error + bytes)" where
  "format_status_response buf uuid is_open version =
     (let (w, result) =
        try_then (write_bytes (buf, 0) (ascii ''{\"uuid\":\"'')) (\<lambda>w _.
        try_then (write_bytes w uuid) (\<lambda>w _.
        try_then (write_bytes w (ascii ''\",\"result\":{\"open\":'')) (\<lambda>w _.
        try_then (write_bytes w (if is_open then ascii ''true'' else ascii ''false'')) (\<lambda>w _.
        try_then (write_bytes w (ascii '',\"version\":'')) (\<lambda>w _.
        try_then (write_u32 w version) (\<lambda>w _.
        write_bytes w (ascii ''}}'')))))))
      in (fst w, case result of Inl e \<Rightarrow> Inl e | Inr _ \<Rightarrow> finish (fst w) (snd w)))"

subsection \<open>The writer is a byte sink\<close>

definition writer_ok :: "writer \<Rightarrow> bool" where
  "writer_ok w \<longleftrightarrow> snd w \<le> length (fst w)"

abbreviation writer_text :: "writer \<Rightarrow> bytes" where
  "writer_text w \<equiv> take (snd w) (fst w)"

abbreviation writer_room :: "writer \<Rightarrow> bytes" where
  "writer_room w \<equiv> drop (snd w) (fst w)"

interpretation writer: byte_sink write_bytes writer_text writer_room writer_ok Truncated
  by unfold_locales (auto simp: write_bytes_def writer_ok_def copy_at_def Let_def add.commute)

lemma write_digits_put_all: "write_digits w ds = put_all write_bytes w (map (\<lambda>d. [d]) ds)"
  by (induction w ds rule: write_digits.induct) (auto simp: write_bytes_def copy_at_snoc Let_def)

lemma u32_digit: "(0x30 + ucast (v mod 10) :: u8) = of_nat (0x30 + unat (v :: u32) mod 10)"
proof -
  have "(ucast (v mod 10) :: u8) = of_nat (unat (v mod 10))"
    by (metis of_nat_unat)
  then show ?thesis by (simp add: unat_mod)
qed

lemma u32_digits_decimal: "v \<noteq> 0 \<Longrightarrow> rev (u32_digits v) = decimal (unat v)"
proof (induction v rule: u32_digits.induct)
  case (1 v)
  have pos: "0 < v" using "1.prems" by (simp add: word_gt_0)
  show ?case
  proof (cases "v div 10 = 0")
    case True
    then have "unat v < 10"
      by (simp add: word_unat_eq_iff unat_div div_eq_0_iff)
    then show ?thesis
      using pos True u32_digit [of v]
      by (subst u32_digits.simps, subst decimal.simps, subst u32_digits.simps)
        (simp del: of_nat_add)
  next
    case False
    then have "\<not> unat v < 10" by (auto simp: word_unat_eq_iff unat_div)
    with "1.IH" [OF pos False] pos u32_digit [of v] show ?thesis
      by (subst u32_digits.simps, subst decimal.simps) (simp add: unat_div del: of_nat_add)
  qed
qed

lemma write_u32_put_all:
  "write_u32 w v = put_all write_bytes w (map (\<lambda>d. [d]) (decimal (unat v)))"
  by (simp add: write_u32_def write_digits_put_all u32_digits_decimal decimal.simps [of 0])

subsection \<open>The status response\<close>

definition status_chunks :: "bytes \<Rightarrow> bool \<Rightarrow> u32 \<Rightarrow> bytes list" where
  "status_chunks uuid is_open version =
     [ascii ''{\"uuid\":\"'', uuid, ascii ''\",\"result\":{\"open\":'',
      if is_open then ascii ''true'' else ascii ''false'', ascii '',\"version\":''] @
     map (\<lambda>d. [d]) (decimal (unat version)) @ [ascii ''}}'']"

text \<open>The document that a status response is meant to be.\<close>

definition status_response :: "bytes \<Rightarrow> bool \<Rightarrow> u32 \<Rightarrow> bytes" where
  "status_response uuid is_open version =
     ascii ''{\"uuid\":\"'' @ uuid @ ascii ''\",\"result\":{\"open\":'' @
     (if is_open then ascii ''true'' else ascii ''false'') @ ascii '',\"version\":'' @
     decimal (unat version) @ ascii ''}}''"

lemma concat_singletons [simp]: "concat (map (\<lambda>d. [d]) ds) = ds"
  by (induction ds) simp_all

lemma concat_status_chunks: "concat (status_chunks uuid b v) = status_response uuid b v"
  by (simp add: status_chunks_def status_response_def)

lemma format_status_put_all:
  "format_status_response buf uuid is_open version =
     (let (w, result) = put_all write_bytes (buf, 0) (status_chunks uuid is_open version)
      in (fst w, case result of Inl e \<Rightarrow> Inl e | Inr _ \<Rightarrow> finish (fst w) (snd w)))"
  by (simp add: format_status_response_def status_chunks_def write_u32_put_all put_all_append
      try_then_assoc)

lemma ascii_digit_byte: "is_ascii_digit d \<Longrightarrow> d < 0x80"
  by (simp add: is_ascii_digit_def word_nat)

lemma decimal_ascii [simp]: "all_ascii (decimal n)"
  using decimal_digits [of n] by (auto simp: all_ascii_def ascii_digit_byte)

lemma utf8_valid_status_response:
  "utf8_valid uuid \<Longrightarrow> utf8_valid (status_response uuid is_open version)"
  by (simp add: status_response_def ascii_def)

lemma format_status_fits:
  assumes "utf8_valid uuid" and "length (status_response uuid b v) \<le> length buf"
  shows "format_status_response buf uuid b v =
    (status_response uuid b v @ drop (length (status_response uuid b v)) buf,
     Inr (status_response uuid b v))"
proof -
  obtain w where w: "put_all write_bytes (buf, 0) (status_chunks uuid b v) = (w, Inr ())"
      "writer_ok w" "writer_text w = status_response uuid b v"
      "writer_room w = drop (length (status_response uuid b v)) buf"
    using writer.put_all_fits [of "(buf, 0)" "status_chunks uuid b v"] assms(2)
    by (auto simp: writer_ok_def concat_status_chunks)
  then have "fst w = status_response uuid b v @ drop (length (status_response uuid b v)) buf"
    by (metis append_take_drop_id)
  with w show ?thesis
    by (simp add: format_status_put_all finish_def utf8_valid_status_response [OF assms(1)])
qed

lemma format_status_full:
  assumes "length buf < length (status_response uuid b v)"
  shows "snd (format_status_response buf uuid b v) = Inl Truncated"
    and "length (fst (format_status_response buf uuid b v)) = length buf"
proof -
  let ?r = "put_all write_bytes (buf, 0) (status_chunks uuid b v)"
  have ok: "writer_ok (buf, 0)" by (simp add: writer_ok_def)
  have "snd ?r = Inl Truncated"
    using writer.put_all_full [OF ok, of "status_chunks uuid b v"] assms
    by (simp add: concat_status_chunks)
  then show "snd (format_status_response buf uuid b v) = Inl Truncated"
    by (auto simp: format_status_put_all split: prod.splits sum.splits)
  show "length (fst (format_status_response buf uuid b v)) = length buf"
    using writer.put_all_keeps [OF ok, of "status_chunks uuid b v"]
    by (auto simp: format_status_put_all writer_ok_def)
qed

lemma length_status_response:
  "length (status_response uuid b v) \<le> 56 + length uuid"
proof -
  have "unat v < 10 ^ 10"
    using unsigned_less [of v, where ?'a = nat] by simp
  then have "length (decimal (unat v)) \<le> 10"
    by (rule length_decimal_le) simp
  then show ?thesis by (simp add: status_response_def)
qed

lemma format_onchange_spec:
  "format_onchange buf is_open =
     (let text = (if is_open then ascii ''{\"open\":true}'' else ascii ''{\"open\":false}'')
      in if length text \<le> length buf then (text @ drop (length text) buf, Inr text)
         else (buf, Inl Truncated))"
  by (auto simp: format_onchange_def write_exact_def copy_at_0 finish_def ascii_def Let_def)

end
