(* ===== verification/Json_Grammar.thy ===== *)
theory Json_Grammar
  imports Json_Scanner Mqtt_Encode
begin

text \<open>
  The grammar that the payload scanner accepts, stated on texts and independent of it: JSON
  (RFC 8259) with strings left undecoded, and wider than JSON in one place, numbers, which may have
  leading zeros. The scanner is sound and complete for it, and the parser of status requests returns
  what the grammar says the first top-level \<open>uuid\<close> member is. A \<open>json_document\<close> is a text of the
  grammar without such numbers.
\<close>

subsection \<open>Reading a text\<close>

text \<open>\<open>took s t s'\<close>: the scanner moves from \<open>s\<close> to \<open>s'\<close> over exactly the text \<open>t\<close>.\<close>

primrec took :: "scanner \<Rightarrow> bytes \<Rightarrow> scanner \<Rightarrow> bool" where
  "took s [] s' \<longleftrightarrow> s' = s"
| "took s (b # t) s' \<longleftrightarrow> peek s = Some b \<and> took (advance s) t s'"

lemma took_append: "took s (t @ u) s' \<longleftrightarrow> (\<exists>s1. took s t s1 \<and> took s1 u s')"
  by (induction t arbitrary: s) auto

lemma took_appendI: "took s t s1 \<Longrightarrow> took s1 u s' \<Longrightarrow> took s (t @ u) s'"
  by (auto simp: took_append)

lemma took_pos: "took s t s' \<Longrightarrow> input s' = input s \<and> pos s' = pos s + length t"
  by (induction t arbitrary: s) (auto simp: advance_def)

lemma took_iff:
  "took s t s' \<longleftrightarrow> s' = s\<lparr>pos := pos s + length t\<rparr> \<and> take (length t) (drop (pos s) (input s)) = t"
proof (induction t arbitrary: s)
  case Nil
  then show ?case by simp
next
  case (Cons b t)
  then show ?case
    by (cases "pos s < length (input s)")
      (auto simp: advance_def peek_def Cons_nth_drop_Suc [symmetric])
qed

lemma took_peek: "took s (b # t) s' \<Longrightarrow> peek s = Some b"
  by simp

lemma took_segment: "took s t s' \<Longrightarrow> take (pos s' - pos s) (drop (pos s) (input s')) = t"
  by (auto simp: took_iff)

lemma next_byte_took: "next_byte s = Some (b, s') \<longleftrightarrow> took s [b] s'"
  by (auto simp: next_byte_def advance_def split: option.splits)

lemma next_byte_peek: "next_byte s = (case peek s of None \<Rightarrow> None | Some b \<Rightarrow> Some (b, advance s))"
  by (simp add: next_byte_def advance_def split: option.split)

subsection \<open>Whitespace\<close>

definition white :: "bytes \<Rightarrow> bool" where
  "white w \<longleftrightarrow> (\<forall>b \<in> set w. is_ws b)"

lemma white_simps [simp]:
  "white []" "white (b # w) \<longleftrightarrow> is_ws b \<and> white w" "white (v @ w) \<longleftrightarrow> white v \<and> white w"
  by (auto simp: white_def)

abbreviation at_ws :: "scanner \<Rightarrow> bool" where
  "at_ws s \<equiv> (case peek s of None \<Rightarrow> False | Some b \<Rightarrow> is_ws b)"

lemma skip_ws_took: "\<exists>w. white w \<and> took s w (skip_ws s)"
proof (induction s rule: skip_ws.induct)
  case (1 s)
  show ?case
  proof (cases "at_ws s")
    case True
    then obtain b where b: "peek s = Some b" "is_ws b" by (auto split: option.splits)
    with 1 obtain w where "white w" "took (advance s) w (skip_ws (advance s))" by blast
    with b have "white (b # w) \<and> took s (b # w) (skip_ws s)"
      by (simp add: skip_ws.simps [of s])
    then show ?thesis by blast
  next
    case False
    then have "skip_ws s = s" by (auto simp: skip_ws.simps [of s] split: option.splits)
    then show ?thesis by (intro exI [of _ "[]"]) simp
  qed
qed

lemma skip_ws_id [simp]: "\<not> at_ws s \<Longrightarrow> skip_ws s = s"
  by (auto simp: skip_ws.simps [of s] split: option.splits)

lemma skip_ws_over: "white w \<Longrightarrow> took s w s1 \<Longrightarrow> skip_ws s = skip_ws s1"
  by (induction w arbitrary: s) (auto simp: skip_ws.simps [of s for s])

lemma skip_ws_to: "white w \<Longrightarrow> took s w s1 \<Longrightarrow> \<not> at_ws s1 \<Longrightarrow> skip_ws s = s1"
  using skip_ws_over skip_ws_id by metis

lemma skip_ws_stops [simp]: "\<not> at_ws (skip_ws s)"
proof (induction s rule: skip_ws.induct)
  case (1 s)
  then show ?case
    by (cases "at_ws s") (auto simp: skip_ws.simps [of s] split: option.splits)
qed

lemma skip_ws_idem [simp]: "skip_ws (skip_ws s) = skip_ws s"
  by simp

lemma is_ws_bytes [simp]:
  "\<not> is_ws 0x22" "\<not> is_ws 0x7B" "\<not> is_ws 0x7D" "\<not> is_ws 0x5B" "\<not> is_ws 0x5D"
  "\<not> is_ws 0x2C" "\<not> is_ws 0x3A"
  by (simp_all add: is_ws_def)

subsection \<open>Strings\<close>

fun string_body :: "bytes \<Rightarrow> bool" where
  "string_body [] \<longleftrightarrow> True"
| "string_body (b # bs) \<longleftrightarrow>
     (if b = 0x5C then
        (case bs of
           [] \<Rightarrow> False
         | e # es \<Rightarrow>
             e \<in> simple_escapes \<and> string_body es \<or>
             e = 0x75 \<and> 4 \<le> length es \<and> (\<forall>d \<in> set (take 4 es). is_ascii_hexdigit d) \<and>
               string_body (drop 4 es))
      else b \<noteq> 0x22 \<and> 0x1F < b \<and> string_body bs)"

lemma scan_hex_iff:
  "scan_hex n s = Inr s' \<longleftrightarrow>
     (\<exists>t. took s t s' \<and> length t = n \<and> (\<forall>d \<in> set t. is_ascii_hexdigit d))"
proof (induction n arbitrary: s)
  case 0
  then show ?case by auto
next
  case (Suc n)
  show ?case
  proof
    assume "scan_hex (Suc n) s = Inr s'"
    then obtain b where b: "peek s = Some b" "is_ascii_hexdigit b" "scan_hex n (advance s) = Inr s'"
      by (auto simp: next_byte_peek split: option.splits if_splits)
    with Suc obtain t where "took (advance s) t s'" "length t = n" "\<forall>d \<in> set t. is_ascii_hexdigit d"
      by blast
    with b show "\<exists>t. took s t s' \<and> length t = Suc n \<and> (\<forall>d \<in> set t. is_ascii_hexdigit d)"
      by (intro exI [of _ "b # t"]) auto
  next
    assume "\<exists>t. took s t s' \<and> length t = Suc n \<and> (\<forall>d \<in> set t. is_ascii_hexdigit d)"
    then obtain b t where "took s (b # t) s'" "length t = n" "\<forall>d \<in> set (b # t). is_ascii_hexdigit d"
      by (auto simp: length_Suc_conv)
    with Suc show "scan_hex (Suc n) s = Inr s'" by (auto simp: next_byte_peek)
  qed
qed

lemma scan_hex_took:
  assumes "took s t s'" and "length t = n"
  shows "scan_hex n s = (if \<forall>d \<in> set t. is_ascii_hexdigit d then Inr s' else Inl Malformed)"
  using assms
proof (induction t arbitrary: s n)
  case Nil
  then show ?case by simp
next
  case (Cons b t)
  then show ?case by (cases n) (auto simp: next_byte_peek)
qed

text \<open>
  The loop, entered after the text \<open>pre\<close> of the string has been read, returns exactly at the
  quote that ends the string's body.
\<close>

lemma string_loop_sound:
  assumes "string_loop start s = Inr (str, s')" and "took s0 pre s" and "start = pos s0"
  shows "\<exists>body. string_body body \<and> took s (body @ [0x22]) s' \<and> str = pre @ body \<and> utf8_valid str"
  using assms
proof (induction start s arbitrary: pre rule: string_loop.induct)
  case (1 start s)
  obtain b where b: "peek s = Some b"
    using "1.prems"(1) by (auto simp: string_loop.simps [of start s] next_byte_peek split: option.splits)
  have nb: "next_byte s = Some (b, advance s)" using b by (simp add: next_byte_peek)
  have pre: "took s0 (pre @ [b]) (advance s)" using "1.prems"(2) b by (auto simp: took_append)
  consider (quote) "b = 0x22" | (escape) "b = 0x5C" | (plain) "b \<noteq> 0x22" "b \<noteq> 0x5C" by blast
  then show ?case
  proof cases
    case quote
    have "take (pos (advance s) - 1 - start) (drop start (input (advance s))) = pre"
      using took_segment [OF "1.prems"(2)] "1.prems"(3) by (simp add: advance_def)
    with "1.prems"(1) nb b quote show ?thesis
      by (intro exI [of _ "[]"]) (auto simp: string_loop.simps [of start s] Let_def split: if_splits)
  next
    case plain
    then have "string_loop start (advance s) = Inr (str, s')" and "0x1F < b"
      using "1.prems"(1) nb by (auto simp: string_loop.simps [of start s] split: if_splits)
    with "1.IH"(3) [OF nb refl plain _ _ pre] "1.prems"(3) obtain body where
      "string_body body" "took (advance s) (body @ [0x22]) s'" "str = (pre @ [b]) @ body" "utf8_valid str"
      by fastforce
    with plain b \<open>0x1F < b\<close> show ?thesis by (intro exI [of _ "b # body"]) auto
  next
    case escape
    then obtain e where e: "peek (advance s) = Some e"
      using "1.prems"(1) nb
      by (auto simp: string_loop.simps [of start s] next_byte_peek split: option.splits)
    have ne: "next_byte (advance s) = Some (e, advance (advance s))" using e by (simp add: next_byte_peek)
    have pre2: "took s0 (pre @ [b, e]) (advance (advance s))"
      using pre e by (auto simp: took_append)
    show ?thesis
    proof (cases "e \<in> simple_escapes")
      case True
      then have "string_loop start (advance (advance s)) = Inr (str, s')"
        using "1.prems"(1) nb ne escape by (simp add: string_loop.simps [of start s])
      with "1.IH"(1) [OF nb refl _ escape ne refl True _ pre2] "1.prems"(3) escape obtain body where
        "string_body body" "took (advance (advance s)) (body @ [0x22]) s'"
        "str = (pre @ [b, e]) @ body" "utf8_valid str"
        by fastforce
      with escape b e True show ?thesis by (intro exI [of _ "b # e # body"]) auto
    next
      case False
      with "1.prems"(1) nb ne escape obtain s3 where u: "e = 0x75" and
          s3: "scan_hex 4 (advance (advance s)) = Inr s3" "string_loop start s3 = Inr (str, s')"
        by (auto simp: string_loop.simps [of start s] split: if_splits sum.splits)
      from s3(1) obtain t where t: "took (advance (advance s)) t s3" "length t = 4"
          "\<forall>d \<in> set t. is_ascii_hexdigit d"
        by (auto simp: scan_hex_iff)
      have pre3: "took s0 (pre @ b # e # t) s3"
        using pre2 t by (simp add: took_append) metis
      from "1.IH"(2) [OF nb refl _ escape ne refl False u s3(1) s3(2) pre3] "1.prems"(3) escape
      obtain body where "string_body body" "took s3 (body @ [0x22]) s'"
        "str = (pre @ b # e # t) @ body" "utf8_valid str"
        by fastforce
      moreover from this(2) have "took (advance (advance s)) ((t @ body) @ [0x22]) s'"
        unfolding append_assoc by (rule took_appendI [OF t(1)])
      ultimately show ?thesis
        using escape b e u t by (intro exI [of _ "b # e # t @ body"]) (auto simp del: append_assoc)
    qed
  qed
qed

lemma string_loop_complete:
  assumes "string_body body" and "took s (body @ [0x22]) s'" and "took s0 pre s" and "start = pos s0"
  shows "string_loop start s =
    (if utf8_valid (pre @ body) then Inr (pre @ body, s') else Inl Malformed)"
  using assms
proof (induction body arbitrary: s pre rule: string_body.induct)
  case 1
  then have "take (pos (advance s) - 1 - start) (drop start (input (advance s))) = pre"
    using took_segment [OF "1.prems"(3)] "1.prems"(4) by (simp add: advance_def)
  moreover have "peek s = Some 0x22" and "s' = advance s" using "1.prems"(2) by simp_all
  ultimately show ?case by (simp add: string_loop.simps [of start s] next_byte_peek Let_def)
next
  case (2 b bs)
  have b: "peek s = Some b" and s1: "took (advance s) (bs @ [0x22]) s'" using "2.prems"(2) by simp_all
  have pre: "took s0 (pre @ [b]) (advance s)" using "2.prems"(3) b by (auto simp: took_append)
  show ?case
  proof (cases "b = 0x5C")
    case False
    with "2.prems"(1) b have *: "string_loop start s = string_loop start (advance s)"
      by (auto simp: string_loop.simps [of start s] next_byte_peek dest: leD)
    show ?thesis
      unfolding * using "2.IH"(3) [OF False _ s1 pre] "2.prems"(1,4) False by simp
  next
    case True
    then obtain e es where bs: "bs = e # es" using "2.prems"(1) by (auto split: list.splits)
    have e: "peek (advance s) = Some e" using s1 bs by simp
    have pre2: "took s0 (pre @ [b, e]) (advance (advance s))"
      using pre e by (auto simp: took_append)
    have s2: "took (advance (advance s)) (es @ [0x22]) s'" using s1 bs by simp
    show ?thesis
    proof (cases "e \<in> simple_escapes")
      case simple: True
      then have "e \<noteq> 0x75" by (auto simp: simple_escapes_def)
      with True b e simple have *: "string_loop start s = string_loop start (advance (advance s))"
        by (simp add: string_loop.simps [of start s] next_byte_peek)
      have "string_body es" using "2.prems"(1) True bs \<open>e \<noteq> 0x75\<close> by simp
      from "2.IH"(1) [OF True bs this s2 pre2 "2.prems"(4)] show ?thesis
        unfolding * by (simp add: bs)
    next
      case False
      with "2.prems"(1) True bs have u: "e = 0x75" "4 \<le> length es"
          "\<forall>d \<in> set (take 4 es). is_ascii_hexdigit d" "string_body (drop 4 es)"
        by auto
      obtain s3 where s3: "took (advance (advance s)) (take 4 es) s3"
          "took s3 (drop 4 es @ [0x22]) s'"
      proof -
        have "took (advance (advance s)) (take 4 es @ drop 4 es @ [0x22]) s'"
          using s2 by (simp flip: append_assoc)
        then show thesis unfolding took_append using that by (auto simp: took_append)
      qed
      have "scan_hex 4 (advance (advance s)) = Inr s3"
        using scan_hex_took [OF s3(1)] u by (simp del: scan_hex.simps)
      with True b e False u have *: "string_loop start s = string_loop start s3"
        by (simp add: string_loop.simps [of start s] next_byte_peek)
      have pre3: "took s0 (pre @ b # e # take 4 es) s3"
        using pre2 s3(1) by (simp add: took_append) metis
      from "2.IH"(2) [OF True bs u(4) s3(2) pre3 "2.prems"(4)] show ?thesis
        unfolding * by (simp add: bs)
    qed
  qed
qed

text \<open>A quoted string, as a text: the body between two quotes.\<close>

definition quoted :: "bytes \<Rightarrow> bytes" where
  "quoted body = 0x22 # body @ [0x22]"

definition string_ok :: "bytes \<Rightarrow> bool" where
  "string_ok body \<longleftrightarrow> string_body body \<and> utf8_valid body"

lemma parse_string_raw_sound:
  assumes "parse_string_raw s = Inr (str, s')" and "peek s = Some 0x22"
  shows "took s (quoted str) s'" and "string_ok str"
  using string_loop_sound [of "pos (advance s)" "advance s" str s' "advance s" "[]"] assms
  by (auto simp: parse_string_raw_def quoted_def string_ok_def Let_def)

lemma parse_string_raw_complete:
  assumes "took s (quoted str) s'" and "string_ok str"
  shows "parse_string_raw s = Inr (str, s')"
  using string_loop_complete [of str "advance s" s' "advance s" "[]" "pos (advance s)"] assms
  by (simp add: parse_string_raw_def quoted_def string_ok_def Let_def)

lemma quoted_peek: "took s (quoted str) s' \<Longrightarrow> peek s = Some 0x22"
  by (simp add: quoted_def)

subsection \<open>Literals and numbers\<close>

definition literals :: "bytes set" where
  "literals = {ascii ''true'', ascii ''false'', ascii ''null''}"

lemma starts_with_took:
  "starts_with (drop (pos s) (input s)) l \<longleftrightarrow> took s l (s\<lparr>pos := pos s + length l\<rparr>)"
  by (simp add: starts_with_def took_iff)

lemma skip_literal_sound:
  "skip_literal s = Inr s' \<Longrightarrow> \<exists>l. l \<in> literals \<and> took s l s'"
  by (auto simp: skip_literal_def literals_def starts_with_took split: if_splits)

lemma literal_bytes:
  "ascii ''true'' = [0x74, 0x72, 0x75, 0x65]" "ascii ''false'' = [0x66, 0x61, 0x6C, 0x73, 0x65]"
  "ascii ''null'' = [0x6E, 0x75, 0x6C, 0x6C]"
  by (simp_all add: ascii_def)

lemma literal_peeks:
  "l \<in> literals \<Longrightarrow> took s l s' \<Longrightarrow>
     peek s = Some 0x74 \<and> l = ascii ''true'' \<or> peek s = Some 0x66 \<and> l = ascii ''false'' \<or>
     peek s = Some 0x6E \<and> l = ascii ''null''"
  unfolding literals_def literal_bytes by (elim insertE emptyE) simp_all

lemma skip_literals_only:
  assumes "l \<in> set ls" and "starts_with (drop (pos s) (input s)) l"
    and "\<And>l'. l' \<in> set ls \<Longrightarrow> starts_with (drop (pos s) (input s)) l' \<Longrightarrow> l' = l"
  shows "skip_literals ls s = Inr (s\<lparr>pos := pos s + length l\<rparr>)"
  using assms
proof (induction ls)
  case Nil
  then show ?case by simp
next
  case (Cons l0 ls)
  show ?case
  proof (cases "starts_with (drop (pos s) (input s)) l0")
    case True
    then have "l0 = l" by (intro Cons.prems) simp
    with True show ?thesis by simp
  next
    case False
    then have l: "l \<in> set ls" using Cons.prems(1,2) by auto
    have "l' = l" if "l' \<in> set ls" "starts_with (drop (pos s) (input s)) l'" for l'
      using that by (intro Cons.prems) simp
    from Cons.IH [OF l Cons.prems(2) this] False show ?thesis by simp
  qed
qed

lemma skip_literal_complete:
  assumes "l \<in> literals" and "took s l s'"
  shows "skip_literal s = Inr s'"
proof -
  have s': "s' = s\<lparr>pos := pos s + length l\<rparr>" and *: "starts_with (drop (pos s) (input s)) l"
    using assms(2) by (auto simp: took_iff starts_with_def)
  have uniq: "l' = l" if "l' \<in> literals" "starts_with (drop (pos s) (input s)) l'" for l'
    using literal_peeks [OF assms]
      literal_peeks [OF that(1) starts_with_took [THEN iffD1, OF that(2)]]
    by (elim disjE conjE) simp_all
  have lits: "set [ascii ''true'', ascii ''false'', ascii ''null''] = literals"
    by (simp add: literals_def)
  show ?thesis
    unfolding skip_literal_def s'
    by (rule skip_literals_only [OF _ *]) (simp_all only: lits assms(1), erule (1) uniq)
qed

definition digits :: "bytes \<Rightarrow> bool" where
  "digits t \<longleftrightarrow> t \<noteq> [] \<and> (\<forall>d \<in> set t. is_ascii_digit d)"

abbreviation at_digit :: "scanner \<Rightarrow> bool" where
  "at_digit s \<equiv> (case peek s of None \<Rightarrow> False | Some b \<Rightarrow> is_ascii_digit b)"

lemma digits_loop_took:
  "(\<forall>d \<in> set t. is_ascii_digit d) \<Longrightarrow> took s t s' \<Longrightarrow> \<not> at_digit s' \<Longrightarrow> digits_loop s = s'"
proof (induction t arbitrary: s)
  case Nil
  then show ?case by (auto simp: digits_loop.simps [of s] split: option.splits)
next
  case (Cons b t)
  then show ?case by (auto simp: digits_loop.simps [of s])
qed

lemma digits_loop_sound:
  "\<exists>t. (\<forall>d \<in> set t. is_ascii_digit d) \<and> took s t (digits_loop s)"
proof (induction s rule: digits_loop.induct)
  case (1 s)
  show ?case
  proof (cases "at_digit s")
    case True
    then obtain b where b: "peek s = Some b" "is_ascii_digit b" by (auto split: option.splits)
    with 1 obtain t where "\<forall>d \<in> set t. is_ascii_digit d" "took (advance s) t (digits_loop (advance s))"
      by blast
    with b show ?thesis by (intro exI [of _ "b # t"]) (auto simp: digits_loop.simps [of s])
  next
    case False
    then show ?thesis
      by (intro exI [of _ "[]"]) (auto simp: digits_loop.simps [of s] split: option.splits)
  qed
qed

lemma skip_required_sound:
  assumes "skip_required_digits s = Inr s'"
  shows "\<exists>t. digits t \<and> took s t s'"
proof -
  obtain t where t: "\<forall>d \<in> set t. is_ascii_digit d" "took s t (digits_loop s)"
    using digits_loop_sound by blast
  with assms took_pos [OF t(2)] show ?thesis
    by (intro exI [of _ t]) (auto simp: skip_required_digits_def skip_digits_def digits_def
        Let_def split: if_splits)
qed

lemma skip_required_complete:
  assumes "digits t" and "took s t s'" and "\<not> at_digit s'"
  shows "skip_required_digits s = Inr s'"
  using digits_loop_took [of t s s'] took_pos [OF assms(2)] assms
  by (simp add: skip_required_digits_def skip_digits_def digits_def)

definition integer_text :: "bytes \<Rightarrow> bool" where
  "integer_text i \<longleftrightarrow> (\<exists>sg ds. i = sg @ ds \<and> (sg = [] \<or> sg = [0x2D]) \<and> digits ds)"

definition fraction_text :: "bytes \<Rightarrow> bool" where
  "fraction_text f \<longleftrightarrow> f = [] \<or> (\<exists>ds. f = 0x2E # ds \<and> digits ds)"

definition exponent_text :: "bytes \<Rightarrow> bool" where
  "exponent_text e \<longleftrightarrow> e = [] \<or>
     (\<exists>c sg ds. e = c # sg @ ds \<and> (c = 0x65 \<or> c = 0x45) \<and>
        (sg = [] \<or> sg = [0x2B] \<or> sg = [0x2D]) \<and> digits ds)"

definition number_text :: "bytes \<Rightarrow> bool" where
  "number_text t \<longleftrightarrow>
     (\<exists>i f e. t = i @ f @ e \<and> integer_text i \<and> fraction_text f \<and> exponent_text e)"

lemma skip_integer_sound:
  assumes "skip_integer s = Inr s'"
  shows "\<exists>i. integer_text i \<and> took s i s'"
proof (cases "peek s = Some 0x2D")
  case True
  with assms obtain ds where "digits ds" "took (advance s) ds s'"
    using skip_required_sound [of "advance s" s'] by (auto simp: skip_integer_def)
  moreover from this have "integer_text ([0x2D] @ ds)" unfolding integer_text_def by blast
  ultimately show ?thesis using True by (intro exI [of _ "[0x2D] @ ds"]) auto
next
  case False
  with assms show ?thesis
    using skip_required_sound [of s s'] by (fastforce simp: skip_integer_def integer_text_def)
qed

lemma skip_fraction_sound:
  assumes "skip_fraction s = Inr s'"
  shows "\<exists>f. fraction_text f \<and> took s f s'"
proof (cases "peek s = Some 0x2E")
  case True
  with assms obtain ds where "digits ds" "took (advance s) ds s'"
    using skip_required_sound [of "advance s" s'] by (auto simp: skip_fraction_def)
  with True show ?thesis
    by (intro exI [of _ "0x2E # ds"]) (auto simp: fraction_text_def)
next
  case False
  with assms show ?thesis
    by (intro exI [of _ "[]"]) (simp add: skip_fraction_def fraction_text_def)
qed

lemma skip_exponent_sound:
  assumes "skip_exponent s = Inr s'"
  shows "\<exists>e. exponent_text e \<and> took s e s'"
proof (cases "peek s = Some 0x65 \<or> peek s = Some 0x45")
  case True
  then obtain c where c: "peek s = Some c" "c = 0x65 \<or> c = 0x45" by blast
  let ?s1 = "advance s"
  obtain sg s2 where sg: "took ?s1 sg s2" "sg = [] \<or> sg = [0x2B] \<or> sg = [0x2D]"
      "skip_required_digits s2 = Inr s'"
  proof (cases "peek ?s1 = Some 0x2B \<or> peek ?s1 = Some 0x2D")
    case True
    with assms c that [of "[the (peek ?s1)]" "advance ?s1"] show thesis
      by (auto simp: skip_exponent_def Let_def)
  next
    case False
    with assms c that [of "[]" ?s1] show thesis by (auto simp: skip_exponent_def Let_def)
  qed
  from skip_required_sound [OF sg(3)] obtain ds where "digits ds" "took s2 ds s'" by blast
  with sg c have "exponent_text (c # sg @ ds) \<and> took s (c # sg @ ds) s'"
    by (auto simp: exponent_text_def took_append simp del: append.simps)
  then show ?thesis by blast
next
  case False
  with assms show ?thesis
    by (intro exI [of _ "[]"]) (simp add: skip_exponent_def exponent_text_def)
qed

lemma skip_number_sound: "skip_number s = Inr s' \<Longrightarrow> \<exists>t. number_text t \<and> took s t s'"
proof -
  assume "skip_number s = Inr s'"
  then obtain s1 s2 where "skip_integer s = Inr s1" "skip_fraction s1 = Inr s2"
      "skip_exponent s2 = Inr s'"
    by (auto simp: skip_number_def split: sum.splits)
  then obtain i f e where "integer_text i" "took s i s1" "fraction_text f" "took s1 f s2"
      "exponent_text e" "took s2 e s'"
    using skip_integer_sound skip_fraction_sound skip_exponent_sound by blast
  then have "number_text (i @ f @ e)" "took s (i @ f @ e) s'"
    unfolding number_text_def took_append by blast+
  then show ?thesis by blast
qed

text \<open>A number ends where no digit, point or exponent follows; every delimiter of a value is
  such a place.\<close>

definition value_end :: "scanner \<Rightarrow> bool" where
  "value_end s \<longleftrightarrow>
     (case peek s of None \<Rightarrow> True | Some b \<Rightarrow> is_ws b \<or> b = 0x2C \<or> b = 0x5D \<or> b = 0x7D)"

lemma value_end_not [simp]:
  "value_end s \<Longrightarrow> \<not> at_digit s"
  "value_end s \<Longrightarrow> peek s \<noteq> Some 0x2E"
  "value_end s \<Longrightarrow> peek s \<noteq> Some 0x65"
  "value_end s \<Longrightarrow> peek s \<noteq> Some 0x45"
  by (auto simp: value_end_def is_ws_def is_ascii_digit_def split: option.splits)

lemma digits_peek: "digits ds \<Longrightarrow> took s ds s' \<Longrightarrow> \<exists>d. peek s = Some d \<and> is_ascii_digit d"
  by (cases ds) (auto simp: digits_def)

lemma digit_bytes [simp]:
  "\<not> is_ascii_digit 0x2D" "\<not> is_ascii_digit 0x2B" "\<not> is_ascii_digit 0x2E"
  "\<not> is_ascii_digit 0x65" "\<not> is_ascii_digit 0x45"
  by (simp_all add: is_ascii_digit_def)

lemma skip_integer_complete:
  assumes "integer_text i" and "took s i s'" and "\<not> at_digit s'"
  shows "skip_integer s = Inr s'"
proof -
  obtain sg ds where i: "i = sg @ ds" "sg = [] \<or> sg = [0x2D]" "digits ds"
    using assms(1) by (auto simp: integer_text_def)
  then obtain s1 where s1: "took s sg s1" "took s1 ds s'" using assms(2) by (auto simp: took_append)
  obtain d where d: "peek s1 = Some d" "is_ascii_digit d" using digits_peek [OF i(3) s1(2)] by blast
  from skip_required_complete [OF i(3) s1(2) assms(3)] i(2) s1(1) d show ?thesis
    by (auto simp: skip_integer_def)
qed

lemma skip_fraction_complete:
  assumes "fraction_text f" and "took s f s'" and "\<not> at_digit s'" and "f = [] \<Longrightarrow> peek s' \<noteq> Some 0x2E"
  shows "skip_fraction s = Inr s'"
  using assms skip_required_complete [of _ "advance s" s']
  by (auto simp: skip_fraction_def fraction_text_def)

lemma skip_exponent_complete:
  assumes "exponent_text e" and "took s e s'" and "value_end s'"
  shows "skip_exponent s = Inr s'"
proof (cases "e = []")
  case True
  with assms show ?thesis by (auto simp: skip_exponent_def)
next
  case False
  then obtain c sg ds where e: "e = c # sg @ ds" "c = 0x65 \<or> c = 0x45"
      "sg = [] \<or> sg = [0x2B] \<or> sg = [0x2D]" "digits ds"
    using assms(1) by (auto simp: exponent_text_def)
  then obtain s1 where s1: "peek s = Some c" "took (advance s) sg s1" "took s1 ds s'"
    using assms(2) by (auto simp: took_append)
  obtain d where d: "peek s1 = Some d" "is_ascii_digit d" using digits_peek [OF e(4) s1(3)] by blast
  have "skip_required_digits s1 = Inr s'"
    using skip_required_complete [OF e(4) s1(3)] assms(3) by simp
  with e(2,3) s1 d show ?thesis by (auto simp: skip_exponent_def Let_def)
qed

lemma skip_number_complete:
  assumes "number_text t" and "took s t s'" and "value_end s'"
  shows "skip_number s = Inr s'"
proof -
  obtain i f e where t: "t = i @ f @ e" "integer_text i" "fraction_text f" "exponent_text e"
    using assms(1) by (auto simp: number_text_def)
  then obtain s1 s2 where s: "took s i s1" "took s1 f s2" "took s2 e s'"
    using assms(2) by (auto simp: took_append)
  have e: "skip_exponent s2 = Inr s'" using t(4) s(3) assms(3) by (rule skip_exponent_complete)
  have s2: "\<not> at_digit s2 \<and> peek s2 \<noteq> Some 0x2E"
    using t(4) s(3) assms(3) by (auto simp: exponent_text_def)
  then have f: "skip_fraction s1 = Inr s2" using skip_fraction_complete [OF t(3) s(2)] by blast
  have "\<not> at_digit s1" using t(3) s(2) s2 by (auto simp: fraction_text_def)
  with skip_integer_complete [OF t(2) s(1)] f e show ?thesis by (simp add: skip_number_def)
qed

lemma number_peek:
  "number_text t \<Longrightarrow> took s t s' \<Longrightarrow> \<exists>b. peek s = Some b \<and> (b = 0x2D \<or> is_ascii_digit b)"
  by (fastforce simp: number_text_def integer_text_def took_append dest: digits_peek)

subsection \<open>Keys and separators\<close>

lemma scan_key_sound:
  assumes "scan_key s = Inr (k, s')"
  shows "\<exists>v w. white v \<and> white w \<and> string_ok k \<and> took s (v @ quoted k @ w @ [0x3A]) s'"
proof -
  obtain v where v: "white v" "took s v (skip_ws s)" using skip_ws_took by blast
  obtain s2 where q: "peek (skip_ws s) = Some 0x22" "parse_string_raw (skip_ws s) = Inr (k, s2)"
      and c: "peek (skip_ws s2) = Some 0x3A" "s' = advance (skip_ws s2)"
    using assms by (auto simp: scan_key_def Let_def split: if_splits sum.splits)
  note k = parse_string_raw_sound [OF q(2,1)]
  obtain w where w: "white w" "took s2 w (skip_ws s2)" using skip_ws_took by blast
  have "took (skip_ws s2) [0x3A] s'" using c by simp
  with v k w have "took s (v @ quoted k @ w @ [0x3A]) s'" unfolding took_append by blast
  with v k w show ?thesis by blast
qed

lemma scan_key_complete:
  assumes "white v" and "white w" and "string_ok k" and "took s (v @ quoted k @ w @ [0x3A]) s'"
  shows "scan_key s = Inr (k, s')"
proof -
  obtain s1 s2 s3 where s: "took s v s1" "took s1 (quoted k) s2" "took s2 w s3" "took s3 [0x3A] s'"
    using assms(4) unfolding took_append by blast
  have p1: "peek s1 = Some 0x22" by (rule quoted_peek [OF s(2)])
  have "skip_ws s = s1" by (rule skip_ws_to [OF assms(1) s(1)]) (simp add: p1)
  moreover have "skip_ws s2 = s3" by (rule skip_ws_to [OF assms(2) s(3)]) (use s(4) in simp)
  ultimately show ?thesis
    using parse_string_raw_complete [OF s(2) assms(3)] p1 s(4) by (simp add: scan_key_def)
qed

lemma scan_separator_sound:
  assumes "scan_separator close s = Inr (again, s')"
  shows "\<exists>w. white w \<and> took s (w @ [if again then 0x2C else close]) s'"
proof -
  obtain w where w: "white w" "took s w (skip_ws s)" using skip_ws_took by blast
  have "took (skip_ws s) [if again then 0x2C else close] s'"
    using assms by (auto simp: scan_separator_def Let_def split: option.splits if_splits)
  with w show ?thesis unfolding took_append by blast
qed

lemma scan_separator_complete:
  assumes "white w" and "took s (w @ [if again then 0x2C else close]) s'"
    and "close = 0x5D \<or> close = 0x7D"
  shows "scan_separator close s = Inr (again, s')"
proof -
  obtain s1 where s: "took s w s1" "took s1 [if again then 0x2C else close] s'"
    using assms(2) unfolding took_append by blast
  have "skip_ws s = s1" by (rule skip_ws_to [OF assms(1) s(1)]) (use s(2) assms(3) in auto)
  with s(2) assms(3) show ?thesis by (auto simp: scan_separator_def)
qed

subsection \<open>Values\<close>

datatype json =
    J_String bytes
  | J_Object "(bytes \<times> json) list"
  | J_Array "json list"
  | J_Literal bytes
  | J_Number bytes

text \<open>
  \<open>value_text t v\<close>: \<open>t\<close> is a text of the value \<open>v\<close>; \<open>members_text\<close> and \<open>elements_text\<close> are
  what stands after an opening bracket, up to and with the closing one.
\<close>

inductive value_text :: "bytes \<Rightarrow> json \<Rightarrow> bool"
  and members_text :: "bytes \<Rightarrow> (bytes \<times> json) list \<Rightarrow> bool"
  and elements_text :: "bytes \<Rightarrow> json list \<Rightarrow> bool" where
  string: "string_ok str \<Longrightarrow> value_text (quoted str) (J_String str)"
| empty_object: "white w \<Longrightarrow> value_text (0x7B # w @ [0x7D]) (J_Object [])"
| object: "members_text m ms \<Longrightarrow> value_text (0x7B # m) (J_Object ms)"
| empty_array: "white w \<Longrightarrow> value_text (0x5B # w @ [0x5D]) (J_Array [])"
| array: "elements_text e vs \<Longrightarrow> value_text (0x5B # e) (J_Array vs)"
| literal: "l \<in> literals \<Longrightarrow> value_text l (J_Literal l)"
| number: "number_text n \<Longrightarrow> value_text n (J_Number n)"
| last_member: "white w1 \<Longrightarrow> string_ok k \<Longrightarrow> white w2 \<Longrightarrow> white w3 \<Longrightarrow> value_text t v \<Longrightarrow> white w4 \<Longrightarrow>
    members_text (w1 @ quoted k @ w2 @ 0x3A # w3 @ t @ w4 @ [0x7D]) [(k, v)]"
| member: "white w1 \<Longrightarrow> string_ok k \<Longrightarrow> white w2 \<Longrightarrow> white w3 \<Longrightarrow> value_text t v \<Longrightarrow> white w4 \<Longrightarrow>
    members_text m ms \<Longrightarrow>
    members_text (w1 @ quoted k @ w2 @ 0x3A # w3 @ t @ w4 @ 0x2C # m) ((k, v) # ms)"
| last_element: "white w1 \<Longrightarrow> value_text t v \<Longrightarrow> white w2 \<Longrightarrow>
    elements_text (w1 @ t @ w2 @ [0x5D]) [v]"
| element: "white w1 \<Longrightarrow> value_text t v \<Longrightarrow> white w2 \<Longrightarrow> elements_text e vs \<Longrightarrow>
    elements_text (w1 @ t @ w2 @ 0x2C # e) (v # vs)"

inductive_cases members_textE: "members_text m ms"
inductive_cases object_textE: "value_text t (J_Object ms)"

text \<open>What the scanner keeps of a value.\<close>

fun scanned :: "json \<Rightarrow> scan_value" where
  "scanned (J_String str) = V_String str"
| "scanned _ = V_Other"

text \<open>The body of an object or an array after its opening bracket, as the scanner reads it.\<close>

definition open_or :: "u8 \<Rightarrow> (scanner \<Rightarrow> (status_request_error + scanner) option) \<Rightarrow>
    scanner \<Rightarrow> (status_request_error + scanner) option" where
  "open_or close loop s =
     (let s2 = skip_ws (advance s) in
      if peek s2 = Some close then Some (Inr (advance s2)) else loop s2)"

lemma parse_value_Suc:
  "parse_value (Suc n) s =
     (let s1 = skip_ws s in
      case peek s1 of
        None \<Rightarrow> Some (Inl Malformed)
      | Some b \<Rightarrow>
          if b = 0x22 then Some (map_sum id (map_prod V_String id) (parse_string_raw s1))
          else if b = 0x7B then map_option (map_sum id (Pair V_Other)) (open_or 0x7D (object_loop n) s1)
          else if b = 0x5B then map_option (map_sum id (Pair V_Other)) (open_or 0x5D (array_loop n) s1)
          else if b = 0x74 \<or> b = 0x66 \<or> b = 0x6E then
            Some (map_sum id (Pair V_Other) (skip_literal s1))
          else if b = 0x2D \<or> is_ascii_digit b then
            Some (map_sum id (Pair V_Other) (skip_number s1))
          else Some (Inl Malformed))"
  by (auto simp: open_or_def Let_def split: option.split sum.split)

declare parse_value.simps(2) [simp del]

lemma map_sum_Inr [simp]:
  "map_sum id f y = Inr z \<longleftrightarrow> (\<exists>x. y = Inr x \<and> f x = z)"
  by (cases y) auto

lemma open_or_sound:
  assumes "open_or close loop s = Some (Inr s')"
  shows "(\<exists>w. white w \<and> took (advance s) (w @ [close]) s') \<or>
    (\<exists>w s2. white w \<and> took (advance s) w s2 \<and> loop s2 = Some (Inr s'))"
proof -
  obtain w where w: "white w" "took (advance s) w (skip_ws (advance s))" using skip_ws_took by blast
  show ?thesis
  proof (cases "peek (skip_ws (advance s)) = Some close")
    case True
    then have "took (skip_ws (advance s)) [close] s'" using assms by (simp add: open_or_def)
    with w show ?thesis unfolding took_append by blast
  next
    case False
    with w assms show ?thesis unfolding open_or_def Let_def by auto
  qed
qed

lemma members_text_white: "members_text m ms \<Longrightarrow> white w \<Longrightarrow> members_text (w @ m) ms"
  by (erule members_textE)
    (auto intro: last_member [of "w @ w1" for w1, unfolded append_assoc]
      member [of "w @ w1" for w1, unfolded append_assoc])

lemma elements_text_white: "elements_text e vs \<Longrightarrow> white w \<Longrightarrow> elements_text (w @ e) vs"
  by (erule elements_text.cases)
    (auto intro: last_element [of "w @ w1" for w1, unfolded append_assoc]
      element [of "w @ w1" for w1, unfolded append_assoc])

text \<open>One member or element, from its parts.\<close>

lemma member_took:
  assumes "scan_key s = Inr (k, s1)" and "took s1 (w3 @ t) s2" and "white w3" and "value_text t v"
    and "scan_separator 0x7D s2 = Inr (again, s3)"
    and "if again then took s3 m s' \<and> members_text m ms else s' = s3 \<and> m = [] \<and> ms = []"
  shows "\<exists>m'. members_text m' ((k, v) # ms) \<and> took s m' s'"
proof -
  obtain w1 w2 where k: "white w1" "white w2" "string_ok k" "took s (w1 @ quoted k @ w2 @ [0x3A]) s1"
    using scan_key_sound [OF assms(1)] by blast
  obtain w4 where w4: "white w4" "took s2 (w4 @ [if again then 0x2C else 0x7D]) s3"
    using scan_separator_sound [OF assms(5)] by blast
  let ?m = "w1 @ quoted k @ w2 @ 0x3A # w3 @ t @ w4 @ (if again then 0x2C else 0x7D) # m"
  have m: "took s3 m s'" using assms(6) by (simp split: if_splits)
  have "took s ((w1 @ quoted k @ w2 @ [0x3A]) @ (w3 @ t) @ (w4 @ [if again then 0x2C else 0x7D]) @ m) s'"
    by (rule took_appendI [OF k(4) took_appendI [OF assms(2) took_appendI [OF w4(2) m]]])
  then have "took s ?m s'" by simp
  moreover have "members_text ?m ((k, v) # ms)"
    using k w4(1) assms(3,4,6) last_member [OF k(1,3,2) assms(3,4) w4(1)]
      member [OF k(1,3,2) assms(3,4) w4(1)]
    by (cases again) simp_all
  ultimately show ?thesis by blast
qed

lemma element_took:
  assumes "took s (w1 @ t) s2" and "white w1" and "value_text t v"
    and "scan_separator 0x5D s2 = Inr (again, s3)"
    and "if again then took s3 e s' \<and> elements_text e vs else s' = s3 \<and> e = [] \<and> vs = []"
  shows "\<exists>e'. elements_text e' (v # vs) \<and> took s e' s'"
proof -
  obtain w2 where w2: "white w2" "took s2 (w2 @ [if again then 0x2C else 0x5D]) s3"
    using scan_separator_sound [OF assms(4)] by blast
  let ?e = "w1 @ t @ w2 @ (if again then 0x2C else 0x5D) # e"
  have e: "took s3 e s'" using assms(5) by (simp split: if_splits)
  have "took s ((w1 @ t) @ (w2 @ [if again then 0x2C else 0x5D]) @ e) s'"
    by (rule took_appendI [OF assms(1) took_appendI [OF w2(2) e]])
  then have "took s ?e s'" by simp
  moreover have "elements_text ?e (v # vs)"
    using assms(5) last_element [OF assms(2,3) w2(1)] element [OF assms(2,3) w2(1)]
    by (cases again) simp_all
  ultimately show ?thesis by blast
qed

lemma scan_sound:
  "(parse_value n s = Some (Inr (v, s')) \<longrightarrow>
      (\<exists>w t j. white w \<and> value_text t j \<and> v = scanned j \<and> took s (w @ t) s')) \<and>
   (object_loop n s = Some (Inr s') \<longrightarrow> (\<exists>m ms. members_text m ms \<and> took s m s')) \<and>
   (array_loop n s = Some (Inr s') \<longrightarrow> (\<exists>e vs. elements_text e vs \<and> took s e s'))"
proof (induction n arbitrary: s v s')
  case 0
  then show ?case by simp
next
  case (Suc n)
  note IHv = Suc.IH [THEN conjunct1, rule_format]
  note IHo = Suc.IH [THEN conjunct2, THEN conjunct1, rule_format]
  note IHa = Suc.IH [THEN conjunct2, THEN conjunct2, rule_format]
  show ?case
  proof (intro conjI impI)
    assume A: "parse_value (Suc n) s = Some (Inr (v, s'))"
    let ?s1 = "skip_ws s"
    obtain w where w: "white w" "took s w ?s1" using skip_ws_took by blast
    obtain b where b: "peek ?s1 = Some b"
      using A by (auto simp: parse_value_Suc Let_def split: option.splits)
    have "\<exists>t j. value_text t j \<and> v = scanned j \<and> took ?s1 t s'"
    proof -
      consider (str) "b = 0x22" | (obj) "b = 0x7B" | (arr) "b = 0x5B"
        | (lit) "b \<noteq> 0x22" "b \<noteq> 0x7B" "b \<noteq> 0x5B" "b = 0x74 \<or> b = 0x66 \<or> b = 0x6E"
        | (num) "b \<noteq> 0x22" "b \<noteq> 0x7B" "b \<noteq> 0x5B" "\<not> (b = 0x74 \<or> b = 0x66 \<or> b = 0x6E)"
        by blast
      then show ?thesis
      proof cases
        case str
        then obtain x where x: "parse_string_raw ?s1 = Inr (x, s')" "v = V_String x"
          using A b by (auto simp: parse_value_Suc Let_def)
        show ?thesis
          using parse_string_raw_sound [OF x(1)] b str x(2) string
          by (intro exI [of _ "quoted x"] exI [of _ "J_String x"]) auto
      next
        case obj
        then have x: "open_or 0x7D (object_loop n) ?s1 = Some (Inr s')" and v: "v = V_Other"
          using A b by (auto simp: parse_value_Suc Let_def)
        show ?thesis
        proof (rule disjE [OF open_or_sound [OF x]]; elim exE conjE)
          fix u assume "white u" "took (advance ?s1) (u @ [0x7D]) s'"
          then show ?thesis using obj b v empty_object [of u]
            by (intro exI [of _ "0x7B # u @ [0x7D]"] exI [of _ "J_Object []"]) auto
        next
          fix u s2 assume u: "white u" "took (advance ?s1) u s2" and l: "object_loop n s2 = Some (Inr s')"
          from IHo [OF l] obtain m ms where m: "members_text m ms" "took s2 m s'" by blast
          with u have "took (advance ?s1) (u @ m) s'" by (auto intro: took_appendI)
          with m u obj b v object [OF members_text_white [OF m(1) u(1)]] show ?thesis
            by (intro exI [of _ "0x7B # u @ m"] exI [of _ "J_Object ms"]) auto
        qed
      next
        case arr
        then have x: "open_or 0x5D (array_loop n) ?s1 = Some (Inr s')" and v: "v = V_Other"
          using A b by (auto simp: parse_value_Suc Let_def)
        show ?thesis
        proof (rule disjE [OF open_or_sound [OF x]]; elim exE conjE)
          fix u assume "white u" "took (advance ?s1) (u @ [0x5D]) s'"
          then show ?thesis using arr b v empty_array [of u]
            by (intro exI [of _ "0x5B # u @ [0x5D]"] exI [of _ "J_Array []"]) auto
        next
          fix u s2 assume u: "white u" "took (advance ?s1) u s2" and l: "array_loop n s2 = Some (Inr s')"
          from IHa [OF l] obtain m ms where m: "elements_text m ms" "took s2 m s'" by blast
          with u have "took (advance ?s1) (u @ m) s'" by (auto intro: took_appendI)
          with m u arr b v array [OF elements_text_white [OF m(1) u(1)]] show ?thesis
            by (intro exI [of _ "0x5B # u @ m"] exI [of _ "J_Array ms"]) auto
        qed
      next
        case lit
        then have "skip_literal ?s1 = Inr s'" "v = V_Other"
          using A b by (auto simp: parse_value_Suc Let_def)
        with skip_literal_sound [of ?s1 s'] literal show ?thesis by (metis scanned.simps(4))
      next
        case num
        then have "skip_number ?s1 = Inr s'" "v = V_Other"
          using A b by (auto simp: parse_value_Suc Let_def split: if_splits)
        with skip_number_sound [of ?s1 s'] number show ?thesis by (metis scanned.simps(5))
      qed
    qed
    with w show "\<exists>w t j. white w \<and> value_text t j \<and> v = scanned j \<and> took s (w @ t) s'"
      unfolding took_append by blast
  next
    assume "object_loop (Suc n) s = Some (Inr s')"
    then obtain k s1 x s2 again s3 where *: "scan_key s = Inr (k, s1)"
        "parse_value n s1 = Some (Inr (x, s2))" "scan_separator 0x7D s2 = Inr (again, s3)"
        "if again then object_loop n s3 = Some (Inr s') else s' = s3"
      by (auto split: sum.splits option.splits if_splits)
    from IHv [OF *(2)] obtain w t j where j: "white w" "value_text t j" "took s1 (w @ t) s2" by blast
    obtain m ms where m: "if again then took s3 m s' \<and> members_text m ms else s' = s3 \<and> m = [] \<and> ms = []"
      using *(4) IHo [of s3 s'] by (cases again) auto
    from member_took [OF *(1) j(3,1,2) *(3) m]
    show "\<exists>m ms. members_text m ms \<and> took s m s'" by blast
  next
    assume "array_loop (Suc n) s = Some (Inr s')"
    then obtain x s2 again s3 where *:
        "parse_value n s = Some (Inr (x, s2))" "scan_separator 0x5D s2 = Inr (again, s3)"
        "if again then array_loop n s3 = Some (Inr s') else s' = s3"
      by (auto split: sum.splits option.splits if_splits)
    from IHv [OF *(1)] obtain w t j where j: "white w" "value_text t j" "took s (w @ t) s2" by blast
    obtain e vs where e: "if again then took s3 e s' \<and> elements_text e vs else s' = s3 \<and> e = [] \<and> vs = []"
      using *(3) IHa [of s3 s'] by (cases again) auto
    from element_took [OF j(3,1,2) *(2) e]
    show "\<exists>e vs. elements_text e vs \<and> took s e s'" by blast
  qed
qed

subsection \<open>Completeness\<close>

lemma value_text_peek:
  "value_text t j \<Longrightarrow> took s t s' \<Longrightarrow> \<exists>b. peek s = Some b \<and> \<not> is_ws b \<and> b \<noteq> 0x5D"
proof (erule value_text.cases)
  fix l assume "took s t s'" "t = l" "l \<in> literals"
  then show ?thesis using literal_peeks [of l s s'] by (auto simp: is_ws_def)
next
  fix n assume "took s t s'" "t = n" "number_text n"
  then obtain b where "peek s = Some b" "b = 0x2D \<or> is_ascii_digit b" using number_peek by blast
  then show ?thesis by (auto simp: is_ws_def is_ascii_digit_def)
qed (auto simp: quoted_def)

lemma scan_key_skip_ws [simp]: "scan_key (skip_ws s) = scan_key s"
  by (simp only: scan_key_def skip_ws_idem)

lemma object_loop_skip_ws: "object_loop n (skip_ws s) = object_loop n s"
  by (cases n) simp_all

lemma parse_value_skip_ws: "parse_value n (skip_ws s) = parse_value n s"
  by (cases n) (simp_all only: parse_value.simps(1) parse_value_Suc skip_ws_idem)

lemma array_loop_skip_ws: "array_loop n (skip_ws s) = array_loop n s"
  by (cases n) (simp_all add: parse_value_skip_ws)

lemma open_or_empty:
  assumes "white w" and "took (advance s) (w @ [close]) s'" and "\<not> is_ws close"
  shows "open_or close loop s = Some (Inr s')"
proof -
  obtain s1 where s1: "took (advance s) w s1" "peek s1 = Some close" "s' = advance s1"
    using assms(2) by (auto simp: took_append)
  have "skip_ws (advance s) = s1" by (rule skip_ws_to [OF assms(1) s1(1)]) (simp add: s1 assms)
  with s1 show ?thesis by (simp add: open_or_def)
qed

lemma open_or_loop:
  "peek (skip_ws (advance s)) \<noteq> Some close \<Longrightarrow>
     open_or close loop s = loop (skip_ws (advance s))"
  by (simp add: open_or_def)

lemma members_peek:
  assumes "members_text m ms" and "took s m s'"
  shows "peek (skip_ws s) = Some 0x22"
proof -
  obtain w1 k r where m: "m = w1 @ quoted k @ r" "white w1"
    using assms(1) by (rule members_textE) auto
  then obtain s1 s2 where s1: "took s w1 s1" "took s1 (quoted k) s2"
    using assms(2) by (auto simp: took_append)
  have "skip_ws s = s1" by (rule skip_ws_to [OF m(2) s1(1)]) (simp add: quoted_peek [OF s1(2)])
  then show ?thesis by (simp add: quoted_peek [OF s1(2)])
qed

lemma elements_peek:
  assumes "elements_text e vs" and "took s e s'"
  shows "peek (skip_ws s) \<noteq> Some 0x5D"
proof -
  obtain w1 t v r where e: "e = w1 @ t @ r" "white w1" "value_text t v"
    using assms(1) by (rule elements_text.cases) auto
  then obtain s1 s2 where s1: "took s w1 s1" "took s1 t s2"
    using assms(2) by (auto simp: took_append)
  obtain b where b: "peek s1 = Some b" "\<not> is_ws b" "b \<noteq> 0x5D"
    using value_text_peek [OF e(3) s1(2)] by blast
  have "skip_ws s = s1" by (rule skip_ws_to [OF e(2) s1(1)]) (simp add: b)
  then show ?thesis by (simp add: b)
qed

lemma value_end_white:
  assumes "white w" and "took s (w @ [b]) s'" and "b = 0x2C \<or> b = 0x5D \<or> b = 0x7D"
  shows "value_end s"
  using assms by (cases w) (auto simp: value_end_def)

text \<open>The pieces of a member and of an element, as the loops find them.\<close>

lemma member_pieces:
  assumes "white w1" "string_ok k" "white w2" "white w3" "white w4"
    and "took s (w1 @ quoted k @ w2 @ 0x3A # w3 @ t @ w4 @ b # m) s'"
    and b: "b = (if again then 0x2C else 0x7D)"
  obtains s1 s2 s3 where "scan_key s = Inr (k, s1)" "took s1 (w3 @ t) s2" "value_end s2"
    "scan_separator 0x7D s2 = Inr (again, s3)" "took s3 m s'"
proof -
  have "took s ((w1 @ quoted k @ w2 @ [0x3A]) @ (w3 @ t) @ (w4 @ [b]) @ m) s'"
    using assms(6) by simp
  then obtain s1 s2 s3 where s: "took s (w1 @ quoted k @ w2 @ [0x3A]) s1" "took s1 (w3 @ t) s2"
      "took s2 (w4 @ [b]) s3" "took s3 m s'"
    by (subst (asm) took_append, elim exE conjE, subst (asm) took_append, elim exE conjE,
      subst (asm) took_append, elim exE conjE) blast
  show thesis
  proof (rule that)
    show "scan_key s = Inr (k, s1)" by (rule scan_key_complete [OF assms(1,3,2) s(1)])
    show "value_end s2" by (rule value_end_white [OF assms(5) s(3)]) (simp add: b)
    show "scan_separator 0x7D s2 = Inr (again, s3)"
      using scan_separator_complete [OF assms(5) s(3) [unfolded b]] by simp
  qed (use s in simp_all)
qed

lemma element_pieces:
  assumes "white w2" and "took s (w1 @ t @ w2 @ b # e) s'" and b: "b = (if again then 0x2C else 0x5D)"
  obtains s2 s3 where "took s (w1 @ t) s2" "value_end s2"
    "scan_separator 0x5D s2 = Inr (again, s3)" "took s3 e s'"
proof -
  have "took s ((w1 @ t) @ (w2 @ [b]) @ e) s'" using assms(2) by simp
  then obtain s2 s3 where s: "took s (w1 @ t) s2" "took s2 (w2 @ [b]) s3" "took s3 e s'"
    by (subst (asm) took_append, elim exE conjE, subst (asm) took_append, elim exE conjE) blast
  show thesis
  proof (rule that)
    show "value_end s2" by (rule value_end_white [OF assms(1) s(2)]) (simp add: b)
    show "scan_separator 0x5D s2 = Inr (again, s3)"
      using scan_separator_complete [OF assms(1) s(2) [unfolded b]] by simp
  qed (use s in simp_all)
qed

text \<open>A value read after whitespace: its first byte selects the branch.\<close>

lemma value_after_white:
  assumes "white w" and "took s (w @ t) s'" and "value_text t j"
  obtains b where "took (skip_ws s) t s'" "peek (skip_ws s) = Some b" "\<not> is_ws b"
proof -
  obtain s1 where s1: "took s w s1" "took s1 t s'" using assms(2) by (auto simp: took_append)
  obtain b where b: "peek s1 = Some b" "\<not> is_ws b" using value_text_peek [OF assms(3) s1(2)] by blast
  have "skip_ws s = s1" by (rule skip_ws_to [OF assms(1) s1(1)]) (simp add: b)
  with s1 b that show thesis by simp
qed

text \<open>\<open>None\<close> is running out of fuel, which is excluded separately.\<close>

definition reads_value :: "bytes \<Rightarrow> json \<Rightarrow> bool" where
  "reads_value t j \<longleftrightarrow> (\<forall>n s w s'. white w \<longrightarrow> took s (w @ t) s' \<longrightarrow> value_end s' \<longrightarrow>
     parse_value n s \<noteq> None \<longrightarrow> parse_value n s = Some (Inr (scanned j, s')))"

definition reads_loop :: "(nat \<Rightarrow> scanner \<Rightarrow> (status_request_error + scanner) option) \<Rightarrow> bytes \<Rightarrow> bool" where
  "reads_loop loop m \<longleftrightarrow> (\<forall>n s s'. took s m s' \<longrightarrow> loop n s \<noteq> None \<longrightarrow> loop n s = Some (Inr s'))"

lemma reads_valueD:
  "reads_value t j \<Longrightarrow> white w \<Longrightarrow> took s (w @ t) s' \<Longrightarrow> value_end s' \<Longrightarrow>
     parse_value n s \<noteq> None \<Longrightarrow> parse_value n s = Some (Inr (scanned j, s'))"
  by (simp add: reads_value_def)

lemma reads_valueI:
  assumes "value_text t j"
    and "\<And>n s s' b. took s t s' \<Longrightarrow> peek s = Some b \<Longrightarrow> \<not> is_ws b \<Longrightarrow> value_end s' \<Longrightarrow>
      parse_value (Suc n) s \<noteq> None \<Longrightarrow> parse_value (Suc n) s = Some (Inr (scanned j, s'))"
  shows "reads_value t j"
  unfolding reads_value_def
proof (intro allI impI)
  fix n s w s'
  assume w: "white w" "took s (w @ t) s'" and e: "value_end s'" and p: "parse_value n s \<noteq> None"
  obtain b where b: "took (skip_ws s) t s'" "peek (skip_ws s) = Some b" "\<not> is_ws b"
    using value_after_white [OF w assms(1)] .
  from p obtain k where n: "n = Suc k" by (cases n) auto
  from assms(2) [OF b e, of k] p show "parse_value n s = Some (Inr (scanned j, s'))"
    by (simp add: n parse_value_skip_ws)
qed

lemma parse_value_string:
  "peek s = Some 0x22 \<Longrightarrow>
     parse_value (Suc n) s = Some (map_sum id (map_prod V_String id) (parse_string_raw s))"
  by (simp add: parse_value_Suc)

lemma parse_value_object:
  "peek s = Some 0x7B \<Longrightarrow>
     parse_value (Suc n) s = map_option (map_sum id (Pair V_Other)) (open_or 0x7D (object_loop n) s)"
  by (simp add: parse_value_Suc)

lemma parse_value_array:
  "peek s = Some 0x5B \<Longrightarrow>
     parse_value (Suc n) s = map_option (map_sum id (Pair V_Other)) (open_or 0x5D (array_loop n) s)"
  by (simp add: parse_value_Suc)

lemma parse_value_literal:
  assumes "l \<in> literals" "took s l s'"
  shows "parse_value (Suc n) s = Some (Inr (V_Other, s'))"
  using literal_peeks [OF assms] skip_literal_complete [OF assms]
  by (elim disjE) (auto simp: parse_value_Suc is_ws_def)

lemma parse_value_number:
  assumes "number_text t" "took s t s'" "value_end s'"
  shows "parse_value (Suc n) s = Some (Inr (V_Other, s'))"
proof -
  obtain b where b: "peek s = Some b" "b = 0x2D \<or> is_ascii_digit b"
    using number_peek [OF assms(1,2)] by blast
  moreover from b(2) have "\<not> is_ws b" "b \<noteq> 0x22" "b \<noteq> 0x7B" "b \<noteq> 0x5B" "b \<noteq> 0x74" "b \<noteq> 0x66" "b \<noteq> 0x6E"
    by (auto simp: is_ws_def is_ascii_digit_def)
  ultimately show ?thesis using skip_number_complete [OF assms] by (simp add: parse_value_Suc)
qed

lemma scan_complete:
  "value_text t j \<Longrightarrow> reads_value t j"
  "members_text m ms \<Longrightarrow> reads_loop object_loop m"
  "elements_text e vs \<Longrightarrow> reads_loop array_loop e"
proof (induction rule: value_text_members_text_elements_text.inducts)
  case (string str)
  show ?case
  proof (rule reads_valueI)
    fix n s s' assume "took s (quoted str) s'"
    with string show "parse_value (Suc n) s = Some (Inr (scanned (J_String str), s'))"
      by (simp add: parse_value_string quoted_peek parse_string_raw_complete)
  qed (rule value_text_members_text_elements_text.string [OF string])
next
  case (empty_object w)
  show ?case
  proof (rule reads_valueI)
    fix n s s' assume "took s (0x7B # w @ [0x7D]) s'"
    with empty_object show "parse_value (Suc n) s = Some (Inr (scanned (J_Object []), s'))"
      by (simp add: parse_value_object open_or_empty)
  qed (rule value_text_members_text_elements_text.empty_object [OF empty_object])
next
  case (object m ms)
  show ?case
  proof (rule reads_valueI)
    fix n s s' assume t: "took s (0x7B # m) s'" and p: "parse_value (Suc n) s \<noteq> None"
    then have "open_or 0x7D (object_loop n) s = object_loop n (advance s)"
      using members_peek [OF object.hyps, of "advance s" s']
      by (subst open_or_loop) (simp_all add: object_loop_skip_ws)
    with t p object.IH show "parse_value (Suc n) s = Some (Inr (scanned (J_Object ms), s'))"
      by (auto simp: parse_value_object reads_loop_def)
  qed (rule value_text_members_text_elements_text.object [OF object.hyps])
next
  case (empty_array w)
  show ?case
  proof (rule reads_valueI)
    fix n s s' assume "took s (0x5B # w @ [0x5D]) s'"
    with empty_array show "parse_value (Suc n) s = Some (Inr (scanned (J_Array []), s'))"
      by (simp add: parse_value_array open_or_empty)
  qed (rule value_text_members_text_elements_text.empty_array [OF empty_array])
next
  case (array e vs)
  show ?case
  proof (rule reads_valueI)
    fix n s s' assume t: "took s (0x5B # e) s'" and p: "parse_value (Suc n) s \<noteq> None"
    then have "open_or 0x5D (array_loop n) s = array_loop n (advance s)"
      using elements_peek [OF array.hyps, of "advance s" s']
      by (subst open_or_loop) (simp_all add: array_loop_skip_ws)
    with t p array.IH show "parse_value (Suc n) s = Some (Inr (scanned (J_Array vs), s'))"
      by (auto simp: parse_value_array reads_loop_def)
  qed (rule value_text_members_text_elements_text.array [OF array.hyps])
next
  case (literal l)
  then show ?case
    by (intro reads_valueI value_text_members_text_elements_text.literal)
      (simp_all add: parse_value_literal)
next
  case (number n)
  then show ?case
    by (intro reads_valueI value_text_members_text_elements_text.number)
      (simp_all add: parse_value_number)
next
  case (last_member w1 k w2 w3 t v w4)
  show ?case
    unfolding reads_loop_def
  proof (intro allI impI)
    fix n s s' assume t: "took s (w1 @ quoted k @ w2 @ 0x3A # w3 @ t @ w4 @ [0x7D]) s'"
      and p: "object_loop n s \<noteq> None"
    obtain s1 s2 s3 where s: "scan_key s = Inr (k, s1)" "took s1 (w3 @ t) s2" "value_end s2"
        "scan_separator 0x7D s2 = Inr (False, s3)" "took s3 [] s'"
      by (rule member_pieces [OF last_member(1-4,6) t, of False]) simp_all
    obtain n' where n: "n = Suc n'" using p by (cases n) auto
    have "parse_value n' s1 \<noteq> None" using p s(1) by (auto simp: n split: option.splits)
    from reads_valueD [OF last_member.IH last_member(4) s(2,3) this] s n
    show "object_loop n s = Some (Inr s')" by simp
  qed
next
  case (member w1 k w2 w3 t v w4 m ms)
  show ?case
    unfolding reads_loop_def
  proof (intro allI impI)
    fix n s s' assume t: "took s (w1 @ quoted k @ w2 @ 0x3A # w3 @ t @ w4 @ 0x2C # m) s'"
      and p: "object_loop n s \<noteq> None"
    obtain s1 s2 s3 where s: "scan_key s = Inr (k, s1)" "took s1 (w3 @ t) s2" "value_end s2"
        "scan_separator 0x7D s2 = Inr (True, s3)" "took s3 m s'"
      by (rule member_pieces [OF member(1-4,6) t, of True]) simp_all
    obtain n' where n: "n = Suc n'" using p by (cases n) auto
    have "parse_value n' s1 \<noteq> None" using p s(1) by (auto simp: n split: option.splits)
    from reads_valueD [OF member.IH(1) member(4) s(2,3) this] s n p member.IH(2)
    show "object_loop n s = Some (Inr s')" by (simp add: reads_loop_def)
  qed
next
  case (last_element w1 t v w2)
  show ?case
    unfolding reads_loop_def
  proof (intro allI impI)
    fix n s s' assume t: "took s (w1 @ t @ w2 @ [0x5D]) s'" and p: "array_loop n s \<noteq> None"
    obtain s2 s3 where s: "took s (w1 @ t) s2" "value_end s2"
        "scan_separator 0x5D s2 = Inr (False, s3)" "took s3 [] s'"
      by (rule element_pieces [OF last_element(3) t, of False]) simp_all
    obtain n' where n: "n = Suc n'" using p by (cases n) auto
    have "parse_value n' s \<noteq> None" using p by (auto simp: n split: option.splits)
    from reads_valueD [OF last_element.IH last_element(1) s(1,2) this] s n
    show "array_loop n s = Some (Inr s')" by simp
  qed
next
  case (element w1 t v w2 e vs)
  show ?case
    unfolding reads_loop_def
  proof (intro allI impI)
    fix n s s' assume t: "took s (w1 @ t @ w2 @ 0x2C # e) s'" and p: "array_loop n s \<noteq> None"
    obtain s2 s3 where s: "took s (w1 @ t) s2" "value_end s2"
        "scan_separator 0x5D s2 = Inr (True, s3)" "took s3 e s'"
      by (rule element_pieces [OF element(3) t, of True]) simp_all
    obtain n' where n: "n = Suc n'" using p by (cases n) auto
    have "parse_value n' s \<noteq> None" using p by (auto simp: n split: option.splits)
    from reads_valueD [OF element.IH(1) element(1) s(1,2) this] s n p element.IH(2)
    show "array_loop n s = Some (Inr s')" by (simp add: reads_loop_def)
  qed
qed

subsection \<open>The fuel is enough\<close>

definition left :: "scanner \<Rightarrow> nat" where
  "left s = length (input s) - pos s"

lemma took_left: "took s t s' \<Longrightarrow> left s = left s' + length t"
proof -
  assume t: "took s t s'"
  then have "length t \<le> length (input s) - pos s"
    by (metis took_iff length_drop length_take min.cobounded1 min.commute)
  with took_pos [OF t] show ?thesis by (simp add: left_def)
qed

lemma left_skip_ws: "left (skip_ws s) \<le> left s"
  using skip_ws_took [of s] by (auto dest: took_left)

lemma left_advance: "peek s = Some b \<Longrightarrow> left s = Suc (left (advance s))"
  using took_left [of s "[b]" "advance s"] by simp

lemma left_scan_key: "scan_key s = Inr (k, s') \<Longrightarrow> left s' < left s"
  by (auto dest!: scan_key_sound took_left)

lemma left_parse_value: "parse_value n s = Some (Inr (v, s')) \<Longrightarrow> left s' \<le> left s"
  using scan_sound [of n s v s'] by (auto dest!: took_left)

lemma left_scan_separator: "scan_separator close s = Inr (again, s') \<Longrightarrow> left s' < left s"
  by (auto dest!: scan_separator_sound took_left)

lemmas left_facts = left_scan_key left_parse_value left_scan_separator

lemma open_or_enough:
  assumes "peek s = Some b" and "\<And>s'. left s' < left s \<Longrightarrow> loop s' \<noteq> None"
  shows "open_or close loop s \<noteq> None"
  using assms(2) [of "skip_ws (advance s)"] left_skip_ws [of "advance s"] left_advance [OF assms(1)]
  by (simp add: open_or_def Let_def)

lemma fuel_enough:
  "(2 * left s + 1 \<le> n \<longrightarrow> parse_value n s \<noteq> None) \<and>
   (2 * left s + 2 \<le> n \<longrightarrow> object_loop n s \<noteq> None \<and> array_loop n s \<noteq> None)"
proof (induction n arbitrary: s)
  case 0
  then show ?case by simp
next
  case (Suc n)
  note V = Suc.IH [THEN conjunct1, rule_format]
  note L = Suc.IH [THEN conjunct2, rule_format]
  show ?case
  proof (intro conjI impI)
    assume n: "2 * left s + 1 \<le> Suc n"
    have "open_or 0x7D (object_loop n) (skip_ws s) \<noteq> None" if "peek (skip_ws s) = Some b" for b
      using that by (rule open_or_enough) (use n left_skip_ws [of s] L in auto)
    moreover have "open_or 0x5D (array_loop n) (skip_ws s) \<noteq> None" if "peek (skip_ws s) = Some b" for b
      using that by (rule open_or_enough) (use n left_skip_ws [of s] L in auto)
    ultimately show "parse_value (Suc n) s \<noteq> None"
      by (auto simp: parse_value_Suc Let_def split: option.splits)
  next
    assume n: "2 * left s + 2 \<le> Suc n"
    have V': "\<exists>x. parse_value n s1 = Some x" if "left s1 \<le> left s" for s1
      using V [of s1] that n by auto
    have L': "object_loop n s3 \<noteq> None" "array_loop n s3 \<noteq> None" if "left s3 < left s" for s3
      using L [of s3] that n by auto
    show "object_loop (Suc n) s \<noteq> None"
    proof
      assume none: "object_loop (Suc n) s = None"
      then obtain k s1 where k: "scan_key s = Inr (k, s1)" by (auto split: sum.splits)
      obtain x where "parse_value n s1 = Some x" using V' left_scan_key [OF k] by force
      with none k obtain v s2 s3 where s: "parse_value n s1 = Some (Inr (v, s2))"
          "scan_separator 0x7D s2 = Inr (True, s3)" "object_loop n s3 = None"
        by (auto split: sum.splits if_splits)
      with L'(1) [of s3] left_scan_key [OF k] left_parse_value [OF s(1)] left_scan_separator [OF s(2)]
      show False by simp
    qed
    show "array_loop (Suc n) s \<noteq> None"
    proof
      assume none: "array_loop (Suc n) s = None"
      obtain x where "parse_value n s = Some x" using V' by force
      with none obtain v s2 s3 where s: "parse_value n s = Some (Inr (v, s2))"
          "scan_separator 0x5D s2 = Inr (True, s3)" "array_loop n s3 = None"
        by (auto split: sum.splits if_splits)
      with L'(2) [of s3] left_parse_value [OF s(1)] left_scan_separator [OF s(2)]
      show False by simp
    qed
  qed
qed

lemma request_fuel_enough: "2 * left s + 2 \<le> n \<Longrightarrow> request_loop n found s \<noteq> None"
proof (induction n arbitrary: s found)
  case 0
  then show ?case by simp
next
  case (Suc n)
  have V: "left s' \<le> left s \<Longrightarrow> parse_value n s' \<noteq> None" for s'
    using fuel_enough [of s' n] Suc.prems by simp
  show ?case
  proof (cases "scan_key s")
    case (Inr r)
    then obtain k s1 where k: "scan_key s = Inr (k, s1)" by (cases r) simp
    then obtain x where x: "parse_value n s1 = Some x" using V [of s1] left_scan_key [OF k] by auto
    show ?thesis
    proof (cases x)
      case (Inr y)
      then obtain v s2 where v: "parse_value n s1 = Some (Inr (v, s2))" using x by (cases y) simp
      have "request_loop n f s3 \<noteq> None" if "scan_separator 0x7D s2 = Inr (True, s3)" for f s3
        using left_scan_key [OF k] left_parse_value [OF v] left_scan_separator [OF that] Suc.prems
        by (intro Suc.IH) simp
      with k v show ?thesis by (auto split: sum.splits if_splits scan_value.splits)
    qed (use k x in simp)
  qed simp
qed

subsection \<open>The request\<close>

text \<open>The first \<open>uuid\<close> member decides, and nothing else of the object.\<close>

fun pick :: "bytes option \<Rightarrow> (bytes \<times> json) list \<Rightarrow> status_request_error + bytes option" where
  "pick found [] = Inr found"
| "pick found ((k, v) # ms) =
     (if k = ascii ''uuid'' \<and> found = None
      then (case v of J_String uuid \<Rightarrow> pick (Some uuid) ms | _ \<Rightarrow> Inl UuidNotString)
      else pick found ms)"

lemma pick_Some [simp]: "pick (Some uuid) ms = Inr (Some uuid)"
  by (induction ms) auto

lemma pick_None:
  "pick None ms =
     (case map_of ms (ascii ''uuid'') of
        None \<Rightarrow> Inr None | Some (J_String uuid) \<Rightarrow> Inr (Some uuid) | Some _ \<Rightarrow> Inl UuidNotString)"
  by (induction ms) (auto split: json.splits)

definition pick_value :: "bytes \<Rightarrow> bytes option \<Rightarrow> scan_value \<Rightarrow> status_request_error + bytes option" where
  "pick_value k found v =
     (if k = ascii ''uuid'' \<and> found = None
      then (case v of V_String uuid \<Rightarrow> Inr (Some uuid) | V_Other \<Rightarrow> Inl UuidNotString)
      else Inr found)"

lemma pick_Cons:
  "pick found ((k, v) # ms) =
     (case pick_value k found (scanned v) of Inl e \<Rightarrow> Inl e | Inr f \<Rightarrow> pick f ms)"
  by (cases v) (simp_all add: pick_value_def)

lemma request_loop_Suc:
  "request_loop (Suc n) found s =
     (case scan_key s of
        Inl e \<Rightarrow> Some (Inl e)
      | Inr (key, s1) \<Rightarrow>
          (case parse_value n s1 of
             None \<Rightarrow> None
           | Some (Inl e) \<Rightarrow> Some (Inl e)
           | Some (Inr (v, s2)) \<Rightarrow>
               (case pick_value key found v of
                  Inl e \<Rightarrow> Some (Inl e)
                | Inr found' \<Rightarrow>
                    (case scan_separator 0x7D s2 of
                       Inl e \<Rightarrow> Some (Inl e)
                     | Inr (again, s3) \<Rightarrow>
                         if again then request_loop n found' s3
                         else Some (Inr (found', s3))))))"
  unfolding pick_value_def by (rule request_loop.simps)

declare request_loop.simps(2) [simp del]

lemma request_loop_sound:
  "request_loop n found s = Some (Inr (f, s')) \<Longrightarrow>
     \<exists>m ms. members_text m ms \<and> took s m s' \<and> pick found ms = Inr f"
proof (induction n arbitrary: found s)
  case 0
  then show ?case by simp
next
  case (Suc n)
  from Suc.prems obtain k s1 v s2 found' again s3 where *: "scan_key s = Inr (k, s1)"
      "parse_value n s1 = Some (Inr (v, s2))" "pick_value k found v = Inr found'"
      "scan_separator 0x7D s2 = Inr (again, s3)"
      "if again then request_loop n found' s3 = Some (Inr (f, s')) else f = found' \<and> s' = s3"
    by (auto simp: request_loop_Suc split: sum.splits option.splits if_splits)
  obtain w t j where j: "white w" "value_text t j" "v = scanned j" "took s1 (w @ t) s2"
    using scan_sound [of n s1 v s2] *(2) by blast
  obtain m ms where m: "if again then took s3 m s' \<and> members_text m ms else s' = s3 \<and> m = [] \<and> ms = []"
      and p: "pick found' ms = Inr f"
    using *(5) Suc.IH [of found' s3] by (cases again) auto
  from member_took [OF *(1) j(4,1,2) *(4) m] obtain m' where
    "members_text m' ((k, j) # ms)" "took s m' s'" by blast
  moreover have "pick found ((k, j) # ms) = Inr f" using *(3) p j(3) by (simp add: pick_Cons del: pick.simps)
  ultimately show ?case by blast
qed

lemma request_loop_complete:
  "members_text m ms \<Longrightarrow> took s m s' \<Longrightarrow> request_loop n found s \<noteq> None \<Longrightarrow>
     request_loop n found s = Some (map_sum id (\<lambda>f. (f, s')) (pick found ms))"
proof (induction ms arbitrary: m n found s)
  case Nil
  then show ?case by (auto elim: members_textE)
next
  case (Cons kv ms)
  obtain k v where kv: "kv = (k, v)" by (cases kv)
  obtain n' where n: "n = Suc n'" using Cons.prems(3) by (cases n) auto
  obtain w1 w2 w3 t w4 again r where m:
      "m = w1 @ quoted k @ w2 @ 0x3A # w3 @ t @ w4 @ (if again then 0x2C else 0x7D) # r"
      "white w1" "string_ok k" "white w2" "white w3" "value_text t v" "white w4"
      "if again then members_text r ms else r = [] \<and> ms = []"
  proof (cases rule: members_textE [OF Cons.prems(1)])
    case (1 w1 k' w2 w3 t v' w4)
    with that [of w1 w2 w3 t w4 False "[]"] kv show thesis by simp
  next
    case (2 w1 k' w2 w3 t v' w4 r ms')
    with that [of w1 w2 w3 t w4 True r] kv show thesis by simp
  qed
  obtain s1 s2 s3 where s: "scan_key s = Inr (k, s1)" "took s1 (w3 @ t) s2" "value_end s2"
      "scan_separator 0x7D s2 = Inr (again, s3)" "took s3 r s'"
    using member_pieces [OF m(2-5,7) Cons.prems(2) [unfolded m(1)] refl] .
  have "parse_value n' s1 \<noteq> None"
    using Cons.prems(3) s(1) by (auto simp: n request_loop_Suc split: option.splits)
  then have v: "parse_value n' s1 = Some (Inr (scanned v, s2))"
    using reads_valueD [OF scan_complete(1) [OF m(6)] m(5) s(2,3)] by simp
  show ?case
  proof (cases "pick_value k found (scanned v)")
    case (Inl e)
    then show ?thesis by (simp add: n request_loop_Suc s v kv pick_Cons del: pick.simps)
  next
    case (Inr found')
    show ?thesis
    proof (cases again)
      case False
      with m(8) s(5) Inr show ?thesis
        by (simp add: n request_loop_Suc s v kv pick_Cons del: pick.simps(2))
    next
      case True
      then have "request_loop n' found' s3 \<noteq> None"
        using Cons.prems(3) Inr s v by (simp add: n request_loop_Suc)
      with Cons.IH [of r s3 n' found'] True m(8) s Inr show ?thesis
        by (simp add: n request_loop_Suc v kv pick_Cons del: pick.simps(2))
    qed
  qed
qed

text \<open>A document: one object, with whitespace around it.\<close>

definition document :: "bytes \<Rightarrow> (bytes \<times> json) list \<Rightarrow> bool" where
  "document p ms \<longleftrightarrow>
     (\<exists>w1 t w2. p = w1 @ t @ w2 \<and> white w1 \<and> white w2 \<and> value_text t (J_Object ms))"

text \<open>JSON proper has no zero in front of another digit of the integer part.\<close>

definition padded :: "bytes \<Rightarrow> bool" where
  "padded t \<longleftrightarrow>
     (let ds = (if take 1 t = [0x2D] then drop 1 t else t) in
      2 \<le> length ds \<and> ds ! 0 = 0x30 \<and> is_ascii_digit (ds ! 1))"

fun plain_numbers :: "json \<Rightarrow> bool" where
  "plain_numbers (J_Number t) \<longleftrightarrow> \<not> padded t"
| "plain_numbers (J_Object ms) \<longleftrightarrow> list_all plain_numbers (map snd ms)"
| "plain_numbers (J_Array vs) \<longleftrightarrow> list_all plain_numbers vs"
| "plain_numbers _ \<longleftrightarrow> True"

definition json_document :: "bytes \<Rightarrow> (bytes \<times> json) list \<Rightarrow> bool" where
  "json_document p ms \<longleftrightarrow> document p ms \<and> plain_numbers (J_Object ms)"

definition request_result :: "(bytes \<times> json) list \<Rightarrow> status_request_error + bytes" where
  "request_result ms =
     (case map_of ms (ascii ''uuid'') of
        None \<Rightarrow> Inl MissingUuid
      | Some (J_String uuid) \<Rightarrow> if uuid = [] then Inl EmptyUuid else Inr uuid
      | Some _ \<Rightarrow> Inl UuidNotString)"

lemma request_result_pick:
  "request_result ms =
     (case pick None ms of
        Inl e \<Rightarrow> Inl e
      | Inr None \<Rightarrow> Inl MissingUuid
      | Inr (Some uuid) \<Rightarrow> if uuid = [] then Inl EmptyUuid else Inr uuid)"
  by (auto simp: request_result_def pick_None split: option.split json.split)

lemma request_result_iff:
  "request_result ms = Inl MissingUuid \<longleftrightarrow> map_of ms (ascii ''uuid'') = None"
  "request_result ms = Inl EmptyUuid \<longleftrightarrow> map_of ms (ascii ''uuid'') = Some (J_String [])"
  by (simp_all add: request_result_def split: option.split json.split)

lemma took_whole:
  "took \<lparr>input = p, pos = 0\<rparr> t s' \<Longrightarrow> pos s' = length (input s') \<Longrightarrow> p = t"
  by (auto simp: took_iff)

lemma took_all: "took \<lparr>input = p, pos = 0\<rparr> p \<lparr>input = p, pos = length p\<rparr>"
  by (simp add: took_iff)

text \<open>The body of the top-level object.\<close>

definition request_body :: "bytes \<Rightarrow> scanner \<Rightarrow> (status_request_error + bytes option \<times> scanner) option" where
  "request_body payload s0 =
     (let s1 = skip_ws (advance s0) in
      if peek s1 = Some 0x7D then Some (Inr (None, advance s1))
      else request_loop (scan_fuel payload) None s1)"

lemma request_body_some:
  assumes "peek s0 = Some b" and "input s0 = p"
  shows "request_body p s0 \<noteq> None"
proof -
  have "left s0 \<le> length p" using assms(2) by (simp add: left_def)
  then show ?thesis
    using request_fuel_enough [of "skip_ws (advance s0)" "scan_fuel p" None]
      left_skip_ws [of "advance s0"] left_advance [OF assms(1)]
    by (auto simp: request_body_def scan_fuel_def Let_def)
qed

lemma request_body_sound:
  assumes "request_body p s0 = Some (Inr (f, s'))" and "peek s0 = Some 0x7B"
  shows "\<exists>t ms. value_text t (J_Object ms) \<and> took s0 t s' \<and> pick None ms = Inr f"
proof -
  obtain w where w: "white w" "took (advance s0) w (skip_ws (advance s0))" using skip_ws_took by blast
  show ?thesis
  proof (cases "peek (skip_ws (advance s0)) = Some 0x7D")
    case True
    then have "f = None" "took (skip_ws (advance s0)) [0x7D] s'"
      using assms(1) by (auto simp: request_body_def)
    moreover from this w assms(2) have "took s0 (0x7B # w @ [0x7D]) s'" by (auto simp: took_append)
    ultimately show ?thesis using empty_object [OF w(1)] by (intro exI conjI) auto
  next
    case False
    then obtain m ms where m: "members_text m ms" "took (skip_ws (advance s0)) m s'" "pick None ms = Inr f"
      using assms(1) request_loop_sound by (fastforce simp: request_body_def)
    with w assms(2) have "took s0 (0x7B # w @ m) s'" by (auto simp: took_append)
    with m object [OF members_text_white [OF m(1) w(1)]] show ?thesis by blast
  qed
qed

lemma request_loop_skip_ws: "request_loop n found (skip_ws s) = request_loop n found s"
  by (cases n) (simp_all add: request_loop_Suc)

lemma request_body_complete:
  assumes "value_text t (J_Object ms)" and "took s0 t s'" and "input s0 = p"
  shows "request_body p s0 = Some (map_sum id (\<lambda>f. (f, s')) (pick None ms))"
  using assms(1)
proof (rule object_textE)
  fix w assume w: "t = 0x7B # w @ [0x7D]" "ms = []" "white w"
  then obtain s1 where s1: "took (advance s0) w s1" "peek s1 = Some 0x7D" "s' = advance s1"
    using assms(2) by (auto simp: took_append)
  have "skip_ws (advance s0) = s1" by (rule skip_ws_to [OF w(3) s1(1)]) (simp add: s1(2))
  with w s1 show ?thesis by (simp add: request_body_def)
next
  fix m assume m: "t = 0x7B # m" "members_text m ms"
  then have t: "took (advance s0) m s'" and s0: "peek s0 = Some 0x7B" using assms(2) by auto
  have "request_body p s0 = request_loop (scan_fuel p) None (advance s0)"
    using members_peek [OF m(2) t] by (simp add: request_body_def request_loop_skip_ws)
  with request_loop_complete [OF m(2) t] request_body_some [OF s0 assms(3)] show ?thesis by simp
qed

lemma parse_status_request_body:
  "parse_status_request p =
     (let s0 = skip_ws \<lparr>input = p, pos = 0\<rparr> in
      if peek s0 \<noteq> Some 0x7B then Some (Inl NotObject)
      else case request_body p s0 of
          None \<Rightarrow> None
        | Some (Inl e) \<Rightarrow> Some (Inl e)
        | Some (Inr (found, s2)) \<Rightarrow>
            (let s3 = skip_ws s2 in
             if pos s3 \<noteq> length (input s3) then Some (Inl Malformed)
             else case found of
               Some uuid \<Rightarrow> if uuid = [] then Some (Inl EmptyUuid) else Some (Inr uuid)
             | None \<Rightarrow> Some (Inl MissingUuid)))"
  by (simp only: parse_status_request_def request_body_def Let_def)

lemma request_on_document:
  assumes "document p ms"
  shows "parse_status_request p = Some (request_result ms)"
proof -
  obtain w1 t w2 where p: "p = w1 @ t @ w2" "white w1" "white w2" "value_text t (J_Object ms)"
    using assms by (auto simp: document_def)
  obtain s0 s' where s: "took \<lparr>input = p, pos = 0\<rparr> w1 s0" "took s0 t s'"
      "took s' w2 \<lparr>input = p, pos = length p\<rparr>"
    using took_all [of p] p(1) by (auto simp: took_append)
  have peek0: "peek s0 = Some 0x7B" by (rule object_textE [OF p(4)]) (use s(2) in auto)
  have s0: "skip_ws \<lparr>input = p, pos = 0\<rparr> = s0"
    by (rule skip_ws_to [OF p(2) s(1)]) (simp add: peek0)
  have "input s0 = p" using took_pos [OF s(1)] by simp
  note body = request_body_complete [OF p(4) s(2) this]
  have s3: "skip_ws s' = \<lparr>input = p, pos = length p\<rparr>"
    by (rule skip_ws_to [OF p(3) s(3)]) (simp add: peek_def)
  show ?thesis
    by (auto simp: parse_status_request_body s0 peek0 body s3 request_result_pick
        split: sum.split option.split)
qed

text \<open>The answers that are given only after the whole payload has been read.\<close>

definition whole_answer :: "status_request_error + bytes \<Rightarrow> bool" where
  "whole_answer r \<longleftrightarrow> (case r of Inr _ \<Rightarrow> True | Inl e \<Rightarrow> e = MissingUuid \<or> e = EmptyUuid)"

lemma scanner_errors:
  "scan_hex n s = Inl e \<Longrightarrow> e = Malformed" "scan_separator close s = Inl e \<Longrightarrow> e = Malformed"
  "skip_number s = Inl e \<Longrightarrow> e = Malformed" "skip_literals ls s = Inl e \<Longrightarrow> e = Malformed"
proof -
  show "scan_hex n s = Inl e \<Longrightarrow> e = Malformed"
    by (induction n arbitrary: s) (auto split: option.splits if_splits)
  show "scan_separator close s = Inl e \<Longrightarrow> e = Malformed"
    by (auto simp: scan_separator_def Let_def split: option.splits if_splits)
  show "skip_number s = Inl e \<Longrightarrow> e = Malformed"
    by (auto simp: skip_number_def skip_integer_def skip_fraction_def skip_exponent_def
        skip_required_digits_def Let_def split: sum.splits if_splits prod.splits)
  show "skip_literals ls s = Inl e \<Longrightarrow> e = Malformed"
    by (induction ls) (auto split: if_splits)
qed

lemma string_loop_error: "string_loop start s = Inl e \<Longrightarrow> e = Malformed"
proof (induction start s rule: string_loop.induct)
  case (1 start s)
  show ?case
  proof (cases "next_byte s")
    case None
    with "1.prems" show ?thesis by (simp add: string_loop.simps [of start s])
  next
    case (Some x)
    then obtain b s1 where b: "next_byte s = Some (b, s1)" by (cases x) simp
    note IH = "1.IH" [OF b refl]
    show ?thesis
      using "1.prems" b IH
      by (simp add: string_loop.simps [of start s] Let_def
          split: option.splits if_splits prod.splits sum.splits)
        (auto dest: scanner_errors)
  qed
qed

lemma parse_string_raw_error: "parse_string_raw s = Inl e \<Longrightarrow> e = Malformed"
  by (auto simp: parse_string_raw_def Let_def dest: string_loop_error)

lemma scan_key_error: "scan_key s = Inl e \<Longrightarrow> e = Malformed"
  by (auto simp: scan_key_def Let_def split: if_splits sum.splits dest: parse_string_raw_error)

lemma skip_literal_error: "skip_literal s = Inl e \<Longrightarrow> e = Malformed"
  unfolding skip_literal_def by (rule scanner_errors)

lemma open_or_error:
  "open_or close loop s = Some (Inl e) \<Longrightarrow> loop (skip_ws (advance s)) = Some (Inl e)"
  by (simp add: open_or_def Let_def split: if_splits)

lemma map_sum_Inl [simp]: "map_sum id f y = Inl e \<longleftrightarrow> y = Inl e"
  by (cases y) auto

lemma scan_error:
  "(parse_value n s = Some (Inl e) \<longrightarrow> e = Malformed) \<and>
   (object_loop n s = Some (Inl e) \<longrightarrow> e = Malformed) \<and>
   (array_loop n s = Some (Inl e) \<longrightarrow> e = Malformed)"
proof (induction n arbitrary: s)
  case 0
  then show ?case by simp
next
  case (Suc n)
  note V = Suc.IH [THEN conjunct1, rule_format]
  note O = Suc.IH [THEN conjunct2, THEN conjunct1, rule_format]
  note A = Suc.IH [THEN conjunct2, THEN conjunct2, rule_format]
  show ?case
  proof (intro conjI impI)
    assume "parse_value (Suc n) s = Some (Inl e)"
    then show "e = Malformed"
      by (auto simp: parse_value_Suc Let_def split: option.splits if_splits
          dest: parse_string_raw_error skip_literal_error scanner_errors(3) O A
          dest!: open_or_error)
  next
    assume "object_loop (Suc n) s = Some (Inl e)"
    then show "e = Malformed"
      by (auto split: option.splits if_splits sum.splits dest!: scan_key_error scanner_errors(2) V O)
  next
    assume "array_loop (Suc n) s = Some (Inl e)"
    then show "e = Malformed"
      by (auto split: option.splits if_splits sum.splits dest!: scanner_errors(2) V A)
  qed
qed

lemma request_loop_error:
  "request_loop n found s = Some (Inl e) \<Longrightarrow> e = Malformed \<or> e = UuidNotString"
proof (induction n arbitrary: found s)
  case 0
  then show ?case by simp
next
  case (Suc n)
  have pick: "pick_value k f v = Inl e \<Longrightarrow> e = UuidNotString" for k f v
    by (auto simp: pick_value_def split: if_splits scan_value.splits)
  note V = scan_error [THEN conjunct1, rule_format]
  from Suc.prems show ?case
    by (auto simp: request_loop_Suc split: option.splits if_splits sum.splits
        dest!: Suc.IH scan_key_error scanner_errors(2) V pick)
qed

lemma request_body_error:
  "request_body p s0 = Some (Inl e) \<Longrightarrow> e = Malformed \<or> e = UuidNotString"
  by (auto simp: request_body_def Let_def split: if_splits dest: request_loop_error)

lemma request_whole:
  assumes "parse_status_request p = Some r" and "whole_answer r"
  shows "\<exists>ms. document p ms \<and> request_result ms = r"
proof -
  let ?s0 = "skip_ws \<lparr>input = p, pos = 0\<rparr>"
  obtain w1 where w1: "white w1" "took \<lparr>input = p, pos = 0\<rparr> w1 ?s0" using skip_ws_took by blast
  have peek0: "peek ?s0 = Some 0x7B"
    using assms by (auto simp: parse_status_request_body whole_answer_def Let_def split: if_splits)
  obtain found s2 where body: "request_body p ?s0 = Some (Inr (found, s2))"
      and fin: "pos (skip_ws s2) = length (input (skip_ws s2))"
      and r: "r = (case found of
        Some uuid \<Rightarrow> if uuid = [] then Inl EmptyUuid else Inr uuid | None \<Rightarrow> Inl MissingUuid)"
    using assms peek0
    by (auto simp: parse_status_request_body whole_answer_def Let_def
        dest: request_body_error split: option.splits sum.splits if_splits)
  from request_body_sound [OF body peek0] obtain t ms where
    t: "value_text t (J_Object ms)" "took ?s0 t s2" "pick None ms = Inr found" by blast
  obtain w2 where w2: "white w2" "took s2 w2 (skip_ws s2)" using skip_ws_took by blast
  have "took \<lparr>input = p, pos = 0\<rparr> (w1 @ t @ w2) (skip_ws s2)"
    using w1 t w2 by (intro took_appendI)
  then have "p = w1 @ t @ w2" by (rule took_whole [OF _ fin])
  then have "document p ms" unfolding document_def using w1 t w2 by blast
  moreover have "request_result ms = r" using t(3) r by (simp add: request_result_pick)
  ultimately show ?thesis by blast
qed

lemma request_total: "parse_status_request p \<noteq> None"
  using request_body_some [of "skip_ws \<lparr>input = p, pos = 0\<rparr>" "0x7B" p]
    skip_ws_took [of "\<lparr>input = p, pos = 0\<rparr>"]
  by (auto simp: parse_status_request_body Let_def dest: took_pos split: option.split sum.split)

subsection \<open>What an accepted \<open>uuid\<close> is\<close>

lemma members_values:
  "members_text m ms \<Longrightarrow> (k, v) \<in> set ms \<Longrightarrow> string_ok k \<and> (\<exists>t. value_text t v)"
proof (induction ms arbitrary: m)
  case Nil
  then show ?case by simp
next
  case (Cons kv ms)
  from Cons.prems(1) show ?case
    by (rule members_textE) (use Cons in auto)
qed

inductive_cases string_textE: "value_text t (J_String str)"

lemma document_uuid_ok:
  assumes "document p ms" and "map_of ms k = Some (J_String uuid)"
  shows "string_ok uuid"
proof -
  obtain t where "value_text t (J_Object ms)" using assms(1) by (auto simp: document_def)
  then show ?thesis
  proof (rule object_textE)
    fix m assume "members_text m ms"
    from members_values [OF this map_of_SomeD [OF assms(2)]] show ?thesis
      by (auto elim: string_textE)
  qed (use assms in simp)
qed

lemma accepted_iff:
  "parse_status_request p = Some (Inr uuid) \<longleftrightarrow>
     uuid \<noteq> [] \<and> (\<exists>ms. document p ms \<and> map_of ms (ascii ''uuid'') = Some (J_String uuid))"
proof
  assume "parse_status_request p = Some (Inr uuid)"
  then obtain ms where "document p ms" "request_result ms = Inr uuid"
    using request_whole [of p "Inr uuid"] by (auto simp: whole_answer_def)
  then show "uuid \<noteq> [] \<and> (\<exists>ms. document p ms \<and> map_of ms (ascii ''uuid'') = Some (J_String uuid))"
    by (auto simp: request_result_def split: option.splits json.splits if_splits)
qed (auto simp: request_on_document request_result_def)

lemma accepted_ok: "parse_status_request p = Some (Inr uuid) \<Longrightarrow> uuid \<noteq> [] \<and> string_ok uuid"
  by (auto simp: accepted_iff dest: document_uuid_ok)

text \<open>The members of a status response.\<close>

definition response_members :: "bytes \<Rightarrow> bool \<Rightarrow> u32 \<Rightarrow> (bytes \<times> json) list" where
  "response_members uuid is_open version =
     [(ascii ''uuid'', J_String uuid),
      (ascii ''result'', J_Object
         [(ascii ''open'', J_Literal (if is_open then ascii ''true'' else ascii ''false'')),
          (ascii ''version'', J_Number (decimal (unat version)))])]"

lemma plain_string: "list_all (\<lambda>b. 0x23 \<le> b \<and> b < 0x5C) str \<Longrightarrow> string_ok str"
proof -
  assume "list_all (\<lambda>b. 0x23 \<le> b \<and> b < 0x5C) str"
  then have "string_body str \<and> all_ascii str"
    by (induction str) (auto simp: word_nat)
  then show ?thesis by (simp add: string_ok_def)
qed

lemma lower_string: "list_all (\<lambda>b. 0x5D \<le> b \<and> b < 0x80) str \<Longrightarrow> string_ok str"
proof -
  assume "list_all (\<lambda>b. 0x5D \<le> b \<and> b < 0x80) str"
  then have "string_body str \<and> all_ascii str"
    by (induction str) (auto simp: word_nat)
  then show ?thesis by (simp add: string_ok_def)
qed

lemma key_strings [simp]:
  "string_ok (ascii ''uuid'')" "string_ok (ascii ''result'')" "string_ok (ascii ''open'')"
  "string_ok (ascii ''version'')"
  by (rule lower_string, simp add: ascii_def)+

lemma decimal_number_text: "number_text (decimal n)"
proof -
  have "digits (decimal n)" using decimal_digits [of n] by (simp add: digits_def)
  then have "integer_text ([] @ decimal n)" unfolding integer_text_def by blast
  then show ?thesis unfolding number_text_def
    by (intro exI [of _ "decimal n"] exI [of _ "[]"]) (simp add: fraction_text_def exponent_text_def)
qed

lemma decimal_not_padded: "\<not> padded (decimal n)"
proof (cases "n < 10")
  case True
  then show ?thesis by (simp add: decimal.simps [of n] padded_def)
next
  case False
  have "decimal n ! 0 \<in> set (decimal n)" by (intro nth_mem) simp
  then have "is_ascii_digit (decimal n ! 0)" using decimal_digits by blast
  then have "decimal n ! 0 \<noteq> 0x2D" by (auto simp: is_ascii_digit_def)
  with False show ?thesis using decimal_leading [of n]
    by (auto simp: padded_def Let_def take_Suc hd_conv_nth)
qed

lemma response_numbers: "plain_numbers (J_Object (response_members uuid b v))"
  by (simp add: response_members_def decimal_not_padded)

lemma status_response_document:
  assumes "string_ok uuid"
  shows "document (status_response uuid b v) (response_members uuid b v)"
proof -
  let ?b = "if b then ascii ''true'' else ascii ''false''"
  have b: "value_text ?b (J_Literal ?b)" by (intro literal) (simp add: literals_def)
  have n: "value_text (decimal (unat v)) (J_Number (decimal (unat v)))"
    by (intro number decimal_number_text)
  have "members_text ([] @ quoted (ascii ''open'') @ [] @ 0x3A # [] @ ?b @ [] @ 0x2C #
      ([] @ quoted (ascii ''version'') @ [] @ 0x3A # [] @ decimal (unat v) @ [] @ [0x7D]))
      [(ascii ''open'', J_Literal ?b), (ascii ''version'', J_Number (decimal (unat v)))]"
    by (intro member last_member b n) simp_all
  note inner = object [OF this]
  have "members_text ([] @ quoted (ascii ''uuid'') @ [] @ 0x3A # [] @ quoted uuid @ [] @ 0x2C #
      ([] @ quoted (ascii ''result'') @ [] @ 0x3A # [] @
        (0x7B # ([] @ quoted (ascii ''open'') @ [] @ 0x3A # [] @ ?b @ [] @ 0x2C #
          ([] @ quoted (ascii ''version'') @ [] @ 0x3A # [] @ decimal (unat v) @ [] @ [0x7D]))) @
        [] @ [0x7D])) (response_members uuid b v)"
    unfolding response_members_def
    by (intro member last_member inner string assms) simp_all
  from object [OF this] show ?thesis
    unfolding document_def
    by (intro exI [of _ "[]"] exI [of _ "status_response uuid b v"])
      (simp add: status_response_def quoted_def ascii_def)
qed

subsection \<open>Properties\<close>

text \<open>
  C14: a payload is answered with the correlation id \<open>uuid\<close> exactly when it is one object of the
  grammar \<open>document\<close>, with whitespace around it and nothing else, whose first top-level member with the
  undecoded key \<open>uuid\<close> is that non-empty undecoded string. The grammar is that of JSON except that a number may
  have leading zeros, which the scanner lets pass. Members of nested objects, later members and the other values are
  without influence, and every payload outside the grammar is rejected.
\<close>

theorem request_accepted_iff:
  "parse_status_request p = Some (Inr uuid) \<longleftrightarrow>
     uuid \<noteq> [] \<and> (\<exists>ms. document p ms \<and> map_of ms (ascii ''uuid'') = Some (J_String uuid))"
  by (rule accepted_iff)

text \<open>A payload that is not JSON and is answered all the same: \<open>01\<close> is read as a number.\<close>

lemma padded_number_accepted:
  "parse_status_request (ascii ''{\"a\":01,\"uuid\":\"x\"}'') = Some (Inr (ascii ''x''))"
  "padded (ascii ''01'')"
  by code_simp+

text \<open>
  C24: the parser answers every payload (it never loops, and the fuel of the model is enough),
  and its rejections mean what they say: \<open>NotObject\<close> is a payload whose first byte after
  whitespace is not an opening brace, \<open>MissingUuid\<close> a JSON object with no top-level \<open>uuid\<close>,
  and \<open>EmptyUuid\<close> one whose first top-level \<open>uuid\<close> is the empty string.
\<close>

theorem request_rejections:
  "parse_status_request p \<noteq> None \<and>
   (parse_status_request p = Some (Inl NotObject) \<longleftrightarrow> \<not> (\<exists>w r. p = w @ 0x7B # r \<and> white w)) \<and>
   (parse_status_request p = Some (Inl MissingUuid) \<longleftrightarrow>
      (\<exists>ms. document p ms \<and> map_of ms (ascii ''uuid'') = None)) \<and>
   (parse_status_request p = Some (Inl EmptyUuid) \<longleftrightarrow>
      (\<exists>ms. document p ms \<and> map_of ms (ascii ''uuid'') = Some (J_String [])))"
proof (intro conjI)
  let ?start = "\<lparr>input = p, pos = 0\<rparr>"
  let ?first = "skip_ws ?start"
  have "parse_status_request p = Some (Inl NotObject) \<longleftrightarrow> peek ?first \<noteq> Some 0x7B"
    by (auto simp: parse_status_request_body Let_def dest: request_body_error
        split: option.splits sum.splits if_splits)
  moreover have "peek ?first = Some 0x7B \<longleftrightarrow> (\<exists>w r. p = w @ 0x7B # r \<and> white w)"
  proof
    obtain w where w: "white w" "took ?start w ?first" using skip_ws_took [of ?start] by (elim exE conjE)
    assume "peek ?first = Some 0x7B"
    then have "took ?first [0x7B] (advance ?first)" by simp
    from took_appendI [OF w(2) this]
    have "take (length (w @ [0x7B])) p = w @ [0x7B]" by (simp add: took_iff)
    then have "p = (w @ [0x7B]) @ drop (length (w @ [0x7B])) p"
      using append_take_drop_id [of "length (w @ [0x7B])" p] by simp
    then have "p = w @ 0x7B # drop (length (w @ [0x7B])) p" by simp
    with w(1) show "\<exists>w r. p = w @ 0x7B # r \<and> white w" by blast
  next
    assume "\<exists>w r. p = w @ 0x7B # r \<and> white w"
    then obtain w r where p: "p = w @ 0x7B # r" "white w" by blast
    let ?brace = "?start\<lparr>pos := length w\<rparr>"
    have "took ?start w ?brace" and peek: "peek ?brace = Some 0x7B" by (simp_all add: p took_iff peek_def)
    then have "?first = ?brace" by (intro skip_ws_to [OF p(2)]) simp_all
    with peek show "peek ?first = Some 0x7B" by simp
  qed
  ultimately show "parse_status_request p = Some (Inl NotObject) \<longleftrightarrow>
      \<not> (\<exists>w r. p = w @ 0x7B # r \<and> white w)" by simp
  have *: "parse_status_request p = Some (Inl e) \<longleftrightarrow> (\<exists>ms. document p ms \<and> request_result ms = Inl e)"
    if "e = MissingUuid \<or> e = EmptyUuid" for e
    using that request_whole [of p "Inl e"] request_on_document by (auto simp: whole_answer_def)
  show "parse_status_request p = Some (Inl MissingUuid) \<longleftrightarrow>
      (\<exists>ms. document p ms \<and> map_of ms (ascii ''uuid'') = None)"
    by (simp add: * request_result_iff)
  show "parse_status_request p = Some (Inl EmptyUuid) \<longleftrightarrow>
      (\<exists>ms. document p ms \<and> map_of ms (ascii ''uuid'') = Some (J_String []))"
    by (simp add: * request_result_iff)
qed (rule request_total)

text \<open>
  C25: a status response that echoes an accepted correlation id is always encoded in a buffer
  with 56 bytes to spare, is one JSON object (without leading zeros) with exactly the members
  \<open>uuid\<close> and \<open>result\<close> (\<open>open\<close> and \<open>version\<close>), and reads back as the same correlation id: no id
  can break out of its string.
\<close>

theorem response_roundtrip:
  assumes "parse_status_request p = Some (Inr uuid)" and "56 + length uuid \<le> length buf"
  shows "\<exists>text. snd (format_status_response buf uuid is_open version) = Inr text \<and>
    json_document text (response_members uuid is_open version) \<and>
    parse_status_request text = Some (Inr uuid)"
proof -
  let ?t = "status_response uuid is_open version"
  have ok: "uuid \<noteq> []" "string_ok uuid" using accepted_ok [OF assms(1)] by simp_all
  then have "snd (format_status_response buf uuid is_open version) = Inr ?t"
    using assms(2) length_status_response [of uuid is_open version]
    by (subst format_status_fits) (simp_all add: string_ok_def)
  moreover have "document ?t (response_members uuid is_open version)"
    by (rule status_response_document [OF ok(2)])
  ultimately show ?thesis
    using ok(1) response_numbers by (auto simp: accepted_iff json_document_def response_members_def)
qed

theorem response_roundtrip_witness:
  "\<exists>text. snd (format_status_response (replicate 160 0) (ascii ''ab'') True 7) = Inr text \<and>
    json_document text (response_members (ascii ''ab'') True 7) \<and>
    parse_status_request text = Some (Inr (ascii ''ab''))"
proof (rule response_roundtrip)
  show "parse_status_request (ascii ''{\"uuid\":\"ab\"}'') = Some (Inr (ascii ''ab''))" by code_simp
qed (simp add: ascii_def)

end
