(* ===== verification/Ota_Parse.thy ===== *)
theory Ota_Parse
  imports Decimal
begin

text \<open>
  The parsers of \<open>core/src/ota/mod.rs\<close>: the update decision, the request target
  (\<open>parse_url\<close>), the version and digest files. String slices are their bytes; every pattern the
  code searches for is ASCII, so searching bytes and searching characters agree.
\<close>

definition CHUNK_BYTES :: nat where "CHUNK_BYTES = 4096"
definition PATH_BYTES :: nat where "PATH_BYTES = 192"

datatype decision = D_Update | D_Skip

definition decide :: "u32 \<Rightarrow> u32 \<Rightarrow> decision" where
  "decide local_version remote = (if remote \<noteq> local_version then D_Update else D_Skip)"

datatype url_error = E_Scheme | E_Host | E_Port | E_Project | E_Path

record uri =
  tls :: bool
  host :: bytes
  port :: u16
  path_buf :: bytes
  path_len :: nat

text \<open>\<open>Uri::path\<close>; every path is ASCII, so that \<open>from_utf8\<close> does not fail.\<close>

definition uri_path :: "uri \<Rightarrow> bytes" where
  "uri_path u = take (path_len u) (path_buf u)"

definition valid_host_byte :: "u8 \<Rightarrow> bool" where
  "valid_host_byte b \<longleftrightarrow> is_ascii_alphanumeric b \<or> b = 0x2E \<or> b = 0x2D \<or> b = 0x5F"

definition valid_segment :: "bytes \<Rightarrow> bool" where
  "valid_segment s \<longleftrightarrow> s \<noteq> [] \<and> list_all valid_host_byte s"

text \<open>
  \<open>str::parse::<u16>\<close>: an optional plus sign, then at least one digit, and no overflow.
\<close>

definition parse_u16 :: "bytes \<Rightarrow> u16 option" where
  "parse_u16 s =
     (let ds = (if s \<noteq> [] \<and> hd s = 0x2B then tl s else s)
      in if ds = [] \<or> \<not> list_all is_ascii_digit ds then None else checked_number 0 ds)"

definition parse_authority :: "bytes \<Rightarrow> bool \<Rightarrow> url_error + bytes \<times> u16" where
  "parse_authority authority is_tls =
     (case (case rsplit_once 0x3A authority of
              Some (h, p) \<Rightarrow>
                (case parse_u16 p of
                   None \<Rightarrow> Inl E_Port
                 | Some n \<Rightarrow> if n = 0 then Inl E_Port else Inr (h, n))
            | None \<Rightarrow> Inr (authority, if is_tls then 443 else 80)) of
        Inl e \<Rightarrow> Inl e
      | Inr (h, n) \<Rightarrow>
          if h = [] \<or> \<not> list_all valid_host_byte h then Inl E_Host else Inr (h, n))"

text \<open>The loop that assembles the path in the fixed buffer.\<close>

fun path_loop :: "bytes \<Rightarrow> nat \<Rightarrow> bytes list \<Rightarrow> url_error + bytes \<times> nat" where
  "path_loop path len [] = Inr (path, len)"
| "path_loop path len (segment # segments) =
     (if PATH_BYTES < len + 1 + length segment \<or> \<not> valid_segment segment then Inl E_Path
      else
        let path1 = path[len := 0x2F];
            path2 = copy_at path1 (len + 1) segment
        in path_loop path2 (len + 1 + length segment) segments)"

definition parse_url :: "bytes \<Rightarrow> bytes \<Rightarrow> url_error + uri" where
  "parse_url base project =
     (case split_once (ascii ''://'') base of
        None \<Rightarrow> Inl E_Scheme
      | Some (scheme, rest) \<Rightarrow>
          if scheme \<noteq> ascii ''https'' \<and> scheme \<noteq> ascii ''http'' then Inl E_Scheme
          else
            let is_tls = (scheme = ascii ''https'') in
            if \<not> valid_segment project then Inl E_Project
            else
              let (authority, prefix) =
                (case position ((=) 0x2F) rest of
                   Some i \<Rightarrow> (take i rest, drop i rest)
                 | None \<Rightarrow> (rest, []))
              in case parse_authority authority is_tls of
                Inl e \<Rightarrow> Inl e
              | Inr (h, n) \<Rightarrow>
                  (case path_loop (replicate PATH_BYTES 0) 0
                      (filter (\<lambda>s. s \<noteq> []) (split_on 0x2F prefix) @ [project]) of
                     Inl e \<Rightarrow> Inl e
                   | Inr (path, len) \<Rightarrow>
                       Inr \<lparr>tls = is_tls, host = h, port = n, path_buf = path, path_len = len\<rparr>))"

definition parse_version :: "bytes \<Rightarrow> u32 option" where
  "parse_version body =
     (let s = trim_ascii body in
      if s = [] \<or> \<not> list_all is_ascii_digit s then None else checked_number 0 s)"

definition hex_nibble :: "u8 \<Rightarrow> u8 option" where
  "hex_nibble b =
     (if 0x30 \<le> b \<and> b \<le> 0x39 then Some (b - 0x30)
      else if 0x61 \<le> b \<and> b \<le> 0x66 then Some (b - 0x61 + 10)
      else None)"

text \<open>The digest file: \<open>n\<close> more bytes of the digest, from the \<open>i\<close>-th on.\<close>

fun hex_loop :: "bytes \<Rightarrow> nat \<Rightarrow> nat \<Rightarrow> bytes option" where
  "hex_loop s i 0 = Some []"
| "hex_loop s i (Suc n) =
     (case hex_nibble (s ! (2 * i)) of
        None \<Rightarrow> None
      | Some hi \<Rightarrow>
          (case hex_nibble (s ! (2 * i + 1)) of
             None \<Rightarrow> None
           | Some lo \<Rightarrow> map_option ((#) (push_bit 4 hi OR lo)) (hex_loop s (i + 1) n)))"

definition parse_sha256_hex :: "bytes \<Rightarrow> bytes option" where
  "parse_sha256_hex body =
     (let s = trim_ascii body in if length s \<noteq> 64 then None else hex_loop s 0 32)"

subsection \<open>Versions and ports\<close>

lemma digits_trimmed: "list_all is_ascii_digit ds \<Longrightarrow> trimmed ds"
  by (auto simp: trimmed_def list_all_iff digit_not_whitespace)

lemma parse_version_iff:
  "parse_version body = Some v \<longleftrightarrow>
     trim_ascii body \<noteq> [] \<and> list_all is_ascii_digit (trim_ascii body) \<and>
     number_value (trim_ascii body) = unat v"
proof -
  let ?s = "trim_ascii body"
  have "unat v < 2 ^ 32" using unsigned_less [of v, where ?'a = nat] by simp
  moreover have "(of_nat (number_value ?s) = v) = (number_value ?s = unat v)"
    if "number_value ?s < 2 ^ 32"
    using that by (auto simp: unat_of_nat of_nat_unat)
  ultimately show ?thesis
    using checked_number_iff [of ?s "0 :: u32"]
    by (auto simp: parse_version_def Let_def number_from_0 split: if_splits)
qed

lemma list_all_decimal: "list_all is_ascii_digit (decimal n)"
  using decimal_digits [of n] by (simp add: list_all_iff)

lemma parse_u16_digits:
  assumes "list_all is_ascii_digit ds" and "ds \<noteq> []"
  shows "parse_u16 ds = (if number_value ds < 65536 then Some (of_nat (number_value ds)) else None)"
    and "parse_u16 (0x2B # ds) = parse_u16 ds"
proof -
  have "hd ds \<noteq> 0x2B" using assms by (cases ds) (auto simp: is_ascii_digit_def)
  then show "parse_u16 ds = (if number_value ds < 65536 then Some (of_nat (number_value ds)) else None)"
    and "parse_u16 (0x2B # ds) = parse_u16 ds"
    using assms checked_number_iff [of ds "0 :: u16"]
    by (simp_all add: parse_u16_def number_from_0)
qed

lemma parse_u16_decimal: "parse_u16 (decimal (unat p)) = Some p"
proof -
  have "unat p < 65536" using unsigned_less [of p, where ?'a = nat] by simp
  then show ?thesis
    using parse_u16_digits(1) [of "decimal (unat p)"] by (simp add: list_all_decimal of_nat_unat)
qed

subsection \<open>Digests\<close>

definition hex_digit :: "nat \<Rightarrow> u8" where
  "hex_digit n = (if n < 10 then of_nat (0x30 + n) else of_nat (0x57 + n))"

text \<open>The lowercase hexadecimal text of a byte string.\<close>

definition hex_text :: "bytes \<Rightarrow> bytes" where
  "hex_text bs = concat (map (\<lambda>b. [hex_digit (unat b div 16), hex_digit (unat b mod 16)]) bs)"

lemma hex_nibble_digit: "n < 16 \<Longrightarrow> hex_nibble (hex_digit n) = Some (of_nat n)"
proof -
  have "\<forall>n \<in> set [0..<16]. hex_nibble (hex_digit n) = Some (of_nat n)"
    by code_simp
  then show "n < 16 \<Longrightarrow> hex_nibble (hex_digit n) = Some (of_nat n)" by simp
qed

lemma hex_nibble_Some:
  assumes "hex_nibble b = Some x"
  shows "unat x < 16 \<and> hex_digit (unat x) = b"
proof (cases "0x30 \<le> b \<and> b \<le> 0x39")
  case True
  then have "unat (b - 0x30) = unat b - 0x30" "0x30 \<le> unat b" "unat b \<le> 0x39"
    by (simp_all add: word_nat)
  moreover have "x = b - 0x30" using True assms by (simp add: hex_nibble_def)
  ultimately show ?thesis by (simp add: hex_digit_def word_unat_eq_iff unat_of_nat)
next
  case False
  with assms have b: "0x61 \<le> b" "b \<le> 0x66" and x: "x = b - 0x61 + 10"
    by (auto simp: hex_nibble_def split: if_splits)
  then have "unat (b - 0x61) = unat b - 0x61" "0x61 \<le> unat b" "unat b \<le> 0x66"
    by (simp_all add: word_nat)
  moreover from this have "unat (b - 0x61 + 10) = unat b - 0x61 + 10"
    by (subst unat_plus_nowrap) simp_all
  ultimately show ?thesis using x
    by (simp add: hex_digit_def word_unat_eq_iff unat_of_nat, arith)
qed

lemma nibbles_join:
  "unat hi < 16 \<Longrightarrow> unat lo < 16 \<Longrightarrow> unat (push_bit 4 hi OR lo :: u8) = 16 * unat hi + unat lo"
proof -
  assume hi: "unat hi < 16" and lo: "unat lo < 16"
  have l: "\<not> bit lo n" if "4 \<le> n" for n
  proof -
    have "take_bit 4 lo = lo" 
      using lo by (simp only: word_unat_eq_iff unsigned_take_bit_eq) (simp add: take_bit_nat_eq_self)
    with that show ?thesis by (metis bit_take_bit_iff not_le)
  qed
  have "push_bit 4 hi AND lo = 0"
    by (rule bit_eqI) (auto simp: bit_and_iff bit_push_bit_iff dest: l)
  then have "push_bit 4 hi OR lo = push_bit 4 hi + lo"
    by (simp add: disjunctive_add_eq_or)
  moreover have "unat (push_bit 4 hi) = 16 * unat hi"
    using hi unat_mult_lem [of hi "16 :: u8"] by (simp add: push_bit_eq_mult)
  ultimately show ?thesis using hi lo by (simp add: unat_plus_nowrap)
qed

lemma hex_text_simps [simp]:
  "hex_text [] = []"
  "hex_text (b # bs) = hex_digit (unat b div 16) # hex_digit (unat b mod 16) # hex_text bs"
  by (simp_all add: hex_text_def)

lemma length_hex_text [simp]: "length (hex_text bs) = 2 * length bs"
  by (induction bs) simp_all

lemma byte_halves: "unat (b :: u8) div 16 < 16"
  using unsigned_less [of b, where ?'a = nat] by simp

lemma hex_byte:
  "hex_nibble (hex_digit (unat b div 16)) = Some (of_nat (unat b div 16))"
  "hex_nibble (hex_digit (unat b mod 16)) = Some (of_nat (unat b mod 16))"
  "push_bit 4 (of_nat (unat b div 16)) OR of_nat (unat b mod 16) = (b :: u8)"
proof -
  have u: "unat (of_nat (unat b div 16) :: u8) = unat b div 16"
    "unat (of_nat (unat b mod 16) :: u8) = unat b mod 16"
    using byte_halves [of b] by (simp_all add: unat_of_nat)
  then show "push_bit 4 (of_nat (unat b div 16)) OR of_nat (unat b mod 16) = (b :: u8)"
    using byte_halves [of b] by (simp add: word_unat_eq_iff nibbles_join)
qed (simp_all add: hex_nibble_digit byte_halves)

lemma hex_loop_text:
  "s = pre @ hex_text bs \<Longrightarrow> length pre = 2 * i \<Longrightarrow> hex_loop s i (length bs) = Some bs"
proof (induction bs arbitrary: pre i)
  case Nil
  then show ?case by simp
next
  case (Cons b bs)
  have "s ! (2 * i) = hex_digit (unat b div 16)" "s ! (2 * i + 1) = hex_digit (unat b mod 16)"
    using Cons.prems by (simp_all add: nth_append)
  moreover have "hex_loop s (i + 1) (length bs) = Some bs"
    by (rule Cons.IH [of "pre @ [hex_digit (unat b div 16), hex_digit (unat b mod 16)]"])
      (use Cons.prems in simp_all)
  ultimately show ?case using hex_byte [of b] by simp
qed

lemma hex_loop_sound:
  "hex_loop s i n = Some bs \<Longrightarrow> 2 * i + 2 * n \<le> length s \<Longrightarrow>
     length bs = n \<and> take (2 * n) (drop (2 * i) s) = hex_text bs"
proof (induction n arbitrary: i bs)
  case 0
  then show ?case by simp
next
  case (Suc n)
  from Suc.prems(1) obtain hi lo ds where *: "hex_nibble (s ! (2 * i)) = Some hi"
      "hex_nibble (s ! (2 * i + 1)) = Some lo" "hex_loop s (i + 1) n = Some ds"
      "bs = (push_bit 4 hi OR lo) # ds"
    by (auto split: option.splits)
  have IH: "length ds = n" "take (2 * n) (drop (2 * i + 2) s) = hex_text ds"
    using Suc.IH [OF *(3)] Suc.prems(2) by simp_all
  have n: "unat hi < 16" "hex_digit (unat hi) = s ! (2 * i)"
      "unat lo < 16" "hex_digit (unat lo) = s ! (2 * i + 1)"
    using hex_nibble_Some [OF *(1)] hex_nibble_Some [OF *(2)] by simp_all
  have "drop (2 * i) s = s ! (2 * i) # s ! (2 * i + 1) # drop (2 * i + 2) s"
    using Suc.prems(2) by (simp add: Cons_nth_drop_Suc)
  with IH *(4) n show ?case by (simp add: nibbles_join)
qed

lemma hex_text_trimmed: "trimmed (hex_text bs)"
proof -
  have "\<not> is_ascii_whitespace (hex_digit n)" if "n < 16" for n
  proof -
    have "\<forall>n \<in> set [0..<16]. \<not> is_ascii_whitespace (hex_digit n)" by code_simp
    with that show ?thesis by simp
  qed
  then have "\<forall>c \<in> set (hex_text bs). \<not> is_ascii_whitespace c"
    by (induction bs) (simp_all add: byte_halves)
  then show ?thesis by (auto simp: trimmed_def)
qed

lemma parse_sha256_hex_iff:
  "parse_sha256_hex body = Some d \<longleftrightarrow> length d = 32 \<and> trim_ascii body = hex_text d"
proof
  assume "parse_sha256_hex body = Some d"
  then have "length (trim_ascii body) = 64" "hex_loop (trim_ascii body) 0 32 = Some d"
    by (auto simp: parse_sha256_hex_def Let_def split: if_splits)
  with hex_loop_sound [of "trim_ascii body" 0 32 d]
  show "length d = 32 \<and> trim_ascii body = hex_text d" by simp
next
  assume "length d = 32 \<and> trim_ascii body = hex_text d"
  with hex_loop_text [of "hex_text d" "[]" d 0] show "parse_sha256_hex body = Some d"
    by (simp add: parse_sha256_hex_def)
qed

subsection \<open>Request targets\<close>

definition path_text :: "bytes list \<Rightarrow> bytes" where
  "path_text segments = concat (map ((#) 0x2F) segments)"

lemma path_text_simps [simp]:
  "path_text [] = []" "path_text (s # ss) = 0x2F # s @ path_text ss"
  "path_text (ss @ ts) = path_text ss @ path_text ts"
  by (simp_all add: path_text_def)

lemma path_loop_iff:
  "length path = PATH_BYTES \<Longrightarrow> len \<le> PATH_BYTES \<Longrightarrow>
     path_loop path len segs =
       (if list_all valid_segment segs \<and> len + length (path_text segs) \<le> PATH_BYTES
        then Inr (copy_at path len (path_text segs), len + length (path_text segs))
        else Inl E_Path)"
proof (induction segs arbitrary: path len)
  case Nil
  then show ?case by (simp add: copy_at_def)
next
  case (Cons g segs)
  show ?case
  proof (cases "PATH_BYTES < len + 1 + length g \<or> \<not> valid_segment g")
    case True
    then show ?thesis by auto
  next
    case False
    let ?path = "copy_at (path[len := 0x2F]) (len + 1) g"
    have "?path = copy_at path len (0x2F # g)"
      using False Cons.prems by (simp add: copy_at_def take_Suc_conv_app_nth upd_conv_take_nth_drop add.commute)
    moreover have "copy_at (copy_at path len (0x2F # g)) (len + 1 + length g) t =
        copy_at path len (0x2F # g @ t)" if "len + 1 + length g + length t \<le> PATH_BYTES" for t
      using False Cons.prems that by (simp add: copy_at_def) (simp add: ac_simps)
    ultimately show ?thesis
      using False Cons.prems Cons.IH [of ?path "len + 1 + length g"]
      by (auto simp: Let_def)
  qed
qed

lemma path_loop_start:
  "path_loop (replicate PATH_BYTES 0) 0 segs = Inr (path, len) \<longleftrightarrow>
     list_all valid_segment segs \<and> len = length (path_text segs) \<and> len \<le> PATH_BYTES \<and>
     path = path_text segs @ replicate (PATH_BYTES - len) 0"
  by (auto simp: path_loop_iff copy_at_0)

text \<open>The two forms of an authority.\<close>

definition authority_ok :: "bytes \<Rightarrow> bool \<Rightarrow> bytes \<Rightarrow> u16 \<Rightarrow> bool" where
  "authority_ok authority is_tls h p \<longleftrightarrow>
     h \<noteq> [] \<and> list_all valid_host_byte h \<and> p \<noteq> 0 \<and>
     (authority = h \<and> p = (if is_tls then 443 else 80) \<or>
      (\<exists>t. authority = h @ 0x3A # t \<and> parse_u16 t = Some p))"

lemma valid_host_not [simp]:
  "\<not> valid_host_byte 0x3A" "\<not> valid_host_byte 0x2F"
  by (simp_all add: valid_host_byte_def is_ascii_alphanumeric_def is_ascii_digit_def)

lemma parse_u16_no_colon:
  assumes "parse_u16 t = Some p"
  shows "0x3A \<notin> set t \<and> 0x2F \<notin> set t"
proof -
  obtain ds where "t = ds \<or> t = 0x2B # ds" "list_all is_ascii_digit ds"
    using assms by (cases t) (auto simp: parse_u16_def Let_def split: if_splits)
  moreover from this have "0x3A \<notin> set ds" "0x2F \<notin> set ds"
    by (auto simp: list_all_iff is_ascii_digit_def dest!: bspec)
  ultimately show ?thesis by auto
qed

lemma parse_authority_iff:
  "parse_authority authority is_tls = Inr (h, p) \<longleftrightarrow> authority_ok authority is_tls h p"
proof
  assume A: "parse_authority authority is_tls = Inr (h, p)"
  show "authority_ok authority is_tls h p"
  proof (cases "rsplit_once 0x3A authority")
    case None
    with A show ?thesis
      by (auto simp: parse_authority_def authority_ok_def simp del: rsplit_once_None split: if_splits)
  next
    case (Some hp)
    then obtain h' t where t: "rsplit_once 0x3A authority = Some (h', t)" by (cases hp) simp
    with A rsplit_once_sound [OF t] show ?thesis
      by (auto simp: parse_authority_def authority_ok_def split: if_splits option.splits)
  qed
next
  assume ok: "authority_ok authority is_tls h p"
  then have "0x3A \<notin> set h" by (auto simp: authority_ok_def list_all_iff)
  then have none: "rsplit_once 0x3A h = None" by simp
  from ok consider (plain) "authority = h" "p = (if is_tls then 443 else 80)"
    | (port) t where "authority = h @ 0x3A # t" "parse_u16 t = Some p"
    by (auto simp: authority_ok_def)
  then show "parse_authority authority is_tls = Inr (h, p)"
  proof cases
    case plain
    with ok none show ?thesis
      by (simp add: parse_authority_def authority_ok_def del: rsplit_once_None)
  next
    case port
    with ok parse_u16_no_colon rsplit_once_append [of "0x3A" t h] show ?thesis
      by (simp add: parse_authority_def authority_ok_def)
  qed
qed

definition scheme_text :: "bool \<Rightarrow> bytes" where
  "scheme_text is_tls = (if is_tls then ascii ''https'' else ascii ''http'')"

text \<open>The segments of a prefix, empty ones dropped.\<close>

definition segments :: "bytes \<Rightarrow> bytes list" where
  "segments prefix = filter (\<lambda>s. s \<noteq> []) (split_on 0x2F prefix)"

lemma parse_url_rest:
  "parse_url (scheme_text is_tls @ ascii ''://'' @ rest) project =
     (if \<not> valid_segment project then Inl E_Project
      else
        let (authority, prefix) =
          (case position ((=) 0x2F) rest of Some i \<Rightarrow> (take i rest, drop i rest) | None \<Rightarrow> (rest, []))
        in case parse_authority authority is_tls of
          Inl e \<Rightarrow> Inl e
        | Inr (h, n) \<Rightarrow>
            (case path_loop (replicate PATH_BYTES 0) 0 (segments prefix @ [project]) of
               Inl e \<Rightarrow> Inl e
             | Inr (path, len) \<Rightarrow>
                 Inr \<lparr>tls = is_tls, host = h, port = n, path_buf = path, path_len = len\<rparr>))"
proof -
  have "split_once (ascii ''://'') (scheme_text is_tls @ ascii ''://'' @ rest) =
      Some (scheme_text is_tls, rest)"
    using split_once_first [of "0x3A" "scheme_text is_tls" "[0x2F, 0x2F]" rest]
    by (simp add: scheme_text_def ascii_def)
  moreover have "scheme_text is_tls = ascii ''https'' \<longleftrightarrow> is_tls"
    "scheme_text is_tls \<noteq> ascii ''https'' \<longrightarrow> scheme_text is_tls = ascii ''http''"
    by (simp_all add: scheme_text_def ascii_def)
  ultimately show ?thesis
    unfolding parse_url_def segments_def 
    by (cases is_tls rule: bool.exhaust; hypsubst; simp add: Let_def)
qed

lemma parse_url_scheme:
  assumes "parse_url base project = Inr u"
  shows "\<exists>is_tls rest. base = scheme_text is_tls @ ascii ''://'' @ rest"
proof -
  obtain scheme rest where s: "split_once (ascii ''://'') base = Some (scheme, rest)"
      "scheme = ascii ''https'' \<or> scheme = ascii ''http''"
    using assms by (auto simp: parse_url_def split: option.splits if_splits)
  from s(2) obtain is_tls where "scheme = scheme_text is_tls"
    unfolding scheme_text_def by (metis (full_types))
  with split_once_sound [OF s(1)] show ?thesis by blast
qed

text \<open>The rest of a URL splits at its first slash.\<close>

definition prefix_ok :: "bytes \<Rightarrow> bool" where
  "prefix_ok prefix \<longleftrightarrow> prefix = [] \<or> hd prefix = 0x2F"

lemma authority_no_slash: "authority_ok a is_tls h p \<Longrightarrow> 0x2F \<notin> set a"
proof -
  assume ok: "authority_ok a is_tls h p"
  then have "0x2F \<notin> set h" by (metis authority_ok_def list_all_iff valid_host_not(2))
  with ok show ?thesis by (auto simp: authority_ok_def dest!: parse_u16_no_colon)
qed

text \<open>What a URL with this project parses to, as a relation.\<close>

definition url_denotes :: "bytes \<Rightarrow> bytes \<Rightarrow> uri \<Rightarrow> bool" where
  "url_denotes base project u \<longleftrightarrow>
     (\<exists>authority prefix. base = scheme_text (tls u) @ ascii ''://'' @ authority @ prefix \<and>
        authority_ok authority (tls u) (host u) (port u) \<and> prefix_ok prefix \<and>
        list_all valid_segment (segments prefix @ [project]) \<and>
        uri_path u = path_text (segments prefix @ [project]) \<and>
        path_len u = length (uri_path u) \<and> path_len u \<le> PATH_BYTES \<and>
        path_buf u = uri_path u @ replicate (PATH_BYTES - path_len u) 0)"

lemma parse_url_iff: "parse_url base project = Inr u \<longleftrightarrow> url_denotes base project u"
proof
  assume A: "parse_url base project = Inr u"
  obtain is_tls rest where base: "base = scheme_text is_tls @ ascii ''://'' @ rest"
    using parse_url_scheme [OF A] by blast
  obtain authority prefix where ap: "(case position ((=) 0x2F) rest of
      Some i \<Rightarrow> (take i rest, drop i rest) | None \<Rightarrow> (rest, [])) = (authority, prefix)"
    by (meson surj_pair)
  from A [unfolded base parse_url_rest ap Let_def] obtain h p path len where
    *: "parse_authority authority is_tls = Inr (h, p)"
      "path_loop (replicate PATH_BYTES 0) 0 (segments prefix @ [project]) = Inr (path, len)"
      "u = \<lparr>tls = is_tls, host = h, port = p, path_buf = path, path_len = len\<rparr>"
    by (auto split: if_splits sum.splits)
  from ap have "rest = authority @ prefix" "prefix_ok prefix"
    by (auto simp: position_split prefix_ok_def)
  with * base show "url_denotes base project u"
    unfolding url_denotes_def parse_authority_iff path_loop_start
    by (intro exI [of _ authority] exI [of _ prefix]) (simp add: uri_path_def)
next
  assume "url_denotes base project u"
  then obtain authority prefix where
    base: "base = scheme_text (tls u) @ ascii ''://'' @ authority @ prefix"
    and a: "authority_ok authority (tls u) (host u) (port u)" and p: "prefix_ok prefix"
    and v: "list_all valid_segment (segments prefix @ [project])"
    and path: "uri_path u = path_text (segments prefix @ [project])"
      "path_len u = length (uri_path u)" "path_len u \<le> PATH_BYTES"
      "path_buf u = uri_path u @ replicate (PATH_BYTES - path_len u) 0"
    unfolding url_denotes_def by blast
  have ap: "(case position ((=) 0x2F) (authority @ prefix) of
      Some i \<Rightarrow> (take i (authority @ prefix), drop i (authority @ prefix))
    | None \<Rightarrow> (authority @ prefix, [])) = (authority, prefix)"
    using authority_no_slash [OF a] p by (simp add: position_split prefix_ok_def)
  have l: "path_loop (replicate PATH_BYTES 0) 0 (segments prefix @ [project]) =
      Inr (path_buf u, path_len u)"
    unfolding path_loop_start using v path by simp
  have "valid_segment project" using v by simp
  with a l show "parse_url base project = Inr u"
    unfolding base parse_url_rest ap Let_def prod.case
    by (simp add: parse_authority_iff [THEN iffD2])
qed

lemma parse_version_body:
  "parse_version body = Some v \<longleftrightarrow>
     (\<exists>w ds w'. body = w @ ds @ w' \<and> white_space w \<and> white_space w' \<and>
        ds \<noteq> [] \<and> list_all is_ascii_digit ds \<and> number_value ds = unat v)"
proof
  assume "parse_version body = Some v"
  then show "\<exists>w ds w'. body = w @ ds @ w' \<and> white_space w \<and> white_space w' \<and>
      ds \<noteq> [] \<and> list_all is_ascii_digit ds \<and> number_value ds = unat v"
    using trim_ascii_iff [of body "trim_ascii body"] by (auto simp: parse_version_iff)
next
  assume "\<exists>w ds w'. body = w @ ds @ w' \<and> white_space w \<and> white_space w' \<and>
      ds \<noteq> [] \<and> list_all is_ascii_digit ds \<and> number_value ds = unat v"
  then obtain w ds w' where *: "body = w @ ds @ w'" "white_space w" "white_space w'"
      "ds \<noteq> []" "list_all is_ascii_digit ds" "number_value ds = unat v" by blast
  then have "trim_ascii body = ds"
    using trim_ascii_over [of w w' ds] digits_trimmed by blast
  with * show "parse_version body = Some v" by (simp add: parse_version_iff)
qed

subsection \<open>Properties\<close>

text \<open>
  C29: a base URL and a project parse exactly to the request target they denote. The URL is
  \<open>http\<close> or \<open>https\<close>, \<open>://\<close>, a non-empty host of letters, digits, dots, dashes and
  underscores, optionally a colon and a non-zero port (443 or 80 where it is left out), and a
  prefix; the path is a slash and a valid segment for each non-empty piece of the prefix and
  then for the project, at most 192 bytes, followed by zeros. Everything else is an error. In
  particular no byte that could end the request line or a header reaches a target.
\<close>

theorem url_parses_to_target: "parse_url base project = Inr u \<longleftrightarrow> url_denotes base project u"
  by (rule parse_url_iff)

text \<open>
  C30: the version file is accepted exactly when, apart from whitespace around it, it is a
  non-empty string of digits whose value fits 32 bits, and that value is the version; there is
  no wrap-around.
\<close>

theorem version_exact:
  "parse_version body = Some v \<longleftrightarrow>
     (\<exists>w ds w'. body = w @ ds @ w' \<and> list_all is_ascii_whitespace w \<and> list_all is_ascii_whitespace w' \<and>
        ds \<noteq> [] \<and> list_all is_ascii_digit ds \<and> number_value ds = unat v)"
  unfolding parse_version_body by (simp only: list_all_iff)

text \<open>
  C31: the digest file is accepted exactly when, apart from whitespace around it, it is the
  lowercase hexadecimal text of 32 bytes, and those bytes are the digest: parsing inverts the
  hexadecimal encoding, and no other text is accepted.
\<close>

theorem sha256_hex_roundtrip:
  "parse_sha256_hex body = Some d \<longleftrightarrow>
     length d = 32 \<and> (\<exists>w w'. body = w @ hex_text d @ w' \<and>
       list_all is_ascii_whitespace w \<and> list_all is_ascii_whitespace w')"
  using trim_ascii_iff [of body "hex_text d"] hex_text_trimmed [of d]
  by (simp add: parse_sha256_hex_iff list_all_iff)

end
