(* ===== verification/Base64.thy ===== *)
theory Base64
  imports Prelude
begin

text \<open>
  The base64 encoder of \<open>core/src/ota/mod.rs\<close> and the Basic authorization header built with
  it. The encoder pulls its input from an iterator, which is the list of the bytes still to
  come, and returns the output buffer as it leaves it, also when the buffer is too small.
\<close>

definition B64 :: bytes where
  "B64 = ascii ''ABCDEFGHIJKLMNOPQRSTUVWXYZabcdefghijklmnopqrstuvwxyz0123456789+/''"

text \<open>\<open>next()\<close> on the iterator, which stays exhausted once it is.\<close>

fun pull :: "bytes \<Rightarrow> u8 option \<times> bytes" where
  "pull [] = (None, [])"
| "pull (b # bs) = (Some b, bs)"

definition unwrap_or_0 :: "u8 option \<Rightarrow> u8" where
  "unwrap_or_0 b = (case b of Some x \<Rightarrow> x | None \<Rightarrow> 0)"

text \<open>The 24 bits of a group, and the character of six of them.\<close>

definition group_bits :: "u8 \<Rightarrow> u8 option \<Rightarrow> u8 option \<Rightarrow> u32" where
  "group_bits b0 b1 b2 =
     push_bit 16 (ucast b0) OR push_bit 8 (ucast (unwrap_or_0 b1)) OR ucast (unwrap_or_0 b2)"

definition sextet :: "u32 \<Rightarrow> nat \<Rightarrow> u8" where
  "sextet n k = B64 ! unat (drop_bit k n AND 63)"

lemma pull_length: "pull xs = (b, ys) \<Longrightarrow> length ys \<le> length xs \<and> (b \<noteq> None \<longrightarrow> length ys < length xs)"
  by (cases xs) auto

function base64_fill :: "bytes \<Rightarrow> bytes \<Rightarrow> nat \<Rightarrow> bytes \<times> nat option" where
  "base64_fill input out pos =
     (case pull input of
        (None, _) \<Rightarrow> (out, Some pos)
      | (Some b0, r0) \<Rightarrow>
          (let (b1, r1) = pull r0;
               (b2, r2) = pull r1
           in if length out < pos + 4 then (out, None)
              else
                let n = group_bits b0 b1 b2;
                    out1 = out[pos := sextet n 18];
                    out2 = out1[pos + 1 := sextet n 12];
                    out3 = out2[pos + 2 := (case b1 of Some _ \<Rightarrow> sextet n 6 | None \<Rightarrow> 0x3D)];
                    out4 = out3[pos + 3 := (case b2 of Some _ \<Rightarrow> sextet n 0 | None \<Rightarrow> 0x3D)]
                in if b2 = None then (out4, Some (pos + 4)) else base64_fill r2 out4 (pos + 4)))"
  by pat_completeness auto

termination
  by (relation "measure (\<lambda>(input, out, pos). length input)")
    (auto dest!: pull_length [OF sym] pull_length)

declare base64_fill.simps [simp del]

definition base64 :: "bytes \<Rightarrow> bytes \<Rightarrow> bytes \<times> nat option" where
  "base64 input out = base64_fill input out 0"

definition PREFIX :: bytes where "PREFIX = ascii ''Basic ''"

lemma length_PREFIX [simp]: "length PREFIX = 6"
  by (simp add: PREFIX_def)

definition basic_authorization :: "bytes \<Rightarrow> bytes \<Rightarrow> bytes \<Rightarrow> bytes \<times> nat option" where
  "basic_authorization user pass out =
     (if user = [] \<and> pass = [] then (out, None)
      else if length out < length PREFIX then (out, None)
      else
        let out1 = copy_at out 0 PREFIX;
            (tail_out, n) =
              base64_fill (user @ 0x3A # pass) (drop (length PREFIX) out1) 0
        in (take (length PREFIX) out1 @ tail_out, map_option (\<lambda>n. length PREFIX + n) n))"

subsection \<open>The reference text and its decoder\<close>

text \<open>The four characters of a group of three bytes, by RFC 4648.\<close>

definition quad :: "nat \<Rightarrow> nat \<Rightarrow> nat \<Rightarrow> bytes" where
  "quad a b c =
     [B64 ! (a div 4), B64 ! (a mod 4 * 16 + b div 16), B64 ! (b mod 16 * 4 + c div 64), B64 ! (c mod 64)]"

fun base64_text :: "bytes \<Rightarrow> bytes" where
  "base64_text [] = []"
| "base64_text [a] = take 2 (quad (unat a) 0 0) @ [0x3D, 0x3D]"
| "base64_text [a, b] = take 3 (quad (unat a) (unat b) 0) @ [0x3D]"
| "base64_text (a # b # c # bs) = quad (unat a) (unat b) (unat c) @ base64_text bs"

definition sextet_value :: "u8 \<Rightarrow> nat" where
  "sextet_value c = the (position ((=) c) B64)"

text \<open>A decoder, of the canonical texts.\<close>

fun base64_decode :: "bytes \<Rightarrow> bytes option" where
  "base64_decode [] = Some []"
| "base64_decode (c0 # c1 # c2 # c3 # cs) =
     (let v0 = sextet_value c0; v1 = sextet_value c1; v2 = sextet_value c2; v3 = sextet_value c3;
          x = of_nat (v0 * 4 + v1 div 16);
          y = of_nat (v1 mod 16 * 16 + v2 div 4);
          z = of_nat (v2 mod 4 * 64 + v3)
      in if c2 = 0x3D then (if cs = [] \<and> c3 = 0x3D then Some [x] else None)
         else if c3 = 0x3D then (if cs = [] then Some [x, y] else None)
         else map_option (\<lambda>r. x # y # z # r) (base64_decode cs))"
| "base64_decode _ = None"

lemma B64_codes: "B64 = map of_nat ([65..<91] @ [97..<123] @ [48..<58] @ [43, 47])"
  by (simp add: B64_def ascii_def upt_rec)

lemma length_B64 [simp]: "length B64 = 64"
  by (simp add: B64_def)

lemma distinct_B64: "distinct B64"
proof -
  have "inj_on (of_nat :: nat \<Rightarrow> u8) {..<256}"
    by (rule inj_on_inverseI [of _ unat]) (simp add: unat_of_nat)
  then have "inj_on (of_nat :: nat \<Rightarrow> u8) (set ([65..<91] @ [97..<123] @ [48..<58] @ [43, 47]))"
    by (rule inj_on_subset) auto
  then show ?thesis unfolding B64_codes distinct_map by simp
qed

lemma position_distinct: "distinct xs \<Longrightarrow> i < length xs \<Longrightarrow> position ((=) (xs ! i)) xs = Some i"
  by (auto simp: position_Some in_set_conv_nth nth_eq_iff_index_eq)

lemma sextet_value [simp]: "i < 64 \<Longrightarrow> sextet_value (B64 ! i) = i"
  by (simp add: sextet_value_def position_distinct distinct_B64)

lemma pad_not_B64: "0x3D \<notin> set B64"
  by (simp add: B64_def ascii_def)

lemma sextet_not_pad [simp]: "i < 64 \<Longrightarrow> B64 ! i \<noteq> 0x3D"
  by (metis length_B64 nth_mem pad_not_B64)

lemma u8_bound: "unat (b :: u8) < 256"
  using unsigned_less [of b, where ?'a = nat] by simp

lemma base64_decode_quad:
  fixes a b c :: nat
  assumes "a < 256" "b < 256" "c < 256"
  shows "a div 4 < 64" "a mod 4 * 16 + b div 16 < 64" "b mod 16 * 4 + c div 64 < 64" "c mod 64 < 64"
    "a div 4 * 4 + (a mod 4 * 16 + b div 16) div 16 = a"
    "(a mod 4 * 16 + b div 16) mod 16 * 16 + (b mod 16 * 4 + c div 64) div 4 = b"
    "(b mod 16 * 4 + c div 64) mod 4 * 64 + c mod 64 = c"
proof -
  have q: "b div 16 < 16" "c div 64 < 4" "a mod 4 < 4" "b mod 16 < 16" using assms by auto
  then show "a div 4 < 64" "a mod 4 * 16 + b div 16 < 64" "b mod 16 * 4 + c div 64 < 64" "c mod 64 < 64"
    using assms by auto
  have 1: "(a mod 4 * 16 + b div 16) div 16 = a mod 4" "(a mod 4 * 16 + b div 16) mod 16 = b div 16"
    using q by simp_all
  have 2: "(b mod 16 * 4 + c div 64) div 4 = b mod 16" "(b mod 16 * 4 + c div 64) mod 4 = c div 64"
    using q by simp_all
  show "a div 4 * 4 + (a mod 4 * 16 + b div 16) div 16 = a"
    "(a mod 4 * 16 + b div 16) mod 16 * 16 + (b mod 16 * 4 + c div 64) div 4 = b"
    "(b mod 16 * 4 + c div 64) mod 4 * 64 + c mod 64 = c"
    unfolding 1 2 by simp_all
qed

lemma base64_roundtrip: "base64_decode (base64_text bs) = Some bs"
proof (induction bs rule: base64_text.induct)
  case (2 a)
  show ?case
    using base64_decode_quad [of "unat a" 0 0] u8_bound [of a] by (simp add: quad_def del: of_nat_add of_nat_mult)
next
  case (3 a b)
  show ?case
    using base64_decode_quad [of "unat a" "unat b" 0] u8_bound [of a] u8_bound [of b]
    by (simp add: quad_def del: of_nat_add of_nat_mult)
next
  case (4 a b c bs)
  then show ?case
    using base64_decode_quad [of "unat a" "unat b" "unat c"] u8_bound [of a] u8_bound [of b]
      u8_bound [of c]
    by (simp add: quad_def del: of_nat_add of_nat_mult)
qed simp

lemma length_base64_text: "length (base64_text bs) = 4 * ((length bs + 2) div 3)"
  by (induction bs rule: base64_text.induct) (simp_all add: quad_def, presburger)

subsection \<open>The encoder writes the reference text\<close>

lemma unat_ucast_u32: "unat (ucast (b :: u8) :: u32) = unat b"
  using u8_bound [of b] by (simp add: unat_ucast_mod)

lemma unat_shifted:
  "unat (push_bit 16 (ucast (b :: u8)) :: u32) = 65536 * unat b"
  "unat (push_bit 8 (ucast (b :: u8)) :: u32) = 256 * unat b"
  using unat_mult_lem [of "ucast b" "65536 :: u32"] unat_mult_lem [of "ucast b" "256 :: u32"]
    u8_bound [of b]
  by (simp_all add: push_bit_eq_mult unat_ucast_u32)

lemma ucast_bits: "bit (ucast (b :: u8) :: u32) n \<Longrightarrow> n < 8"
  by (auto simp: bit_ucast_iff dest: bit_imp_le_length)

lemma unat_group_bits:
  "unat (group_bits b0 b1 b2) =
     65536 * unat b0 + 256 * unat (unwrap_or_0 b1) + unat (unwrap_or_0 b2)"
proof -
  let ?x = "push_bit 16 (ucast b0) :: u32"
  let ?y = "push_bit 8 (ucast (unwrap_or_0 b1)) :: u32"
  let ?z = "ucast (unwrap_or_0 b2) :: u32"
  have "?x AND ?y = 0"
    by (rule bit_eqI) (auto simp: bit_and_iff bit_push_bit_iff dest!: ucast_bits)
  then have xy: "?x OR ?y = ?x + ?y" by (simp only: disjunctive_add_eq_or)
  have "(?x OR ?y) AND ?z = 0"
    by (rule bit_eqI) (auto simp: bit_and_iff bit_or_iff bit_push_bit_iff dest!: ucast_bits)
  moreover have "group_bits b0 b1 b2 = (?x OR ?y) OR ?z" by (simp add: group_bits_def or.assoc)
  ultimately have xyz: "group_bits b0 b1 b2 = ?x + ?y + ?z"
    using disjunctive_add_eq_or [of "?x OR ?y" ?z] by (simp only: xy)
  have "unat ?x = 65536 * unat b0" "unat ?y = 256 * unat (unwrap_or_0 b1)" "unat ?z = unat (unwrap_or_0 b2)"
    by (simp_all only: unat_shifted unat_ucast_u32)
  moreover note u8_bound [of b0] u8_bound [of "unwrap_or_0 b1"] u8_bound [of "unwrap_or_0 b2"]
  ultimately show ?thesis
    unfolding xyz by (subst unat_plus_nowrap; (subst unat_plus_nowrap)?; simp)
qed

lemma unat_drop_and: "unat (drop_bit k n AND 63) = unat (n :: u32) div 2 ^ k mod 64"
proof -
  have eq: "drop_bit k n AND 63 = take_bit 6 (drop_bit k n)"
    by (simp add: take_bit_eq_mask mask_eq_exp_minus_1)
  have "unat n < 2 ^ 32" using unsigned_less [of n, where ?'a = nat] by simp
  then show ?thesis
    unfolding eq unsigned_take_bit_eq unsigned_drop_bit_eq
    by (simp only: take_bit_eq_mod drop_bit_eq_div) simp
qed

lemma sextets:
  fixes a b c :: nat
  assumes "a < 256" "b < 256" "c < 256"
  shows "(65536 * a + 256 * b + c) div 2 ^ 18 mod 64 = a div 4"
    "(65536 * a + 256 * b + c) div 2 ^ 12 mod 64 = a mod 4 * 16 + b div 16"
    "(65536 * a + 256 * b + c) div 2 ^ 6 mod 64 = b mod 16 * 4 + c div 64"
    "(65536 * a + 256 * b + c) div 2 ^ 0 mod 64 = c mod 64"
proof -
  let ?n = "65536 * a + 256 * b + c"
  have q: "b div 16 < 16" "c div 64 < 4" "a div 4 < 64" using assms by auto
  have bc: "256 * b + c < 65536" using assms by simp
  have "?n div 2 ^ 18 = ?n div 65536 div 4" by (simp add: div_mult2_eq [symmetric])
  also have "?n div 65536 = (65536 * a + (256 * b + c)) div 65536" by (simp only: add.assoc)
  also have "\<dots> = a" using bc by simp
  finally show "?n div 2 ^ 18 mod 64 = a div 4" using q by simp
  have "?n div 2 ^ 12 = ?n div 256 div 16" by (simp add: div_mult2_eq [symmetric])
  also have "?n div 256 = 256 * a + b" using assms(3) by simp
  also have "(256 * a + b) div 16 = 16 * a + b div 16" by simp
  finally have "?n div 2 ^ 12 = 16 * a + b div 16" .
  moreover obtain u v where "a = 4 * u + v" "v < 4" using that [of "a div 4" "a mod 4"] by simp
  moreover have "(64 * u + (16 * v + b div 16)) mod 64 = 16 * v + b div 16" if "v < 4"
    using that q(1) by simp
  ultimately show "?n div 2 ^ 12 mod 64 = a mod 4 * 16 + b div 16" by (simp add: add.assoc)
  obtain x y z w where bc: "b = 16 * x + y" "c = 64 * z + w" "y < 16" "w < 64" "z < 4"
    using that [of "b div 16" "b mod 16" "c div 64" "c mod 64"] q(2) by simp
  then have "?n = 64 * (64 * (16 * a + x) + (4 * y + z)) + w" by simp
  then have "?n div 2 ^ 6 = 64 * (16 * a + x) + (4 * y + z)" using bc(4) by simp
  moreover have "(64 * (16 * a + x) + (4 * y + z)) mod 64 = 4 * y + z"
    using bc by (simp only: mod_mult_self4) simp
  ultimately show "?n div 2 ^ 6 mod 64 = b mod 16 * 4 + c div 64" using bc by (simp only:) simp
  have "?n = 64 * (1024 * a + 4 * b) + c" by simp
  then show "?n div 2 ^ 0 mod 64 = c mod 64" by (simp only: power_0 div_by_1 mod_mult_self4)
qed

lemma group_sextets:
  "sextet (group_bits b0 b1 b2) 18 = quad (unat b0) (unat (unwrap_or_0 b1)) (unat (unwrap_or_0 b2)) ! 0"
  "sextet (group_bits b0 b1 b2) 12 = quad (unat b0) (unat (unwrap_or_0 b1)) (unat (unwrap_or_0 b2)) ! 1"
  "sextet (group_bits b0 b1 b2) 6 = quad (unat b0) (unat (unwrap_or_0 b1)) (unat (unwrap_or_0 b2)) ! 2"
  "sextet (group_bits b0 b1 b2) 0 = quad (unat b0) (unat (unwrap_or_0 b1)) (unat (unwrap_or_0 b2)) ! 3"
  unfolding sextet_def unat_drop_and unat_group_bits sextets [OF u8_bound u8_bound u8_bound]
  by (simp_all add: quad_def)

text \<open>The characters of one round of the loop, as one write of four bytes.\<close>

lemma four_writes:
  assumes "pos + 4 \<le> length out"
  shows "out[pos := a, pos + 1 := b, pos + 2 := c, pos + 3 := d] = copy_at out pos [a, b, c, d]"
proof -
  obtain xs ws ys where out: "out = xs @ ws @ ys" "length xs = pos" "length ws = 4"
    using assms that [of "take pos out" "take 4 (drop pos out)" "drop (pos + 4) out"]
    by (metis append_take_drop_id drop_drop add.commute add_leD1 le_diff_conv2 length_drop length_take min.absorb2)
  then obtain p q r s where "ws = [p, q, r, s]"
    by (auto simp: numeral_eq_Suc length_Suc_conv)
  with out show ?thesis by (simp add: copy_at_def list_update_append)
qed

text \<open>One round of the loop.\<close>

definition round_text :: "u8 \<Rightarrow> u8 option \<Rightarrow> u8 option \<Rightarrow> bytes" where
  "round_text b0 b1 b2 =
     (let q = quad (unat b0) (unat (unwrap_or_0 b1)) (unat (unwrap_or_0 b2))
      in [q ! 0, q ! 1, (case b1 of Some _ \<Rightarrow> q ! 2 | None \<Rightarrow> 0x3D),
          (case b2 of Some _ \<Rightarrow> q ! 3 | None \<Rightarrow> 0x3D)])"

lemma length_round_text [simp]: "length (round_text b0 b1 b2) = 4"
  by (simp add: round_text_def Let_def)

lemma base64_fill_Nil [simp]: "base64_fill [] out pos = (out, Some pos)"
  by (simp add: base64_fill.simps)

lemma base64_fill_Cons:
  "base64_fill (b0 # r0) out pos =
     (let (b1, r1) = pull r0; (b2, r2) = pull r1
      in if length out < pos + 4 then (out, None)
         else let out' = copy_at out pos (round_text b0 b1 b2)
           in if b2 = None then (out', Some (pos + 4)) else base64_fill r2 out' (pos + 4))"
  by (subst base64_fill.simps)
    (simp add: group_sextets four_writes [simplified] round_text_def Let_def split: prod.split option.split)

lemma base64_text_round:
  "base64_text [a] = round_text a None None"
  "base64_text [a, b] = round_text a (Some b) None"
  "base64_text (a # b # c # bs) = round_text a (Some b) (Some c) @ base64_text bs"
  by (simp_all add: round_text_def quad_def unwrap_or_0_def Let_def)

declare base64_text.simps [simp del]

lemma base64_text_Nil [simp]: "base64_text [] = []"
  by (simp add: base64_text.simps)

lemma base64_fill_spec:
  "pos \<le> length out \<Longrightarrow>
     (if pos + length (base64_text input) \<le> length out
      then base64_fill input out pos =
        (copy_at out pos (base64_text input), Some (pos + length (base64_text input)))
      else snd (base64_fill input out pos) = None \<and>
        length (fst (base64_fill input out pos)) = length out)"
proof (induction input arbitrary: out pos rule: base64_text.induct)
  case (4 a b c bs)
  let ?q = "round_text a (Some b) (Some c)"
  show ?case
  proof (cases "length out < pos + 4")
    case True
    then show ?thesis by (simp add: base64_fill_Cons base64_text_round)
  next
    case False
    have eq: "base64_fill (a # b # c # bs) out pos = base64_fill bs (copy_at out pos ?q) (pos + 4)"
      using False by (simp add: base64_fill_Cons)
    have "copy_at (copy_at out pos ?q) (pos + 4) t = copy_at out pos (?q @ t)" for t
      using False by (simp add: copy_at_def add.commute add.left_commute)
    with "4.IH" [of "pos + 4" "copy_at out pos ?q"] False show ?thesis
      unfolding eq base64_text_round by (simp add: add.assoc split: if_splits)
  qed
qed (simp_all add: base64_fill_Cons base64_text_round copy_at_def)

lemma basic_authorization_spec:
  "if (user = [] \<and> pass = []) \<or>
       length out < 6 + length (base64_text (user @ 0x3A # pass))
   then snd (basic_authorization user pass out) = None \<and>
     length (fst (basic_authorization user pass out)) = length out
   else basic_authorization user pass out =
     (copy_at out 0 (PREFIX @ base64_text (user @ 0x3A # pass)),
      Some (6 + length (base64_text (user @ 0x3A # pass))))"
proof -
  let ?cred = "user @ 0x3A # pass"
  show ?thesis
  proof (cases "(user = [] \<and> pass = []) \<or> length out < 6")
    case True
    then show ?thesis by (auto simp: basic_authorization_def Let_def)
  next
    case False
    from False have out: "drop 6 (copy_at out 0 PREFIX) = drop 6 out" "take 6 (copy_at out 0 PREFIX) = PREFIX"
      by (simp_all add: copy_at_0)
    have eq: "basic_authorization user pass out =
        (PREFIX @ fst (base64_fill ?cred (drop 6 out) 0),
         map_option (\<lambda>n. 6 + n) (snd (base64_fill ?cred (drop 6 out) 0)))"
      using False out unfolding basic_authorization_def Let_def by (auto simp: split_beta)
    show ?thesis
      using False base64_fill_spec [of 0 "drop 6 out" ?cred]
      unfolding eq by (auto simp: copy_at_0 add.commute [of _ 6] split: if_splits)
  qed
qed

lemma base64_text_chars: "c \<in> set (base64_text bs) \<Longrightarrow> c \<in> set B64 \<or> c = 0x3D"
proof -
  have quad: "set (quad (unat a) (unat b) (unat c)) \<subseteq> set B64" for a b c :: u8
    using base64_decode_quad(1-4) [of "unat a" "unat b" "unat c"] u8_bound [of a] u8_bound [of b]
      u8_bound [of c]
    by (simp add: quad_def)
  have q2: "set (take 2 (quad (unat a) 0 0)) \<subseteq> set B64" "set (take 3 (quad (unat a) (unat b) 0)) \<subseteq> set B64"
    for a b :: u8
    using quad [of a 0 0] quad [of a b 0] by (auto dest: in_set_takeD)
  show "c \<in> set (base64_text bs) \<Longrightarrow> c \<in> set B64 \<or> c = 0x3D"
  proof (induction bs rule: base64_text.induct)
    case (2 a)
    then show ?case using q2(1) [of a] by (auto simp: base64_text.simps)
  next
    case (3 a b)
    then show ?case using q2(2) [of a b] by (auto simp: base64_text.simps)
  next
    case (4 a b c bs)
    then show ?case using quad [of a b c] by (auto simp: base64_text.simps)
  qed simp
qed

subsection \<open>Properties\<close>

text \<open>
  C32: base64 encoding fails exactly when the buffer is shorter than four characters for every
  started group of three bytes; it never changes the buffer's length; and where it succeeds it
  returns that number of characters, leaves the rest of the buffer alone, and what it wrote
  decodes to the input.
\<close>

theorem base64_encodes:
  "case base64 input out of
     (out', None) \<Rightarrow> length out' = length out \<and> length out < 4 * ((length input + 2) div 3)
   | (out', Some n) \<Rightarrow> n = 4 * ((length input + 2) div 3) \<and> n \<le> length out \<and>
       length out' = length out \<and> drop n out' = drop n out \<and>
       base64_decode (take n out') = Some input"
  using base64_fill_spec [of 0 out input] base64_roundtrip [of input] length_base64_text [of input]
  by (auto simp: base64_def copy_at_0 split: prod.split option.split if_splits)

text \<open>
  The authorization header is absent exactly when both credentials are empty or the buffer
  is too small; otherwise it is \<open>Basic \<close> followed by a text that decodes to the user, a colon
  and the password, and the rest of the buffer is left alone.
\<close>

lemma basic_authorization_encodes:
  "case basic_authorization user pass out of
     (out', None) \<Rightarrow> length out' = length out \<and>
       (user = [] \<and> pass = [] \<or> length out < 6 + 4 * ((length user + length pass + 3) div 3))
   | (out', Some n) \<Rightarrow> \<not> (user = [] \<and> pass = []) \<and>
       n = 6 + 4 * ((length user + length pass + 3) div 3) \<and> n \<le> length out \<and>
       length out' = length out \<and> drop n out' = drop n out \<and> take 6 out' = PREFIX \<and>
       base64_decode (drop 6 (take n out')) = Some (user @ 0x3A # pass)"
proof -
  let ?cred = "user @ 0x3A # pass"
  have len: "length (base64_text ?cred) = 4 * ((length user + length pass + 3) div 3)"
    by (simp add: length_base64_text)
  show ?thesis
    using basic_authorization_spec [of user pass out] base64_roundtrip [of ?cred]
    unfolding len by (auto simp: copy_at_0 len split: if_splits)
qed

end
