(* ===== verification/Http_Head.thy ===== *)
theory Http_Head
  imports Machines Decimal
begin

text \<open>
  The byte-fed response-head parser of \<open>core/src/ota/http.rs\<close>: one call of \<open>push\<close> takes the
  parser and a byte and returns the parser and the event. The specification is line based: it
  looks at the complete lines of everything fed so far. The parser refines it, and a complete
  head is characterised by its status line and headers.
\<close>

definition MAX_HEAD_BYTES :: nat where "MAX_HEAD_BYTES = 2048"

record response_head =
  rh_status :: u16
  rh_length :: "u64 option"

datatype head_error =
    MalformedStatusLine | TooFewStatusTokens | NonNumericStatus | UnexpectedStatus
  | TransferEncoding | MissingContentLength | DuplicateContentLength | MalformedHeader
  | OversizedHeader

datatype head_event = NeedMore | Complete response_head | Reject head_error

datatype head_state = S_Status | S_Headers | S_Done

record header_update =
  u_transfer_encoding :: bool
  u_content_length :: "u64 option"

datatype head_action = A_Continue | A_Status u16 | A_Header header_update | A_Finish | A_Fail head_error

record head_parser =
  state :: head_state
  terminal :: "head_event option"
  line :: bytes
  line_len :: nat
  total :: nat
  status :: u16
  content_length :: "u64 option"
  transfer_encoding :: bool

definition head_new :: head_parser where
  "head_new = \<lparr>state = S_Status, terminal = None, line = replicate MAX_HEAD_BYTES 0, line_len = 0,
     total = 0, status = 0, content_length = None, transfer_encoding = False\<rparr>"

definition consumed :: "head_parser \<Rightarrow> nat" where
  "consumed p = total p"

definition reject :: "head_parser \<Rightarrow> head_error \<Rightarrow> head_parser \<times> head_event" where
  "reject p e = (p\<lparr>state := S_Done, terminal := Some (Reject e)\<rparr>, Reject e)"

definition complete :: "head_parser \<Rightarrow> u64 option \<Rightarrow> head_parser \<times> head_event" where
  "complete p len =
     (let event = Complete \<lparr>rh_status = status p, rh_length = len\<rparr>
      in (p\<lparr>state := S_Done, terminal := Some event\<rparr>, event))"

definition head_finish :: "head_parser \<Rightarrow> head_parser \<times> head_event" where
  "head_finish p =
     (if transfer_encoding p then reject p TransferEncoding
      else if \<not> (200 \<le> status p \<and> status p \<le> 299) \<and> status p \<noteq> 404 then reject p UnexpectedStatus
      else case content_length p of
        Some len \<Rightarrow> complete p (Some len)
      | None \<Rightarrow> if status p = 404 then complete p None else reject p MissingContentLength)"

text \<open>The loop over the digits of the status code.\<close>

fun status_loop :: "u32 \<Rightarrow> bytes \<Rightarrow> head_error + u32" where
  "status_loop v [] = Inr v"
| "status_loop v (d # ds) =
     (let v' = v * 10 + ucast (d - 0x30) in
      if 65535 < v' then Inl NonNumericStatus else status_loop v' ds)"

definition parse_status :: "bytes \<Rightarrow> head_error + u16" where
  "parse_status l =
     (if \<not> (starts_with l (ascii ''HTTP/1.0 '') \<or> starts_with l (ascii ''HTTP/1.1 '')) then
        Inl MalformedStatusLine
      else
        let token_count = length (filter (\<lambda>s. s \<noteq> []) (split_on 0x20 l)) in
        if token_count < 3 then Inl TooFewStatusTokens
        else
          let rest = drop 9 l;
              code = (case position ((=) 0x20) rest of Some i \<Rightarrow> take i rest | None \<Rightarrow> rest)
          in if code = [] \<or> \<not> list_all is_ascii_digit code then Inl NonNumericStatus
             else map_sum id ucast (status_loop 0 code))"

text \<open>The loop over the digits of a content length.\<close>

fun length_loop :: "u64 \<Rightarrow> bytes \<Rightarrow> head_error + u64" where
  "length_loop v [] = Inr v"
| "length_loop v (d # ds) =
     (if \<not> is_ascii_digit d then Inl MalformedHeader
      else case checked_mul v 10 of
        None \<Rightarrow> Inl MalformedHeader
      | Some v10 \<Rightarrow>
          (case checked_add v10 (ucast (d - 0x30)) of
             None \<Rightarrow> Inl MalformedHeader
           | Some v' \<Rightarrow> length_loop v' ds))"

definition parse_header :: "bytes \<Rightarrow> head_error + header_update" where
  "parse_header l =
     (case position ((=) 0x3A) l of
        None \<Rightarrow> Inl MalformedHeader
      | Some colon \<Rightarrow>
          (let name = trim_ascii (take colon l);
               val = trim_ascii (drop (colon + 1) l);
               upd = \<lparr>u_transfer_encoding = False, u_content_length = None\<rparr>
           in if eq_ignore_ascii_case name (ascii ''transfer-encoding'') then
                Inr (upd\<lparr>u_transfer_encoding := True\<rparr>)
              else if eq_ignore_ascii_case name (ascii ''content-length'') then
                (if val = [] then Inl MalformedHeader
                 else map_sum id (\<lambda>n. upd\<lparr>u_content_length := Some n\<rparr>) (length_loop 0 val))
              else Inr upd))"

text \<open>The three steps of \<open>push\<close> at a line feed: the line without a carriage return, what it
  means in the parser's state, and the effect of that.\<close>

definition current_line :: "head_parser \<Rightarrow> bytes" where
  "current_line p =
     (let stop =
        (if 0 < line_len p \<and> line p ! (line_len p - 1) = 0x0D then line_len p - 1 else line_len p)
      in take stop (line p))"

definition line_action :: "head_state \<Rightarrow> bytes \<Rightarrow> head_action" where
  "line_action st l =
     (case st of
        S_Status \<Rightarrow> (case parse_status l of Inr s \<Rightarrow> A_Status s | Inl e \<Rightarrow> A_Fail e)
      | S_Headers \<Rightarrow>
          if l = [] then A_Finish
          else (case parse_header l of Inr u \<Rightarrow> A_Header u | Inl e \<Rightarrow> A_Fail e)
      | S_Done \<Rightarrow> A_Continue)"

definition act :: "head_parser \<Rightarrow> head_action \<Rightarrow> head_parser \<times> head_event" where
  "act p action =
     (case action of
        A_Continue \<Rightarrow> (p, NeedMore)
      | A_Fail e \<Rightarrow> reject p e
      | A_Status s \<Rightarrow> (p\<lparr>status := s, state := S_Headers\<rparr>, NeedMore)
      | A_Header u \<Rightarrow>
          (let p1 = (if u_transfer_encoding u then p\<lparr>transfer_encoding := True\<rparr> else p)
           in case u_content_length u of
                None \<Rightarrow> (p1, NeedMore)
              | Some n \<Rightarrow>
                  if content_length p1 \<noteq> None then reject p1 DuplicateContentLength
                  else (p1\<lparr>content_length := Some n\<rparr>, NeedMore))
      | A_Finish \<Rightarrow> head_finish p)"

definition push :: "head_parser \<Rightarrow> u8 \<Rightarrow> head_parser \<times> head_event" where
  "push p b =
     (case terminal p of
        Some event \<Rightarrow> (p, event)
      | None \<Rightarrow>
          let p1 = p\<lparr>total := total p + 1\<rparr> in
          if MAX_HEAD_BYTES < total p1 then reject p1 OversizedHeader
          else if b \<noteq> 0x0A then
            if length (line p1) \<le> line_len p1 then reject p1 MalformedHeader
            else (p1\<lparr>line := (line p1)[line_len p1 := b], line_len := line_len p1 + 1\<rparr>, NeedMore)
          else
            let action = line_action (state p1) (current_line p1)
            in act (p1\<lparr>line_len := 0\<rparr>) action)"

subsection \<open>The specification on complete lines\<close>

text \<open>The end of a head with this status, content length and transfer encoding.\<close>

definition head_end :: "u16 \<Rightarrow> u64 option \<Rightarrow> bool \<Rightarrow> head_event" where
  "head_end s len te =
     (if te then Reject TransferEncoding
      else if \<not> (200 \<le> s \<and> s \<le> 299) \<and> s \<noteq> 404 then Reject UnexpectedStatus
      else if len = None \<and> s \<noteq> 404 then Reject MissingContentLength
      else Complete \<lparr>rh_status = s, rh_length = len\<rparr>)"

fun headers_spec :: "u16 \<Rightarrow> u64 option \<Rightarrow> bool \<Rightarrow> bytes list \<Rightarrow> head_event" where
  "headers_spec s len te [] = NeedMore"
| "headers_spec s len te (l # ls) =
     (if l = [] then head_end s len te
      else case parse_header l of
        Inl e \<Rightarrow> Reject e
      | Inr u \<Rightarrow>
          if len \<noteq> None \<and> u_content_length u \<noteq> None then Reject DuplicateContentLength
          else headers_spec s (if u_content_length u \<noteq> None then u_content_length u else len)
            (te \<or> u_transfer_encoding u) ls)"

fun lines_spec :: "bytes list \<Rightarrow> head_event" where
  "lines_spec [] = NeedMore"
| "lines_spec (l # ls) =
     (case parse_status l of Inl e \<Rightarrow> Reject e | Inr s \<Rightarrow> headers_spec s None False ls)"

definition strip_cr :: "bytes \<Rightarrow> bytes" where
  "strip_cr l = (if l \<noteq> [] \<and> last l = 0x0D then butlast l else l)"

text \<open>The complete lines of a byte stream, and what follows the last of them.\<close>

definition full_lines :: "bytes \<Rightarrow> bytes list" where
  "full_lines bs = map strip_cr (butlast (split_on 0x0A bs))"

definition open_line :: "bytes \<Rightarrow> bytes" where
  "open_line bs = last (split_on 0x0A bs)"

definition head_spec :: "bytes \<Rightarrow> head_event" where
  "head_spec bs = lines_spec (full_lines bs)"

text \<open>With the bound on the whole head.\<close>

definition bounded_spec :: "bytes \<Rightarrow> head_event" where
  "bounded_spec bs =
     (if head_spec (take MAX_HEAD_BYTES bs) = NeedMore \<and> MAX_HEAD_BYTES < length bs
      then Reject OversizedHeader else head_spec (take MAX_HEAD_BYTES bs))"

subsection \<open>The specification is decided once and for all\<close>

lemma headers_spec_sticky:
  "headers_spec s len te ls \<noteq> NeedMore \<Longrightarrow> headers_spec s len te (ls @ ms) = headers_spec s len te ls"
  by (induction s len te ls rule: headers_spec.induct) (auto split: sum.splits)

lemma lines_spec_sticky: "lines_spec ls \<noteq> NeedMore \<Longrightarrow> lines_spec (ls @ ms) = lines_spec ls"
  by (cases ls) (auto simp: headers_spec_sticky split: sum.splits)

lemma split_on_snoc:
  "split_on c (xs @ [x]) =
     (if x = c then split_on c xs @ [[]]
      else butlast (split_on c xs) @ [last (split_on c xs) @ [x]])"
proof (induction xs)
  case Nil
  then show ?case by simp
next
  case (Cons y ys)
  obtain g gs where g: "split_on c ys = g # gs" by (cases "split_on c ys") simp_all
  show ?case using Cons g by (cases gs) auto
qed

lemma full_lines_Nil [simp]: "full_lines [] = []"
  by (simp add: full_lines_def)

lemma open_line_Nil [simp]: "open_line [] = []"
  by (simp add: open_line_def)

lemma full_lines_snoc:
  "full_lines (bs @ [b]) = full_lines bs @ (if b = 0x0A then [strip_cr (open_line bs)] else [])"
proof -
  have "split_on 0x0A bs = butlast (split_on 0x0A bs) @ [last (split_on 0x0A bs)]" by simp
  then have "map strip_cr (split_on 0x0A bs) = full_lines bs @ [strip_cr (open_line bs)]"
    unfolding full_lines_def open_line_def by (metis list.map(1,2) map_append)
  then show ?thesis by (simp add: full_lines_def split_on_snoc)
qed

lemma open_line_snoc: "open_line (bs @ [b]) = (if b = 0x0A then [] else open_line bs @ [b])"
  by (simp add: open_line_def split_on_snoc)

lemma head_spec_snoc: "head_spec bs \<noteq> NeedMore \<Longrightarrow> head_spec (bs @ [b]) = head_spec bs"
  by (simp add: head_spec_def full_lines_snoc lines_spec_sticky)

lemma bounded_spec_snoc:
  "bounded_spec bs \<noteq> NeedMore \<Longrightarrow> bounded_spec (bs @ [b]) = bounded_spec bs"
  by (cases "length bs < MAX_HEAD_BYTES"; cases "length bs = MAX_HEAD_BYTES")
    (auto simp: bounded_spec_def head_spec_snoc split: if_splits)

lemma bounded_spec_append:
  "bounded_spec bs \<noteq> NeedMore \<Longrightarrow> bounded_spec (bs @ cs) = bounded_spec bs"
  by (induction cs rule: rev_induct)
    (simp_all add: bounded_spec_snoc flip: append_assoc)

lemma bounded_spec_prefix:
  assumes "bounded_spec bs = NeedMore" shows "bounded_spec (take k bs) = NeedMore"
  using bounded_spec_append [of "take k bs" "drop k bs"] assms by auto

subsection \<open>The parser refines the specification\<close>

text \<open>What the lines still to come will decide, by the parser's state.\<close>

definition continues :: "head_parser \<Rightarrow> bytes list \<Rightarrow> head_event" where
  "continues p ls =
     (case state p of
        S_Status \<Rightarrow> lines_spec ls
      | S_Headers \<Rightarrow> headers_spec (status p) (content_length p) (transfer_encoding p) ls
      | S_Done \<Rightarrow> NeedMore)"

definition open_inv :: "head_parser \<Rightarrow> bytes \<Rightarrow> bool" where
  "open_inv p bs \<longleftrightarrow>
     terminal p = None \<and> state p \<noteq> S_Done \<and>
     (state p = S_Status \<longrightarrow> content_length p = None \<and> \<not> transfer_encoding p) \<and>
     length bs \<le> MAX_HEAD_BYTES \<and> total p = length bs \<and> head_spec bs = NeedMore \<and>
     length (line p) = MAX_HEAD_BYTES \<and> line_len p = length (open_line bs) \<and>
     length (open_line bs) \<le> length bs \<and> take (line_len p) (line p) = open_line bs \<and>
     (\<forall>ls. lines_spec (full_lines bs @ ls) = continues p ls)"

definition done_inv :: "head_parser \<Rightarrow> bytes \<Rightarrow> bool" where
  "done_inv p bs \<longleftrightarrow>
     terminal p = Some (bounded_spec bs) \<and> bounded_spec bs \<noteq> NeedMore \<and>
     total p \<le> length bs \<and> total p \<le> MAX_HEAD_BYTES + 1 \<and>
     bounded_spec (take (total p) bs) = bounded_spec bs \<and>
     (\<forall>k < total p. bounded_spec (take k bs) = NeedMore)"

definition head_inv :: "head_parser \<Rightarrow> bytes \<Rightarrow> bool" where
  "head_inv p bs \<longleftrightarrow> open_inv p bs \<or> done_inv p bs"

lemma head_inv_new: "head_inv head_new []"
  by (simp add: head_inv_def open_inv_def head_new_def continues_def head_spec_def)

text \<open>A decision at the byte \<open>b\<close>.\<close>

lemma decided:
  assumes "open_inv p bs" and "bounded_spec (bs @ [b]) = ev" and "ev \<noteq> NeedMore"
    and "terminal q = Some ev" and "total q = length bs + 1"
  shows "head_inv q (bs @ [b])"
proof -
  have "bounded_spec bs = NeedMore" using assms(1) by (auto simp: open_inv_def bounded_spec_def)
  then have "\<forall>k < length bs + 1. bounded_spec (take k (bs @ [b])) = NeedMore"
    using bounded_spec_prefix [of bs] by auto
  then show ?thesis using assms by (auto simp: head_inv_def done_inv_def open_inv_def)
qed

lemma reject_decided:
  assumes "open_inv p bs" and "bounded_spec (bs @ [b]) = Reject e" and "total q = length bs + 1"
  shows "head_inv (fst (reject q e)) (bs @ [b])" and "snd (reject q e) = Reject e"
  using decided [OF assms(1,2)] assms(3) by (simp_all add: reject_def)

lemma complete_decided:
  assumes "open_inv p bs" and "bounded_spec (bs @ [b]) = Complete \<lparr>rh_status = status q, rh_length = len\<rparr>"
    and "total q = length bs + 1"
  shows "head_inv (fst (complete q len)) (bs @ [b])"
    and "snd (complete q len) = Complete \<lparr>rh_status = status q, rh_length = len\<rparr>"
  using decided [OF assms(1,2)] assms(3) by (simp_all add: complete_def Let_def)

lemma head_finish_decided:
  assumes "open_inv p bs"
    and "bounded_spec (bs @ [b]) = head_end (status q) (content_length q) (transfer_encoding q)"
    and "total q = length bs + 1"
  shows "head_inv (fst (head_finish q)) (bs @ [b])"
    and "snd (head_finish q) = head_end (status q) (content_length q) (transfer_encoding q)"
proof -
  note R = reject_decided [OF assms(1) _ assms(3)] and C = complete_decided [OF assms(1) _ assms(3)]
  show "head_inv (fst (head_finish q)) (bs @ [b])"
    using assms(2) by (auto simp: head_finish_def head_end_def split: option.split if_splits intro!: R C)
  show "snd (head_finish q) = head_end (status q) (content_length q) (transfer_encoding q)"
    by (auto simp: head_finish_def head_end_def reject_def complete_def Let_def split: option.split)
qed

lemma push_bytes:
  assumes "open_inv p bs" and "length bs < MAX_HEAD_BYTES" and "b \<noteq> 0x0A"
  shows "head_inv (fst (push p b)) (bs @ [b]) \<and> snd (push p b) = bounded_spec (bs @ [b])"
proof -
  let ?l = "open_line bs"
  have p: "terminal p = None" "total p = length bs" "length (line p) = MAX_HEAD_BYTES"
      "line_len p = length ?l" "length ?l \<le> length bs" "take (line_len p) (line p) = ?l"
      "head_spec bs = NeedMore" "\<forall>ls. lines_spec (full_lines bs @ ls) = continues p ls"
    using assms(1) by (auto simp: open_inv_def)
  let ?q = "p\<lparr>total := length bs + 1, line := (line p)[length ?l := b], line_len := length ?l + 1\<rparr>"
  have push: "push p b = (?q, NeedMore)"
    using p assms(2,3) by (simp add: push_def)
  have "take (length ?l + 1) ((line p)[length ?l := b]) = ?l @ [b]"
    using p assms(2) by (simp add: take_Suc_conv_app_nth)
  moreover have "head_spec (bs @ [b]) = NeedMore"
    using p(7) assms(3) by (simp add: head_spec_def full_lines_snoc)
  moreover have "continues ?q = continues p"
    by (cases "state p") (simp_all add: fun_eq_iff continues_def)
  ultimately have "open_inv ?q (bs @ [b])"
    using assms p by (simp add: open_inv_def open_line_snoc full_lines_snoc)
  moreover have "bounded_spec (bs @ [b]) = NeedMore"
    using \<open>head_spec (bs @ [b]) = NeedMore\<close> assms(2) by (simp add: bounded_spec_def)
  ultimately show ?thesis by (simp add: push head_inv_def)
qed

text \<open>A complete line: the buffer's contents without one trailing carriage return.\<close>

lemma line_of_buffer:
  assumes "take n buf = l" and "n = length l"
  shows "take (if 0 < n \<and> buf ! (n - 1) = 0x0D then n - 1 else n) buf = strip_cr l"
proof (cases l rule: rev_cases)
  case Nil
  then show ?thesis using assms by (simp add: strip_cr_def)
next
  case (snoc m x)
  then have "buf ! (n - 1) = x" using assms by (metis diff_Suc_1 length_append_singleton lessI nth_append_length nth_take)
  moreover have "take (n - 1) buf = m"
    using assms snoc by (metis butlast_snoc butlast_take diff_Suc_1 length_append_singleton
        length_take min.cobounded1 min_def)
  ultimately show ?thesis using assms snoc by (simp add: strip_cr_def)
qed

lemma push_newline:
  assumes "open_inv p bs" and "length bs < MAX_HEAD_BYTES"
  shows "head_inv (fst (push p 0x0A)) (bs @ [0x0A]) \<and>
    snd (push p 0x0A) = bounded_spec (bs @ [0x0A])"
proof -
  let ?l = "strip_cr (open_line bs)"
  have p: "terminal p = None" "total p = length bs" "length (line p) = MAX_HEAD_BYTES"
      "line_len p = length (open_line bs)" "take (line_len p) (line p) = open_line bs"
      "state p \<noteq> S_Done" "state p = S_Status \<longrightarrow> content_length p = None \<and> \<not> transfer_encoding p"
      "\<And>ls. lines_spec (full_lines bs @ ls) = continues p ls"
    using assms(1) by (auto simp: open_inv_def)
  have l: "current_line (p\<lparr>total := t\<rparr>) = ?l" for t
    using line_of_buffer [OF p(5,4)] by (auto simp: current_line_def Let_def split: if_splits)
  let ?p = "p\<lparr>total := length bs + 1, line_len := 0\<rparr>"
  have spec: "bounded_spec (bs @ [0x0A]) = continues p [?l]"
    using p(8) [of "[?l]"] assms(2)
    by (auto simp: bounded_spec_def head_spec_def full_lines_snoc)
  have cont: "lines_spec (full_lines (bs @ [0x0A]) @ ls) = continues p (?l # ls)" for ls
    using p(8) [of "?l # ls"] by (simp add: full_lines_snoc)
  have stay: "head_inv q (bs @ [0x0A]) \<and> continues p [?l] = NeedMore"
    if "terminal q = None" "state q = S_Headers" "total q = length bs + 1" "line_len q = 0"
      "line q = line p" "\<And>ls. continues p (?l # ls) = continues q ls" for q
  proof -
    have "continues p [?l] = NeedMore" using that(6) [of "[]"] that(2) by (simp add: continues_def)
    moreover have "head_spec (bs @ [0x0A]) = NeedMore"
      using cont [of "[]"] \<open>continues p [?l] = NeedMore\<close> by (simp add: head_spec_def)
    ultimately show ?thesis
      using that p assms(2) cont
      by (simp add: head_inv_def open_inv_def open_line_snoc)
  qed
  have at_newline: "push p 0x0A = act ?p (line_action (state p) ?l)"
    using p(1,2) assms(2) by (simp add: push_def Let_def l)
  note R = reject_decided [OF assms(1), where b = "0x0A"] and F = head_finish_decided [OF assms(1), where b = "0x0A"]
  show ?thesis
  proof (cases "state p")
    case S_Status
    then have push: "push p 0x0A = act ?p (line_action S_Status ?l)" by (simp add: at_newline)
    show ?thesis
    proof (cases "parse_status ?l")
      case (Inl e)
      then show ?thesis
        using R [of e ?p] spec S_Status push by (simp add: continues_def act_def line_action_def)
    next
      case (Inr s)
      let ?q = "?p\<lparr>status := s, state := S_Headers\<rparr>"
      have "head_inv ?q (bs @ [0x0A]) \<and> continues p [?l] = NeedMore"
        using p S_Status Inr by (intro stay) (simp_all add: continues_def)
      then show ?thesis using push Inr spec by (simp add: act_def line_action_def)
    qed
  next
    case S_Headers
    show ?thesis
    proof (cases "?l = []")
      case True
      then have "push p 0x0A = head_finish ?p"
        using S_Headers by (simp add: at_newline line_action_def act_def)
      then show ?thesis
        using F [of ?p] spec S_Headers True by (simp add: continues_def)
    next
      case False
      show ?thesis
      proof (cases "parse_header ?l")
        case (Inl e)
        then have "push p 0x0A = reject ?p e"
          using S_Headers False by (simp add: at_newline line_action_def act_def)
        then show ?thesis using R [of e ?p] spec S_Headers False Inl by (simp add: continues_def)
      next
        case (Inr u)
        let ?q = "if u_transfer_encoding u then ?p\<lparr>transfer_encoding := True\<rparr> else ?p"
        have push: "push p 0x0A = (case u_content_length u of
            None \<Rightarrow> (?q, NeedMore)
          | Some n \<Rightarrow> if content_length p \<noteq> None then reject ?q DuplicateContentLength
              else (?q\<lparr>content_length := Some n\<rparr>, NeedMore))"
          using S_Headers False Inr
          by (simp add: at_newline line_action_def act_def Let_def split: option.split)
        consider (dup) n where "u_content_length u = Some n" "content_length p \<noteq> None"
          | (none) "u_content_length u = None"
          | (first) n where "u_content_length u = Some n" "content_length p = None"
          by (cases "u_content_length u") auto
        then show ?thesis
        proof cases
          case dup
          then show ?thesis
            using R [of DuplicateContentLength ?q] spec S_Headers False Inr push
            by (simp add: continues_def)
        next
          case none
          have "head_inv ?q (bs @ [0x0A]) \<and> continues p [?l] = NeedMore"
            using p S_Headers False Inr none by (intro stay) (simp_all add: continues_def)
          with none push spec show ?thesis by simp
        next
          case (first n)
          have "head_inv (?q\<lparr>content_length := Some n\<rparr>) (bs @ [0x0A]) \<and> continues p [?l] = NeedMore"
            using p S_Headers False Inr first by (intro stay) (simp_all add: continues_def)
          with first push spec show ?thesis by simp
        qed
      qed
    qed
  qed (use p in simp)
qed

lemma push_step: "head_inv p bs \<Longrightarrow> head_inv (fst (push p b)) (bs @ [b]) \<and> snd (push p b) = bounded_spec (bs @ [b])"
proof (cases "open_inv p bs")
  case True
  then have "length bs \<le> MAX_HEAD_BYTES" by (simp add: open_inv_def)
  then consider "length bs < MAX_HEAD_BYTES" "b = 0x0A" | "length bs < MAX_HEAD_BYTES" "b \<noteq> 0x0A"
    | (full) "length bs = MAX_HEAD_BYTES" by linarith
  then show ?thesis
  proof cases
    case full
    then have "bounded_spec (bs @ [b]) = Reject OversizedHeader"
      using True by (simp add: bounded_spec_def open_inv_def)
    moreover have "push p b = reject (p\<lparr>total := length bs + 1\<rparr>) OversizedHeader"
      using True full by (simp add: push_def open_inv_def)
    ultimately show ?thesis
      using reject_decided [OF True, of b OversizedHeader "p\<lparr>total := length bs + 1\<rparr>"] by simp
  qed (use True push_newline push_bytes in simp_all)
next
  case False
  assume "head_inv p bs"
  with False have "done_inv p bs" by (simp add: head_inv_def)
  then show ?thesis
    using bounded_spec_snoc [of bs b] by (auto simp: done_inv_def head_inv_def push_def)
qed

interpretation head: history_machine push head_new "\<lambda>_. True" head_inv
  by unfold_locales (simp_all add: head_inv_new push_step)

lemma push_exact: "snd (push (final push head_new bs) b) = bounded_spec (bs @ [b])"
  using push_step [OF head.inv_final] by simp

lemma consumed_least:
  "consumed (final push head_new bs) =
     (if bounded_spec bs = NeedMore then length bs
      else (LEAST k. bounded_spec (take k bs) \<noteq> NeedMore))"
proof -
  let ?p = "final push head_new bs"
  have inv: "head_inv ?p bs" by (rule head.inv_final) simp
  show ?thesis
  proof (cases "open_inv ?p bs")
    case True
    then show ?thesis by (simp add: open_inv_def bounded_spec_def consumed_def)
  next
    case False
    with inv have d: "done_inv ?p bs" by (simp add: head_inv_def)
    then have "(LEAST k. bounded_spec (take k bs) \<noteq> NeedMore) = total ?p"
      by (intro Least_equality) (auto simp: done_inv_def not_less [symmetric])
    with d show ?thesis by (simp add: done_inv_def consumed_def)
  qed
qed

lemma consumed_bound: "consumed (final push head_new bs) \<le> MAX_HEAD_BYTES + 1"
  using head.inv_final [of bs] by (auto simp: head_inv_def open_inv_def done_inv_def consumed_def)

subsection \<open>Which heads are accepted\<close>

fun content_lengths :: "bytes list \<Rightarrow> u64 list" where
  "content_lengths [] = []"
| "content_lengths (l # ls) =
     (case parse_header l of
        Inr u \<Rightarrow> (case u_content_length u of Some n \<Rightarrow> n # content_lengths ls | None \<Rightarrow> content_lengths ls)
      | Inl _ \<Rightarrow> content_lengths ls)"

definition plain_header :: "bytes \<Rightarrow> bool" where
  "plain_header l \<longleftrightarrow> l \<noteq> [] \<and>
     (case parse_header l of Inr u \<Rightarrow> \<not> u_transfer_encoding u | Inl _ \<Rightarrow> False)"

definition accepted_status :: "u16 \<Rightarrow> bool" where
  "accepted_status s \<longleftrightarrow> (200 \<le> s \<and> s \<le> 299) \<or> s = 404"

text \<open>A complete head: a status line, plain headers and an empty line, the status accepted, and
  one content length, or none with a 404.\<close>

definition complete_head :: "bytes \<Rightarrow> response_head \<Rightarrow> bool" where
  "complete_head bs h \<longleftrightarrow>
     (\<exists>l hs rest. full_lines bs = l # hs @ [] # rest \<and> parse_status l = Inr (rh_status h) \<and>
        list_all plain_header hs \<and> accepted_status (rh_status h) \<and>
        (case rh_length h of
           Some n \<Rightarrow> content_lengths hs = [n]
         | None \<Rightarrow> content_lengths hs = [] \<and> rh_status h = 404))"

definition opt_list :: "'a option \<Rightarrow> 'a list" where
  "opt_list x = (case x of None \<Rightarrow> [] | Some y \<Rightarrow> [y])"

lemma headers_complete:
  "headers_spec s len te ls = Complete h \<longleftrightarrow>
     (\<exists>hs rest. ls = hs @ [] # rest \<and> list_all plain_header hs \<and> \<not> te \<and> rh_status h = s \<and>
        accepted_status s \<and> opt_list len @ content_lengths hs = opt_list (rh_length h) \<and>
        (rh_length h = None \<longrightarrow> s = 404))"
proof (induction s len te ls rule: headers_spec.induct)
  case (1 s len te)
  then show ?case by simp
next
  case (2 s len te l ls)
  show ?case
  proof (cases "l = []")
    case True
    have "head_end s len te = Complete h \<longleftrightarrow> \<not> te \<and> rh_status h = s \<and> accepted_status s \<and>
        len = rh_length h \<and> (rh_length h = None \<longrightarrow> s = 404)"
      by (cases h) (auto simp: head_end_def accepted_status_def)
    moreover have "opt_list len = opt_list (rh_length h) \<longleftrightarrow> len = rh_length h"
      by (auto simp: opt_list_def split: option.splits)
    moreover have "(\<exists>hs rest. [] # ls = hs @ [] # rest \<and> list_all plain_header hs \<and> Q hs) \<longleftrightarrow> Q []" for Q
    proof
      assume "\<exists>hs rest. [] # ls = hs @ [] # rest \<and> list_all plain_header hs \<and> Q hs"
      then obtain hs rest where hs: "[] # ls = hs @ [] # rest" "list_all plain_header hs" "Q hs" by blast
      then have "hs = []" by (cases hs) (auto simp: plain_header_def)
      with hs show "Q []" by simp
    next
      assume "Q []"
      then show "\<exists>hs rest. [] # ls = hs @ [] # rest \<and> list_all plain_header hs \<and> Q hs"
        by (intro exI [of _ "[]"] exI [of _ ls]) simp
    qed
    ultimately show ?thesis by (auto simp: True)
  next
    case False
    have split: "(\<exists>hs rest. l # ls = hs @ [] # rest \<and> list_all plain_header hs \<and> Q hs) \<longleftrightarrow>
        plain_header l \<and> (\<exists>hs rest. ls = hs @ [] # rest \<and> list_all plain_header hs \<and> Q (l # hs))" for Q
    proof
      assume "\<exists>hs rest. l # ls = hs @ [] # rest \<and> list_all plain_header hs \<and> Q hs"
      then obtain hs rest where hs: "l # ls = hs @ [] # rest" "list_all plain_header hs" "Q hs" by blast
      with False obtain hs' where "hs = l # hs'" by (cases hs) auto
      with hs show "plain_header l \<and>
          (\<exists>hs rest. ls = hs @ [] # rest \<and> list_all plain_header hs \<and> Q (l # hs))" by auto
    next
      assume "plain_header l \<and> (\<exists>hs rest. ls = hs @ [] # rest \<and> list_all plain_header hs \<and> Q (l # hs))"
      then obtain hs rest where "plain_header l" "ls = hs @ [] # rest" "list_all plain_header hs" "Q (l # hs)"
        by blast
      then show "\<exists>hs rest. l # ls = hs @ [] # rest \<and> list_all plain_header hs \<and> Q hs"
        by (intro exI [of _ "l # hs"] exI [of _ rest]) simp
    qed
    show ?thesis
    proof (cases "parse_header l")
      case (Inl e)
      then have "\<not> plain_header l" by (simp add: plain_header_def)
      with False Inl show ?thesis unfolding split by simp
    next
      case (Inr u)
      show ?thesis
      proof (cases "len \<noteq> None \<and> u_content_length u \<noteq> None")
        case True
        with False Inr show ?thesis unfolding split
          by (auto simp: opt_list_def split: option.splits)
      next
        case ok: False
        let ?len = "if u_content_length u \<noteq> None then u_content_length u else len"
        have len: "opt_list len @ content_lengths (l # hs) = opt_list ?len @ content_lengths hs" for hs
          using ok Inr by (auto simp: opt_list_def split: option.split)
        have spec: "headers_spec s len te (l # ls) = headers_spec s ?len (te \<or> u_transfer_encoding u) ls"
          using False ok Inr by auto
        have plain: "plain_header l \<longleftrightarrow> \<not> u_transfer_encoding u"
          using False Inr by (simp add: plain_header_def)
        show ?thesis
          unfolding split spec "2.IH" [OF False Inr ok] len plain
          by (cases "u_transfer_encoding u") simp_all
      qed
    qed
  qed
qed

lemma opt_list_eq: "xs = opt_list x \<longleftrightarrow> (case x of Some n \<Rightarrow> xs = [n] | None \<Rightarrow> xs = [])"
  by (cases x) (simp_all add: opt_list_def)

lemma lines_complete:
  "head_spec bs = Complete h \<longleftrightarrow> complete_head bs h"
proof (cases "full_lines bs")
  case Nil
  then show ?thesis by (simp add: head_spec_def complete_head_def)
next
  case (Cons l ls)
  have "head_spec bs = Complete h \<longleftrightarrow>
      (\<exists>s. parse_status l = Inr s \<and> headers_spec s None False ls = Complete h)"
    by (auto simp: head_spec_def Cons split: sum.splits)
  then show ?thesis
    unfolding headers_complete complete_head_def Cons
    by (cases "rh_length h") (simp_all add: opt_list_def, blast+)
qed

subsection \<open>The texts behind the accepted values\<close>

lemma length_loop_iff:
  "length_loop v ds =
     (if list_all is_ascii_digit ds \<and> number_from (unat v) ds < 2 ^ 64
      then Inr (of_nat (number_from (unat v) ds)) else Inl MalformedHeader)"
proof -
  have "length_loop v ds =
      (if list_all is_ascii_digit ds
       then (case checked_number v ds of None \<Rightarrow> Inl MalformedHeader | Some n \<Rightarrow> Inr n)
       else Inl MalformedHeader)"
    by (induction v ds rule: length_loop.induct) (auto split: option.split)
  then show ?thesis by (simp add: checked_number_iff)
qed

lemma status_loop_iff:
  "list_all is_ascii_digit ds \<Longrightarrow> unat v \<le> 65535 \<Longrightarrow>
     status_loop v ds =
       (if number_from (unat v) ds \<le> 65535 then Inr (of_nat (number_from (unat v) ds))
        else Inl NonNumericStatus)"
proof (induction ds arbitrary: v)
  case Nil
  then show ?case by (simp add: of_nat_unat)
next
  case (Cons d ds)
  let ?n = "10 * unat v + digit_value d"
  have d: "digit_value d < 10" "unat (d - 0x30) = digit_value d"
    using Cons.prems(1) digit_value_less [of d]
    by (simp_all add: digit_value_def is_ascii_digit_def word_nat)
  have "unat (ucast (d - 0x30) :: u32) = digit_value d"
    using d by (simp add: unat_ucast_mod)
  moreover have "unat (v * 10) = 10 * unat v"
    using unat_mult_lem [of v 10] Cons.prems(2) by simp
  ultimately have n: "unat (v * 10 + ucast (d - 0x30)) = ?n"
    using Cons.prems(2) d by (subst unat_plus_nowrap) simp_all
  show ?case
  proof (cases "?n \<le> 65535")
    case True
    then have "\<not> 65535 < v * 10 + ucast (d - 0x30)" by (simp add: word_less_nat_alt n)
    with Cons.IH [of "v * 10 + ucast (d - 0x30)"] Cons.prems(1) True show ?thesis by (simp add: n)
  next
    case False
    then have "65535 < v * 10 + ucast (d - 0x30)" by (simp add: word_less_nat_alt n)
    with number_from_ge [of ?n ds] False show ?thesis by simp
  qed
qed

lemma split_on_join: "split_on c (a @ c # b) = split_on c a @ split_on c b"
  by (induction a) auto

definition tokens :: "bytes \<Rightarrow> bytes list" where
  "tokens l = filter (\<lambda>s. s \<noteq> []) (split_on 0x20 l)"

lemma tokens_join: "tokens (a @ 0x20 # b) = tokens a @ tokens b"
  by (simp add: tokens_def split_on_join)

lemma tokens_word: "a \<noteq> [] \<Longrightarrow> 0x20 \<notin> set a \<Longrightarrow> tokens a = [a]"
  by (simp add: tokens_def split_on_none)

lemma tokens_Nil_iff: "tokens l = [] \<longleftrightarrow> (\<forall>b \<in> set l. b = 0x20)"
proof (induction l)
  case Nil
  show ?case by (simp add: tokens_def)
next
  case (Cons b l)
  show ?case
  proof (cases "b = 0x20")
    case True
    with Cons tokens_join [of "[]" l] show ?thesis by (simp add: tokens_def)
  next
    case False
    then show ?thesis by (simp add: tokens_def)
  qed
qed

text \<open>A status line: version, code, and something that is not blank after it.\<close>

definition status_line :: "bytes \<Rightarrow> u16 \<Rightarrow> bool" where
  "status_line l s \<longleftrightarrow>
     (\<exists>ver code reason. l = ascii ''HTTP/1.'' @ ver # 0x20 # code @ 0x20 # reason \<and>
        (ver = 0x30 \<or> ver = 0x31) \<and> code \<noteq> [] \<and> list_all is_ascii_digit code \<and>
        number_value code = unat s \<and> (\<exists>b. b \<in> set reason \<and> b \<noteq> 0x20))"

lemma starts_http:
  "starts_with l (ascii ''HTTP/1.0 '') \<or> starts_with l (ascii ''HTTP/1.1 '') \<longleftrightarrow>
     (\<exists>ver r. l = ascii ''HTTP/1.'' @ ver # 0x20 # r \<and> (ver = 0x30 \<or> ver = 0x31))"
  by (auto simp: starts_with_iff ascii_def)

lemma digits_no_space: "list_all is_ascii_digit ds \<Longrightarrow> 0x20 \<notin> set ds"
  by (auto simp: list_all_iff is_ascii_digit_def dest!: bspec)

lemma parse_status_digits:
  assumes "list_all is_ascii_digit code"
  shows "map_sum id ucast (status_loop 0 code) = (Inr s :: head_error + u16) \<longleftrightarrow>
    number_value code = unat s"
proof -
  have *: "status_loop 0 code =
      (if number_value code \<le> 65535 then Inr (of_nat (number_value code)) else Inl NonNumericStatus)"
    using status_loop_iff [OF assms, of 0] by (simp add: number_from_0)
  have s: "unat s \<le> 65535" using unsigned_less [of s, where ?'a = nat] by simp
  have "unat (ucast (of_nat n :: u32) :: u16) = n" if "n \<le> 65535" for n
    using that by (simp add: unat_ucast_mod unat_of_nat)
  then have "ucast (of_nat n :: u32) = s \<longleftrightarrow> n = unat s" if "n \<le> 65535" for n
    using that by (metis word_unat_eq_iff)
  with s show ?thesis by (auto simp: *)
qed

lemma parse_status_iff: "parse_status l = Inr s \<longleftrightarrow> status_line l s"
proof (cases "\<exists>ver r. l = ascii ''HTTP/1.'' @ ver # 0x20 # r \<and> (ver = 0x30 \<or> ver = 0x31)")
  case False
  then have "parse_status l = Inl MalformedStatusLine" unfolding parse_status_def starts_http by simp
  moreover from False have "\<not> status_line l s" unfolding status_line_def by blast
  ultimately show ?thesis by simp
next
  case True
  then obtain ver r where l: "l = ascii ''HTTP/1.'' @ ver # 0x20 # r" "ver = 0x30 \<or> ver = 0x31" by blast
  obtain code rest where cr: "(case position ((=) 0x20) r of
      Some i \<Rightarrow> (take i r, drop i r) | None \<Rightarrow> (r, [])) = (code, rest)" by (meson surj_pair)
  then have r: "r = code @ rest" "0x20 \<notin> set code" "rest = [] \<or> hd rest = 0x20"
    by (auto simp: position_split)
  have code: "(case position ((=) 0x20) (drop 9 l) of Some i \<Rightarrow> take i (drop 9 l) | None \<Rightarrow> drop 9 l) = code"
  proof -
    have d: "drop 9 l = r" by (simp add: l(1) ascii_def)
    show ?thesis
      unfolding d using cr by (cases "position ((=) 0x20) r") (simp_all del: position_None)
  qed
  have "0x20 \<notin> set (ascii ''HTTP/1.'' @ [ver])" using l(2) by (auto simp: ascii_def)
  then have "length (tokens l) = 1 + length (tokens r)"
    using tokens_join [of "ascii ''HTTP/1.'' @ [ver]" r] tokens_word [of "ascii ''HTTP/1.'' @ [ver]"] l(1)
    by simp
  moreover have "length (tokens r) \<ge> 2 \<longleftrightarrow> (\<exists>t. rest = 0x20 # t \<and> (\<exists>b. b \<in> set t \<and> b \<noteq> 0x20))"
    if "code \<noteq> []"
  proof (cases rest)
    case Nil
    with r that show ?thesis by (simp add: tokens_word)
  next
    case (Cons x t)
    then have "tokens r = code # tokens t"
      using r tokens_join [of code t] tokens_word [OF that r(2)] by simp
    moreover have "1 \<le> length (tokens t) \<longleftrightarrow> (\<exists>b. b \<in> set t \<and> b \<noteq> 0x20)"
      using tokens_Nil_iff [of t] by (cases "tokens t") auto
    ultimately show ?thesis using Cons r(3) by simp
  qed
  ultimately have count: "\<not> length (tokens l) < 3 \<longleftrightarrow>
      (\<exists>t. rest = 0x20 # t \<and> (\<exists>b. b \<in> set t \<and> b \<noteq> 0x20))" if "code \<noteq> []"
    using that by auto
  have "parse_status l = Inr s \<longleftrightarrow>
      \<not> length (tokens l) < 3 \<and> code \<noteq> [] \<and> list_all is_ascii_digit code \<and> number_value code = unat s"
    using True parse_status_digits [of code s]
    unfolding parse_status_def starts_http code [symmetric] tokens_def Let_def by simp
  also have "\<dots> \<longleftrightarrow> status_line l s"
  proof
    assume "\<not> length (tokens l) < 3 \<and> code \<noteq> [] \<and> list_all is_ascii_digit code \<and> number_value code = unat s"
    with count l r show "status_line l s" unfolding status_line_def by blast
  next
    assume "status_line l s"
    then obtain ver' code' reason where s: "l = ascii ''HTTP/1.'' @ ver' # 0x20 # code' @ 0x20 # reason"
        "code' \<noteq> []" "list_all is_ascii_digit code'" "number_value code' = unat s"
        "\<exists>b. b \<in> set reason \<and> b \<noteq> 0x20" unfolding status_line_def by blast
    then have "r = code' @ 0x20 # reason" using l(1) by simp
    then have "position ((=) 0x20) r = Some (length code')"
      using digits_no_space [OF s(3)] position_append [of code' "(=) 0x20" "0x20 # reason"] by auto
    with cr \<open>r = code' @ 0x20 # reason\<close> have "code = code'" "rest = 0x20 # reason" by auto
    with s count show "\<not> length (tokens l) < 3 \<and> code \<noteq> [] \<and> list_all is_ascii_digit code \<and>
        number_value code = unat s" by auto
  qed
  finally show ?thesis .
qed

text \<open>A header line with a content length.\<close>

definition length_line :: "bytes \<Rightarrow> u64 \<Rightarrow> bool" where
  "length_line l n \<longleftrightarrow>
     (\<exists>name val. l = name @ 0x3A # val \<and> 0x3A \<notin> set name \<and>
        eq_ignore_ascii_case (trim_ascii name) (ascii ''content-length'') \<and>
        trim_ascii val \<noteq> [] \<and> list_all is_ascii_digit (trim_ascii val) \<and>
        number_value (trim_ascii val) = unat n)"

lemma length_loop_value:
  "length_loop 0 ds = Inr n \<longleftrightarrow> list_all is_ascii_digit ds \<and> number_value ds = unat n"
proof -
  have "unat n < 2 ^ 64" using unsigned_less [of n, where ?'a = nat] by simp
  moreover have "of_nat k = n \<longleftrightarrow> k = unat n" if "k < 2 ^ 64" for k
    using that by (auto simp: unat_of_nat of_nat_unat)
  ultimately show ?thesis using length_loop_iff [of 0 ds] by (auto simp: number_from_0)
qed

lemma position_first:
  "c \<notin> set a \<Longrightarrow> position ((=) c) (a @ c # b) = Some (length a)"
  using position_append [of a "(=) c" "c # b"] by auto

lemma header_names: "ascii ''content-length'' \<noteq> ascii ''transfer-encoding''"
  by (simp add: ascii_def)

lemma parse_header_at:
  assumes "0x3A \<notin> set name"
  shows "parse_header (name @ 0x3A # val) =
    (if eq_ignore_ascii_case (trim_ascii name) (ascii ''transfer-encoding'') then
       Inr \<lparr>u_transfer_encoding = True, u_content_length = None\<rparr>
     else if eq_ignore_ascii_case (trim_ascii name) (ascii ''content-length'') then
       (if trim_ascii val = [] then Inl MalformedHeader
        else map_sum id (\<lambda>n. \<lparr>u_transfer_encoding = False, u_content_length = Some n\<rparr>)
          (length_loop 0 (trim_ascii val)))
     else Inr \<lparr>u_transfer_encoding = False, u_content_length = None\<rparr>)"
  by (simp add: parse_header_def position_first [OF assms] Let_def)

lemma parse_header_colon:
  assumes "parse_header l = Inr u"
  shows "\<exists>name val. l = name @ 0x3A # val \<and> 0x3A \<notin> set name"
proof (cases "position ((=) 0x3A) l")
  case None
  with assms show ?thesis by (simp add: parse_header_def del: position_None)
next
  case (Some i)
  then have "0x3A \<in> set l" by (metis nth_mem position_Some)
  then show ?thesis by (metis split_list_first)
qed

lemma length_line_iff:
  "(\<exists>u. parse_header l = Inr u \<and> u_content_length u = Some n) \<longleftrightarrow> length_line l n"
proof
  assume "\<exists>u. parse_header l = Inr u \<and> u_content_length u = Some n"
  then obtain u where u: "parse_header l = Inr u" "u_content_length u = Some n" by blast
  obtain name val where l: "l = name @ 0x3A # val" "0x3A \<notin> set name"
    using parse_header_colon [OF u(1)] by blast
  have "eq_ignore_ascii_case (trim_ascii name) (ascii ''content-length'') \<and> trim_ascii val \<noteq> [] \<and>
      length_loop 0 (trim_ascii val) = Inr n"
    using u unfolding l(1) parse_header_at [OF l(2)]
    by (auto split: if_splits sum.splits simp: map_sum_def)
  with l show "length_line l n" unfolding length_line_def length_loop_value by blast
next
  assume "length_line l n"
  then obtain name val where l: "l = name @ 0x3A # val" "0x3A \<notin> set name"
      "eq_ignore_ascii_case (trim_ascii name) (ascii ''content-length'')" "trim_ascii val \<noteq> []"
      "length_loop 0 (trim_ascii val) = Inr n"
    unfolding length_line_def length_loop_value by blast
  have "\<not> eq_ignore_ascii_case (trim_ascii name) (ascii ''transfer-encoding'')"
    using l(3) by (auto simp: eq_ignore_ascii_case_def ascii_def to_ascii_lowercase_def)
  with l show "\<exists>u. parse_header l = Inr u \<and> u_content_length u = Some n"
    by (simp add: parse_header_at)
qed

subsection \<open>Properties\<close>

text \<open>
  C20: fed any byte stream, the parser answers each byte as the line-based specification does
  on everything fed so far: the first line must be a status line, the following ones headers,
  the first empty line ends the head, the verdict is final, and a head longer than 2048 bytes
  is rejected at the 2049th.
\<close>

theorem head_parser_exact:
  "snd (push (final push head_new bs) b) = bounded_spec (bs @ [b])"
  by (rule push_exact)

text \<open>
  \<open>consumed\<close> is the number of bytes fed while the head is open, and after that the length
  of the shortest prefix that decides it, which is at most 2049: bytes pushed after a verdict
  are not counted, so that the body starts right after the consumed bytes.
\<close>

lemma head_consumed:
  "consumed (final push head_new bs) \<le> MAX_HEAD_BYTES + 1 \<and>
   consumed (final push head_new bs) =
     (if bounded_spec bs = NeedMore then length bs
      else (LEAST k. bounded_spec (take k bs) \<noteq> NeedMore))"
  by (intro conjI consumed_bound consumed_least)

text \<open>
  C26: the parser reports a complete head \<open>h\<close> exactly when the first 2048 bytes hold a status
  line with the status of \<open>h\<close> (2xx or 404), headers none of which is a
  \<open>Transfer-Encoding\<close>, and an empty line, and the \<open>Content-Length\<close> headers are
  exactly one, with the length of \<open>h\<close>, or none for a 404.
\<close>

theorem head_accepts_iff:
  "snd (push (final push head_new bs) b) = Complete h \<longleftrightarrow>
     complete_head (take MAX_HEAD_BYTES (bs @ [b])) h"
  unfolding push_exact by (auto simp: bounded_spec_def simp flip: lines_complete)

text \<open>
  The numbers of a head are exact. A status line is accepted with the status \<open>s\<close> exactly
  when it is \<open>HTTP/1.0\<close> or \<open>HTTP/1.1\<close>, one space, digits of value \<open>s\<close>, a space and
  a reason that is not blank; and a header sets the content length \<open>n\<close> exactly when its name is
  \<open>Content-Length\<close> in any case and its value is digits of value \<open>n\<close>, below 2 to the 64th, with
  no wrap-around in either.
\<close>

lemma head_numbers_exact:
  "(parse_status l = Inr s \<longleftrightarrow> status_line l s) \<and>
   ((\<exists>u. parse_header l = Inr u \<and> u_content_length u = Some n) \<longleftrightarrow> length_line l n)"
  by (simp add: parse_status_iff length_line_iff)

end
