(* ===== verification/Ota_Text.thy ===== *)
theory Ota_Text
  imports Byte_Sink Base64 Utf8 Ota_Parse
begin

text \<open>
  The text side of \<open>app/src/ota/mod.rs\<close> and \<open>app/src/ota/transport.rs\<close>: the fixed-capacity
  \<open>TextBuf\<close> (the second byte sink of the program), the error types with their log and blink
  codes, and \<open>build_request\<close>. The credentials come from \<open>secrets.rs\<close>, which is not in the
  repository, and are parameters.
\<close>

definition AUTH_MAX_BYTES :: nat where "AUTH_MAX_BYTES = 192"
definition REQUEST_MAX_BYTES :: nat where "REQUEST_MAX_BYTES = 512"

record text_buf =
  tb_buf :: bytes
  tb_len :: nat

definition text_new :: "nat \<Rightarrow> text_buf" where
  "text_new n = \<lparr>tb_buf = replicate n 0, tb_len = 0\<rparr>"

definition as_bytes :: "text_buf \<Rightarrow> bytes" where
  "as_bytes t = take (tb_len t) (tb_buf t)"

definition as_str :: "text_buf \<Rightarrow> bytes" where
  "as_str t = (if utf8_valid (as_bytes t) then as_bytes t else [])"

text \<open>\<open>write_str\<close>; its only error is \<open>core::fmt::Error\<close>, a unit.\<close>

definition write_str :: "text_buf \<Rightarrow> bytes \<Rightarrow> text_buf \<times> (unit + unit)" where
  "write_str t s =
     (let stop = tb_len t + length s in
      if length (tb_buf t) < stop then (t, Inl ())
      else (t\<lparr>tb_buf := copy_at (tb_buf t) (tb_len t) s, tb_len := stop\<rparr>, Inr ()))"

definition text_ok :: "text_buf \<Rightarrow> bool" where
  "text_ok t \<longleftrightarrow> tb_len t \<le> length (tb_buf t)"

abbreviation text_room :: "text_buf \<Rightarrow> bytes" where
  "text_room t \<equiv> drop (tb_len t) (tb_buf t)"

interpretation textbuf: byte_sink write_str as_bytes text_room text_ok "()"
  by unfold_locales (auto simp: write_str_def text_ok_def as_bytes_def copy_at_def Let_def add.commute)

text \<open>\<open>write!\<close> on a text buffer: the pieces of the format string and its arguments in turn.\<close>

definition write_fmt :: "text_buf \<Rightarrow> bytes list \<Rightarrow> text_buf \<times> (unit + unit)" where
  "write_fmt t pieces = put_all write_str t pieces"

subsection \<open>Errors and their codes\<close>

datatype fetch_error =
    FE_Timeout | FE_Write | FE_Flush | FE_Read | FE_Closed | FE_Head bytes | FE_Leftover | FE_BodyTooLarge

definition fetch_code :: "fetch_error \<Rightarrow> bytes" where
  "fetch_code e =
     (case e of
        FE_Timeout \<Rightarrow> ascii ''timeout'' | FE_Write \<Rightarrow> ascii ''write'' | FE_Flush \<Rightarrow> ascii ''flush''
      | FE_Read \<Rightarrow> ascii ''read'' | FE_Closed \<Rightarrow> ascii ''closed'' | FE_Head code \<Rightarrow> code
      | FE_Leftover \<Rightarrow> ascii ''leftover'' | FE_BodyTooLarge \<Rightarrow> ascii ''body_too_large'')"

datatype ota_error =
    O_Url | O_Dns | O_Connect | O_Tls | O_Timeout | O_Request | O_Auth | O_Head | O_Version | O_Sha
  | O_Transport fetch_error | O_Update bytes

definition ota_code :: "ota_error \<Rightarrow> bytes" where
  "ota_code e =
     (case e of
        O_Url \<Rightarrow> ascii ''url'' | O_Dns \<Rightarrow> ascii ''dns'' | O_Connect \<Rightarrow> ascii ''connect''
      | O_Tls \<Rightarrow> ascii ''tls'' | O_Timeout \<Rightarrow> ascii ''timeout'' | O_Request \<Rightarrow> ascii ''request''
      | O_Auth \<Rightarrow> ascii ''auth'' | O_Head \<Rightarrow> ascii ''head'' | O_Version \<Rightarrow> ascii ''version''
      | O_Sha \<Rightarrow> ascii ''sha'' | O_Transport error \<Rightarrow> fetch_code error | O_Update code \<Rightarrow> code)"

definition blink_code :: "ota_error \<Rightarrow> u8" where
  "blink_code e =
     (case e of
        O_Dns \<Rightarrow> 10 | O_Connect \<Rightarrow> 11 | O_Tls \<Rightarrow> 12 | O_Timeout \<Rightarrow> 13
      | O_Url \<Rightarrow> 14 | O_Request \<Rightarrow> 14 | O_Auth \<Rightarrow> 14 | O_Head \<Rightarrow> 14 | O_Version \<Rightarrow> 14
      | O_Sha \<Rightarrow> 15
      | O_Update code \<Rightarrow>
          if code = ascii ''hash_mismatch'' then 16
          else if code = ascii ''too_short'' then 17
          else if code = ascii ''too_long'' then 18
          else if code = ascii ''flash'' then 19
          else if code = ascii ''read'' then 20
          else if code = ascii ''oversize'' then 21
          else 14
      | O_Transport (FE_Head _) \<Rightarrow> 14
      | O_Transport _ \<Rightarrow> 22)"

subsection \<open>The request\<close>

definition crlf :: bytes where "crlf = [0x0D, 0x0A]"

definition map_error :: "'e \<Rightarrow> 's \<times> (unit + unit) \<Rightarrow> 'e + 's" where
  "map_error e m = (case m of (s, Inl _) \<Rightarrow> Inl e | (s, Inr _) \<Rightarrow> Inr s)"

definition build_request :: "bytes \<Rightarrow> bytes \<Rightarrow> uri \<Rightarrow> bytes \<Rightarrow> ota_error + text_buf" where
  "build_request user pass u name =
     (case map_error O_Request (write_fmt (text_new REQUEST_MAX_BYTES)
          [ascii ''GET '', uri_path u, ascii ''/'', name, ascii '' HTTP/1.0'' @ crlf @ ascii ''Host: '',
           host u, crlf]) of
        Inl e \<Rightarrow> Inl e
      | Inr out \<Rightarrow>
          (case (if user \<noteq> [] \<or> pass \<noteq> [] then
                   (case basic_authorization user pass (replicate AUTH_MAX_BYTES 0) of
                      (_, None) \<Rightarrow> Inl O_Auth
                    | (auth, Some n) \<Rightarrow>
                        if \<not> utf8_valid (take n auth) then Inl O_Auth
                        else map_error O_Request
                          (write_fmt out [ascii ''Authorization: '', take n auth, crlf]))
                 else Inr out) of
             Inl e \<Rightarrow> Inl e
           | Inr out1 \<Rightarrow>
               map_error O_Request
                 (write_fmt out1 [ascii ''Connection: close'' @ crlf @ crlf])))"

subsection \<open>What a request says\<close>

definition auth_text :: "bytes \<Rightarrow> bytes \<Rightarrow> bytes" where
  "auth_text user pass =
     (if user = [] \<and> pass = [] then []
      else ascii ''Authorization: '' @ PREFIX @ base64_text (user @ 0x3A # pass) @ crlf)"

definition request_text :: "bytes \<Rightarrow> bytes \<Rightarrow> uri \<Rightarrow> bytes \<Rightarrow> bytes" where
  "request_text user pass u name =
     ascii ''GET '' @ uri_path u @ ascii ''/'' @ name @ ascii '' HTTP/1.0'' @ crlf @
     ascii ''Host: '' @ host u @ crlf @ auth_text user pass @
     ascii ''Connection: close'' @ crlf @ crlf"

lemma write_fmt_result:
  assumes "text_ok t"
  shows "map_error e (write_fmt t pieces) = Inl e \<longleftrightarrow> length (text_room t) < length (concat pieces)"
    and "map_error e (write_fmt t pieces) = Inr t' \<Longrightarrow>
      text_ok t' \<and> as_bytes t' = as_bytes t @ concat pieces \<and>
      length (text_room t') = length (text_room t) - length (concat pieces)"
proof -
  have full: "snd (write_fmt t pieces) = Inl ()" if "length (text_room t) < length (concat pieces)"
    using textbuf.put_all_full [OF assms that] by (simp add: write_fmt_def)
  have fits: "\<exists>t'. write_fmt t pieces = (t', Inr ()) \<and> text_ok t' \<and>
      as_bytes t' = as_bytes t @ concat pieces \<and>
      text_room t' = drop (length (concat pieces)) (text_room t)"
    if "length (concat pieces) \<le> length (text_room t)"
    using textbuf.put_all_fits [OF assms that] by (simp add: write_fmt_def)
  show "map_error e (write_fmt t pieces) = Inl e \<longleftrightarrow> length (text_room t) < length (concat pieces)"
    using full fits by (cases "length (text_room t) < length (concat pieces)")
      (auto simp: map_error_def not_less split: prod.split sum.split)
  assume r: "map_error e (write_fmt t pieces) = Inr t'"
  then have "\<not> length (text_room t) < length (concat pieces)"
    using full by (auto simp: map_error_def split: prod.splits sum.splits)
  then show "text_ok t' \<and> as_bytes t' = as_bytes t @ concat pieces \<and>
      length (text_room t') = length (text_room t) - length (concat pieces)"
    using fits r by (auto simp: map_error_def not_less length_drop [symmetric] simp del: length_drop)
qed

lemma text_new_facts [simp]: "text_ok (text_new n)" "as_bytes (text_new n) = []"
    "length (text_room (text_new n)) = n"
  by (simp_all add: text_new_def text_ok_def as_bytes_def)

lemma B64_ascii: "all_ascii B64"
  by (simp add: B64_def ascii_def)

lemma auth_ascii: "all_ascii (PREFIX @ base64_text bs)"
  using base64_text_chars B64_ascii by (force simp: all_ascii_def PREFIX_def ascii_def)

text \<open>The two header parts that \<open>write!\<close> assembles around the credentials.\<close>

definition request_head :: "uri \<Rightarrow> bytes \<Rightarrow> bytes" where
  "request_head u name =
     ascii ''GET '' @ uri_path u @ ascii ''/'' @ name @ ascii '' HTTP/1.0'' @ crlf @
     ascii ''Host: '' @ host u @ crlf"

definition auth_fits :: "bytes \<Rightarrow> bytes \<Rightarrow> bool" where
  "auth_fits user pass \<longleftrightarrow>
     user = [] \<and> pass = [] \<or> 6 + length (base64_text (user @ 0x3A # pass)) \<le> AUTH_MAX_BYTES"

lemma request_text_parts:
  "request_text user pass u name =
     request_head u name @ auth_text user pass @ ascii ''Connection: close'' @ crlf @ crlf"
  by (simp add: request_text_def request_head_def)

lemma auth_line:
  assumes "user \<noteq> [] \<or> pass \<noteq> []"
  shows "(case basic_authorization user pass (replicate AUTH_MAX_BYTES 0) of
      (_, None) \<Rightarrow> Inl O_Auth
    | (auth, Some n) \<Rightarrow>
        if \<not> utf8_valid (take n auth) then Inl O_Auth
        else map_error O_Request (write_fmt out [ascii ''Authorization: '', take n auth, crlf])) =
    (if auth_fits user pass
     then map_error O_Request (write_fmt out
       [ascii ''Authorization: '', PREFIX @ base64_text (user @ 0x3A # pass), crlf])
     else Inl O_Auth)"
proof (cases "auth_fits user pass")
  case True
  then have "basic_authorization user pass (replicate AUTH_MAX_BYTES 0) =
      (copy_at (replicate AUTH_MAX_BYTES 0) 0 (PREFIX @ base64_text (user @ 0x3A # pass)),
       Some (6 + length (base64_text (user @ 0x3A # pass))))"
    using basic_authorization_spec [of user pass "replicate AUTH_MAX_BYTES 0"] assms
    by (auto simp: auth_fits_def split: if_splits)
  moreover have "utf8_valid (PREFIX @ base64_text (user @ 0x3A # pass))"
    by (rule all_ascii_valid [OF auth_ascii])
  ultimately show ?thesis using True by (simp add: copy_at_0)
next
  case False
  then have "snd (basic_authorization user pass (replicate AUTH_MAX_BYTES 0)) = None"
    using basic_authorization_spec [of user pass "replicate AUTH_MAX_BYTES 0"]
    by (auto simp: auth_fits_def split: if_splits)
  with False show ?thesis by (auto split: prod.split option.split)
qed

lemma write_fmt_cases:
  assumes "text_ok t"
  obtains (fits) t' where "map_error e (write_fmt t pieces) = Inr t'" "text_ok t'"
      "as_bytes t' = as_bytes t @ concat pieces" "length (concat pieces) \<le> length (text_room t)"
      "length (text_room t') = length (text_room t) - length (concat pieces)"
  | (full) "map_error e (write_fmt t pieces) = Inl e" "length (text_room t) < length (concat pieces)"
proof (cases "map_error e (write_fmt t pieces)")
  case (Inl e')
  moreover from this have "e' = e" by (auto simp: map_error_def split: prod.splits sum.splits)
  ultimately show thesis using full write_fmt_result(1) [OF assms, of e pieces] by blast
next
  case (Inr t')
  then have "\<not> length (text_room t) < length (concat pieces)"
    using write_fmt_result(1) [OF assms, of e pieces] by auto
  with write_fmt_result(2) [OF assms Inr] fits [OF Inr] show thesis by simp
qed

lemma build_request_result:
  "case build_request user pass u name of
     Inr out \<Rightarrow> as_bytes out = request_text user pass u name \<and> auth_fits user pass \<and>
       length (request_text user pass u name) \<le> REQUEST_MAX_BYTES
   | Inl e \<Rightarrow> e = O_Auth \<and> \<not> auth_fits user pass \<or>
       e = O_Request \<and> REQUEST_MAX_BYTES < length (request_text user pass u name)"
    (is "?result (build_request user pass u name)")
proof -
  let ?p1 = "[ascii ''GET '', uri_path u, ascii ''/'', name, ascii '' HTTP/1.0'' @ crlf @ ascii ''Host: '',
      host u, crlf]"
  let ?p2 = "[ascii ''Authorization: '', PREFIX @ base64_text (user @ 0x3A # pass), crlf]"
  let ?p3 = "[ascii ''Connection: close'' @ crlf @ crlf]"
  have p1: "concat ?p1 = request_head u name" by (simp add: request_head_def)
  have p2: "concat ?p2 = auth_text user pass" if "user \<noteq> [] \<or> pass \<noteq> []"
    using that by (auto simp: auth_text_def)
  have p3: "request_text user pass u name = (request_head u name @ auth_text user pass) @ concat ?p3"
    by (simp add: request_text_parts)
  have last: "?result (map_error O_Request (write_fmt out ?p3))"
    if "text_ok out" "as_bytes out = request_head u name @ auth_text user pass" "auth_fits user pass"
      "length (text_room out) + length (request_head u name @ auth_text user pass) = REQUEST_MAX_BYTES" for out
    using that(1)
  proof (rule write_fmt_cases [of out O_Request ?p3])
    fix t' assume "map_error O_Request (write_fmt out ?p3) = Inr t'"
      "as_bytes t' = as_bytes out @ concat ?p3" "length (concat ?p3) \<le> length (text_room out)"
    with that(2-4) show ?thesis unfolding p3 by (simp del: concat.simps)
  next
    assume "map_error O_Request (write_fmt out ?p3) = Inl O_Request"
      "length (text_room out) < length (concat ?p3)"
    with that(4) show ?thesis unfolding p3 by (simp del: concat.simps)
  qed
  have first: "length (text_room (text_new REQUEST_MAX_BYTES)) = REQUEST_MAX_BYTES"
    by (rule text_new_facts(3))
  have "text_ok (text_new REQUEST_MAX_BYTES)" by simp
  then show ?thesis
  proof (rule write_fmt_cases [of _ O_Request ?p1])
    assume "map_error O_Request (write_fmt (text_new REQUEST_MAX_BYTES) ?p1) = Inl O_Request"
      and "length (text_room (text_new REQUEST_MAX_BYTES)) < length (concat ?p1)"
    then show ?thesis unfolding first p1 p3 by (simp add: build_request_def del: concat.simps)
  next
    fix out
    assume 1: "map_error O_Request (write_fmt (text_new REQUEST_MAX_BYTES) ?p1) = Inr out" "text_ok out"
      and *: "as_bytes out = as_bytes (text_new REQUEST_MAX_BYTES) @ concat ?p1"
        "length (concat ?p1) \<le> length (text_room (text_new REQUEST_MAX_BYTES))"
        "length (text_room out) = length (text_room (text_new REQUEST_MAX_BYTES)) - length (concat ?p1)"
    from * have out: "as_bytes out = request_head u name"
      "length (text_room out) + length (request_head u name) = REQUEST_MAX_BYTES"
      unfolding first p1 by simp_all
    show ?thesis
    proof (cases "user = [] \<and> pass = []")
      case True
      then have "build_request user pass u name = map_error O_Request (write_fmt out ?p3)"
        using 1(1) by (simp add: build_request_def)
      with last [OF 1(2)] True out show ?thesis by (simp add: auth_text_def auth_fits_def)
    next
      case cred: False
      then have ne: "user \<noteq> [] \<or> pass \<noteq> []" by simp
      have step: "build_request user pass u name =
          (case (if auth_fits user pass then map_error O_Request (write_fmt out ?p2) else Inl O_Auth) of
             Inl e \<Rightarrow> Inl e | Inr out1 \<Rightarrow> map_error O_Request (write_fmt out1 ?p3))"
        using auth_line [OF ne, of out] ne 1(1) by (simp only: build_request_def sum.case if_True)
      show ?thesis
      proof (cases "auth_fits user pass")
        case False
        with step show ?thesis by simp
      next
        case fits: True
        from 1(2) show ?thesis
        proof (rule write_fmt_cases [of _ O_Request ?p2])
          assume "map_error O_Request (write_fmt out ?p2) = Inl O_Request"
            and "length (text_room out) < length (concat ?p2)"
          with step fits out(2) show ?thesis unfolding p2 [OF ne] p3 by (simp del: concat.simps)
        next
          fix out1
          assume 2: "map_error O_Request (write_fmt out ?p2) = Inr out1" "text_ok out1"
            "as_bytes out1 = as_bytes out @ concat ?p2" "length (concat ?p2) \<le> length (text_room out)"
            "length (text_room out1) = length (text_room out) - length (concat ?p2)"
          then have "build_request user pass u name = map_error O_Request (write_fmt out1 ?p3)"
            using step fits by simp
          with last [OF 2(2) _ fits] 2(3-5) out show ?thesis unfolding p2 [OF ne] by simp
        qed
      qed
    qed
  qed
qed

text \<open>
  C33: the request the device sends, for every target, resource name and pair of credentials: it
  is exactly the request line, the host line, the authorization line when there are credentials,
  and the connection line, and it is produced exactly when it fits its 512-byte buffer and the
  authorization value fits its 192-byte one. What does not fit is reported and nothing is sent
  truncated.
\<close>

theorem request_exact:
  "case build_request user pass u name of
     Inr out \<Rightarrow> as_bytes out = request_text user pass u name \<and> auth_fits user pass \<and>
       length (request_text user pass u name) \<le> REQUEST_MAX_BYTES
   | Inl e \<Rightarrow> e = O_Auth \<and> \<not> auth_fits user pass \<or>
       e = O_Request \<and> REQUEST_MAX_BYTES < length (request_text user pass u name)"
  by (rule build_request_result)

end
