(* ===== verification/Session.thy ===== *)
theory Session
  imports Flash_Layout Ota_Parse
begin

text \<open>
  The streaming verified update of \<open>core/src/ota/session.rs\<close>. The traits that the session is
  generic over are records of functions: the flasher, the body reader and (not under src) the
  SHA-256 of the \<open>sha2\<close> crate with its streaming interface. The flasher is observed through
  a wrapper that logs its calls; the body reader's contract is a locale.
\<close>

record ('f, 'fe) flasher =
  flash_write :: "'f \<Rightarrow> nat \<Rightarrow> bytes \<Rightarrow> 'f \<times> ('fe + unit)"
  flash_mark :: "'f \<Rightarrow> 'f \<times> ('fe + unit)"

text \<open>A read is given the buffer's slice and returns it as it leaves it, with its result.\<close>

record ('r, 're) body_reader =
  body_read :: "'r \<Rightarrow> bytes \<Rightarrow> 'r \<times> bytes \<times> ('re + nat)"

record 'h hasher =
  hash_new :: 'h
  hash_update :: "'h \<Rightarrow> bytes \<Rightarrow> 'h"
  hash_finalize :: "'h \<Rightarrow> bytes"

datatype ('fe, 're) update_error =
    Oversize u64 u32 | TooShort | TooLong | HashMismatch | Flash 'fe | Read 're

lemma total_step:
  fixes tot len :: u64
  assumes "tot < len" and "n \<le> unat (len - tot)"
  shows "unat (tot + of_nat n) = unat tot + n" and "unat tot + n \<le> unat len"
    and "unat (len - (tot + of_nat n)) = unat (len - tot) - n"
proof -
  have l: "unat (len - tot) = unat len - unat tot"
    using assms(1) by (simp add: word_nat)
  have "unat len < 2 ^ 64" using unsigned_less [of len, where ?'a = nat] by simp
  then have n: "unat (of_nat n :: u64) = n"
    using assms(2) l by (simp add: unat_of_nat)
  show 2: "unat tot + n \<le> unat len" using assms l by (simp add: word_nat)
  show 1: "unat (tot + of_nat n) = unat tot + n"
    using n 2 \<open>unat len < 2 ^ 64\<close> by (subst unat_plus_nowrap) simp_all
  show "unat (len - (tot + of_nat n)) = unat (len - tot) - n"
    using 1 2 l by (subst unat_minus_le) (simp_all del: of_nat_add)
qed

text \<open>The loop of \<open>apply_update\<close>: \<open>tot\<close> (the code's \<open>total\<close>) is below \<open>len\<close> while it runs.\<close>

function stream_loop ::
  "('f, 'fe) flasher \<Rightarrow> ('r, 're) body_reader \<Rightarrow> 'h hasher \<Rightarrow> u64 \<Rightarrow> bytes \<Rightarrow> 'h \<Rightarrow> nat \<Rightarrow> u64 \<Rightarrow>
   'f \<Rightarrow> 'r \<Rightarrow> 'f \<times> 'r \<times> (('fe, 're) update_error + 'h \<times> u64)" where
  "stream_loop F R H len buf h offs tot f r =
     (if tot < len then
        (let remaining = min (unat (len - tot)) (length buf);
             (r1, filled, res) = body_read R r (take remaining buf)
         in case res of
              Inl e \<Rightarrow> (f, r1, Inl (Read e))
            | Inr n \<Rightarrow>
                if n = 0 then (f, r1, Inr (h, tot))
                else if remaining < n then (f, r1, Inl TooLong)
                else
                  let tot1 = tot + of_nat n;
                      buf1 = filled @ drop remaining buf;
                      h1 = hash_update H h (take n buf1);
                      (f1, wres) = flash_write F f offs (take n buf1)
                  in case wres of
                       Inl e \<Rightarrow> (f1, r1, Inl (Flash e))
                     | Inr _ \<Rightarrow> stream_loop F R H len buf1 h1 (offs + n) tot1 f1 r1)
      else (f, r, Inr (h, tot)))"
  by pat_completeness auto

termination
  by (relation "measure (\<lambda>(F, R, H, len, buf, h, offs, tot, f, r). unat (len - tot))")
    (auto simp: total_step word_nat dest!: sym [of "Inr _"])

declare stream_loop.simps [simp del]

definition apply_update ::
  "('f, 'fe) flasher \<Rightarrow> ('r, 're) body_reader \<Rightarrow> 'h hasher \<Rightarrow> u64 \<Rightarrow> bytes \<Rightarrow> 'f \<Rightarrow> 'r \<Rightarrow>
   'f \<times> 'r \<times> (('fe, 're) update_error + unit)" where
  "apply_update F R H content_length expected f r =
     (if ucast ACTIVE_BYTES < content_length
      then (f, r, Inl (Oversize content_length ACTIVE_BYTES))
      else
        case stream_loop F R H content_length (replicate CHUNK_BYTES 0) (hash_new H) 0 0 f r of
          (f1, r1, Inl e) \<Rightarrow> (f1, r1, Inl e)
        | (f1, r1, Inr (h, tot)) \<Rightarrow>
            if tot \<noteq> content_length then (f1, r1, Inl TooShort)
            else if hash_finalize H h \<noteq> expected then (f1, r1, Inl HashMismatch)
            else
              (case flash_mark F f1 of
                 (f2, Inl e) \<Rightarrow> (f2, r1, Inl (Flash e))
               | (f2, Inr _) \<Rightarrow> (f2, r1, Inr ())))"

subsection \<open>Observing the flasher\<close>

datatype 'fe flash_call =
    Wrote nat bytes "'fe + unit"
  | Marked "'fe + unit"

text \<open>The same flasher, with its calls and their results written to a log.\<close>

definition logged :: "('f, 'fe) flasher \<Rightarrow> ('f \<times> 'fe flash_call list, 'fe) flasher" where
  "logged F =
     \<lparr>flash_write = (\<lambda>(f, log) offs data.
        let (f1, res) = flash_write F f offs data in ((f1, log @ [Wrote offs data res]), res)),
      flash_mark = (\<lambda>(f, log).
        let (f1, res) = flash_mark F f in ((f1, log @ [Marked res]), res))\<rparr>"

lemma logged_write [simp]:
  "flash_write (logged F) (f, log) offs data =
     (let (f1, res) = flash_write F f offs data in ((f1, log @ [Wrote offs data res]), res))"
  by (simp add: logged_def)

lemma logged_mark [simp]:
  "flash_mark (logged F) (f, log) =
     (let (f1, res) = flash_mark F f in ((f1, log @ [Marked res]), res))"
  by (simp add: logged_def)

text \<open>Successful writes of chunks one after the other.\<close>

fun writes :: "nat \<Rightarrow> bytes list \<Rightarrow> 'fe flash_call list" where
  "writes offs [] = []"
| "writes offs (c # cs) = Wrote offs c (Inr ()) # writes (offs + length c) cs"

lemma writes_snoc: "writes offs (cs @ [c]) = writes offs cs @ [Wrote (offs + length (concat cs)) c (Inr ())]"
  by (induction cs arbitrary: offs) (simp_all add: add.assoc)

lemma writes_inject: "writes k xs = writes k ys \<Longrightarrow> xs = ys"
proof (induction xs arbitrary: k ys)
  case Nil
  then show ?case by (cases ys) auto
next
  case (Cons x xs)
  then show ?case by (cases ys) auto
qed

text \<open>A reader fills the slice it is given, and does not change its length.\<close>

definition slice_preserving :: "('r, 're) body_reader \<Rightarrow> bool" where
  "slice_preserving R \<longleftrightarrow> (\<forall>r s r1 s1 res. body_read R r s = (r1, s1, res) \<longrightarrow> length s1 = length s)"

definition chunk_ok :: "bytes \<Rightarrow> bool" where
  "chunk_ok c \<longleftrightarrow> 0 < length c \<and> length c \<le> CHUNK_BYTES"

text \<open>What a run of the loop has logged: whole chunks, then the write that failed, if one did.\<close>

definition loop_log ::
  "'h hasher \<Rightarrow> nat \<Rightarrow> 'h \<Rightarrow> u64 \<Rightarrow> bytes list \<Rightarrow> (('fe, 're) update_error + 'h \<times> u64) \<Rightarrow>
   'fe flash_call list \<Rightarrow> bool" where
  "loop_log H offs h tot cs res log \<longleftrightarrow>
     (case res of
        Inr (h', tot') \<Rightarrow> log = writes offs cs \<and> h' = foldl (hash_update H) h cs \<and>
          unat tot' = unat tot + length (concat cs)
      | Inl (Flash e) \<Rightarrow>
          \<exists>c. chunk_ok c \<and> log = writes offs cs @ [Wrote (offs + length (concat cs)) c (Inl e)]
      | Inl e \<Rightarrow> log = writes offs cs \<and> (e = TooLong \<or> (\<exists>x. e = Read x)))"

lemma stream_loop_chunk:
  assumes "tot < len"
    and "body_read R r (take (min (unat (len - tot)) (length buf)) buf) = (r1, filled, Inr n)"
    and "n \<noteq> 0" and "n \<le> min (unat (len - tot)) (length buf)"
    and "buf1 = filled @ drop (min (unat (len - tot)) (length buf)) buf"
    and "flash_write F f offs (take n buf1) = (f1, res)"
  shows "stream_loop F R H len buf h offs tot f r =
    (case res of
       Inl e \<Rightarrow> (f1, r1, Inl (Flash e))
     | Inr _ \<Rightarrow> stream_loop F R H len buf1 (hash_update H h (take n buf1)) (offs + n)
         (tot + of_nat n) f1 r1)"
  unfolding stream_loop.simps [of F R H len buf] Let_def assms(2) prod.case sum.case
    assms(5) [symmetric] assms(6)
  using assms(1,3,4) by auto

lemma stream_loop_log:
  fixes F :: "('f, 'fe) flasher"
  assumes "stream_loop (logged F) R H len buf h offs tot (f, log) r = ((f', log'), r', res)"
    and "slice_preserving R" and "tot \<le> len" and "length buf = CHUNK_BYTES"
  shows "\<exists>cs new. log' = log @ new \<and> list_all chunk_ok cs \<and>
    unat tot + length (concat cs) \<le> unat len \<and> loop_log H offs h tot cs res new"
  using assms
proof (induction "logged F" R H len buf h offs tot "(f, log)" r arbitrary: f log rule: stream_loop.induct)
  case (1 R H len buf h offs tot r f log)
  let ?rem = "min (unat (len - tot)) (length buf)"
  show ?case
  proof (cases "tot < len")
    case False
    with "1.prems" show ?thesis
      by (intro exI [of _ "[]"]) (auto simp: stream_loop.simps [of "logged F"] loop_log_def word_le_nat_alt)
  next
    case run: True
    obtain r1 filled rd where rd: "body_read R r (take ?rem buf) = (r1, filled, rd)"
      by (metis surj_pair)
    have filled: "length filled = ?rem"
      using "1.prems"(2) rd by (fastforce simp: slice_preserving_def)
    show ?thesis
    proof (cases rd)
      case (Inl e)
      with run rd "1.prems"(1,3) show ?thesis
        by (intro exI [of _ "[]"]) (auto simp: stream_loop.simps [of "logged F"] loop_log_def word_le_nat_alt)
    next
      case (Inr n)
      let ?buf = "filled @ drop ?rem buf"
      let ?c = "take n ?buf"
      consider (eof) "n = 0" | (long) "n \<noteq> 0" "?rem < n" | (chunk) "n \<noteq> 0" "n \<le> ?rem" by linarith
      then show ?thesis
      proof cases
        case eof
        with Inr run rd "1.prems"(1,3) show ?thesis
          by (intro exI [of _ "[]"]) (auto simp: stream_loop.simps [of "logged F"] loop_log_def word_le_nat_alt)
      next
        case long
        with Inr run rd "1.prems"(1,3) show ?thesis
          by (intro exI [of _ "[]"])
            (auto simp: stream_loop.simps [of "logged F"] loop_log_def word_le_nat_alt Let_def)
      next
        case chunk
        have c: "length ?c = n" "chunk_ok ?c"
          using chunk filled "1.prems"(4) by (auto simp: chunk_ok_def)
        note t = total_step [OF run, of n]
        have n: "n \<le> unat (len - tot)" using chunk by simp
        obtain f1 wres where w: "flash_write F f offs ?c = (f1, wres)" by (metis surj_pair)
        have rd': "body_read R r (take ?rem buf) = (r1, filled, Inr n)" using rd Inr by simp
        have lw: "flash_write (logged F) (f, log) offs ?c = ((f1, log @ [Wrote offs ?c wres]), wres)"
          using w by simp
        show ?thesis
        proof (cases wres)
          case (Inl e)
          have "log' = log @ [Wrote offs ?c (Inl e)]" "res = Inl (Flash e)"
            using "1.prems"(1) stream_loop_chunk [OF run rd' chunk refl lw, of H h] Inl by simp_all
          with c(2) "1.prems"(3) show ?thesis
            by (intro exI [of _ "[]"] exI [of _ "[Wrote offs ?c (Inl e)]"])
              (auto simp: loop_log_def word_le_nat_alt)
        next
          case ok: (Inr u)
          let ?log = "log @ [Wrote offs ?c (Inr u)]"
          have step: "stream_loop (logged F) R H len ?buf (hash_update H h ?c) (offs + n)
              (tot + of_nat n) (f1, ?log) r1 = ((f', log'), r', res)"
            using "1.prems"(1) stream_loop_chunk [OF run rd' chunk refl lw, of H h] ok by simp
          have "\<exists>cs new. log' = ?log @ new \<and> list_all chunk_ok cs \<and>
              unat (tot + of_nat n) + length (concat cs) \<le> unat len \<and>
              loop_log H (offs + n) (hash_update H h ?c) (tot + of_nat n) cs res new"
            proof (rule "1.hyps" [OF run refl refl rd [symmetric] refl Inr])
            show "tot + of_nat n \<le> len" using t(1,2) [OF n] by (simp add: word_le_nat_alt)
            show "((f1, ?log), Inr u) = flash_write (logged F) (f, log) offs ?c" using lw ok by simp
            show "\<not> ?rem < n" using chunk(2) by linarith
          qed (use chunk(1) step "1.prems"(2,4) filled in simp_all)
          then obtain cs new where IH: "log' = ?log @ new" "list_all chunk_ok cs"
              "unat (tot + of_nat n) + length (concat cs) \<le> unat len"
              "loop_log H (offs + n) (hash_update H h ?c) (tot + of_nat n) cs res new" by blast
          have ws: "Wrote offs ?c (Inr u) # writes (offs + n) cs = writes offs (?c # cs)"
            by (simp only: writes.simps c(1)) simp
          have lc: "length (concat (?c # cs)) = n + length (concat cs)"
            by (simp only: concat.simps length_append c(1))
          have "loop_log H offs h tot (?c # cs) res (Wrote offs ?c (Inr u) # new)"
            using IH(4) unfolding loop_log_def lc foldl.simps ws [symmetric] t(1) [OF n]
            by (auto simp: add.assoc split: sum.splits update_error.splits)
          with IH c(2) lc t(1,2) [OF n] show ?thesis
            by (intro exI [of _ "?c # cs"] exI [of _ "Wrote offs ?c (Inr u) # new"])
              (simp del: concat.simps take_append)
        qed
      qed
    qed
  qed
qed

text \<open>
  The calls of a whole session: chunks in order and without gaps, then nothing, or a write that
  failed, or, when all bytes are there and their digest is the expected one, the mark.
\<close>

definition session_log ::
  "'h hasher \<Rightarrow> u64 \<Rightarrow> bytes \<Rightarrow> 'fe flash_call list \<Rightarrow> (('fe, 're) update_error + unit) \<Rightarrow> bool" where
  "session_log H len expected log res \<longleftrightarrow>
     (\<exists>cs ending. log = writes 0 cs @ ending \<and> list_all chunk_ok cs \<and>
        length (concat cs) \<le> unat len \<and>
        (ending = [] \<and> res \<noteq> Inr () \<or>
         (\<exists>c e. ending = [Wrote (length (concat cs)) c (Inl e)] \<and> chunk_ok c \<and> res = Inl (Flash e)) \<or>
         (\<exists>mres. ending = [Marked mres] \<and> length (concat cs) = unat len \<and>
            hash_finalize H (foldl (hash_update H) (hash_new H) cs) = expected \<and>
            res = (case mres of Inl e \<Rightarrow> Inl (Flash e) | Inr _ \<Rightarrow> Inr ()))))"

lemma apply_update_log:
  assumes "apply_update (logged F) R H len expected (f, []) r = ((f', log), r', res)"
    and "slice_preserving R"
  shows "(if ucast ACTIVE_BYTES < len then log = [] \<and> res = Inl (Oversize len ACTIVE_BYTES)
    else session_log H len expected log res)"
proof (cases "ucast ACTIVE_BYTES < len")
  case True
  with assms(1) show ?thesis by (simp add: apply_update_def)
next
  case False
  obtain f1 log1 r1 lres where L:
      "stream_loop (logged F) R H len (replicate CHUNK_BYTES 0) (hash_new H) 0 0 (f, []) r =
        ((f1, log1), r1, lres)"
    by (metis surj_pair)
  obtain cs where cs: "list_all chunk_ok cs" "length (concat cs) \<le> unat len"
      "loop_log H 0 (hash_new H) 0 cs lres log1"
    using stream_loop_log [OF L assms(2)] by auto
  have "session_log H len expected log res"
  proof (cases lres)
    case (Inl e)
    with assms(1) False L have le: "log = log1" "res = Inl e" by (auto simp: apply_update_def)
    from cs(3) Inl consider (whole) "log1 = writes 0 cs"
      | (failed) c x where "chunk_ok c" "log1 = writes 0 cs @ [Wrote (length (concat cs)) c (Inl x)]"
          "e = Flash x"
      by (cases e) (auto simp: loop_log_def)
    then show ?thesis
    proof cases
      case whole
      with le cs show ?thesis
        unfolding session_log_def by (intro exI [of _ cs] exI [of _ "[]"]) simp
    next
      case failed
      with le cs show ?thesis
        unfolding session_log_def
        by (intro exI [of _ cs] exI [of _ "[Wrote (length (concat cs)) c (Inl x)]"]) auto
    qed
  next
    case (Inr ht)
    then obtain h tot where ht: "lres = Inr (h, tot)" by (cases ht) simp
    with cs(3) have log1: "log1 = writes 0 cs" "h = foldl (hash_update H) (hash_new H) cs"
        "unat tot = length (concat cs)" by (auto simp: loop_log_def)
    consider (short) "tot \<noteq> len" | (hash) "tot = len" "hash_finalize H h \<noteq> expected"
      | (mark) "tot = len" "hash_finalize H h = expected" by blast
    then show ?thesis
    proof cases
      case mark
      obtain f2 mres where m: "flash_mark F f1 = (f2, mres)" by (metis surj_pair)
      with assms(1) False L ht mark have "log = log1 @ [Marked mres]"
          "res = (case mres of Inl e \<Rightarrow> Inl (Flash e) | Inr _ \<Rightarrow> Inr ())"
        by (auto simp: apply_update_def split: sum.splits)
      with cs log1 mark show ?thesis
        unfolding session_log_def by (intro exI [of _ cs] exI [of _ "[Marked mres]"]) auto
    next
      case short
      with assms(1) False L ht have "log = log1" "res = Inl TooShort" by (auto simp: apply_update_def)
      with cs log1 show ?thesis
        unfolding session_log_def by (intro exI [of _ cs] exI [of _ "[]"]) auto
    next
      case hash
      with assms(1) False L ht have "log = log1" "res = Inl HashMismatch" by (auto simp: apply_update_def)
      with cs log1 show ?thesis
        unfolding session_log_def by (intro exI [of _ cs] exI [of _ "[]"]) auto
    qed
  qed
  with False show ?thesis by simp
qed

subsection \<open>The body, read as a stream\<close>

text \<open>
  The contract of a body reader: a read delivers bytes into the front of the slice.
  \<open>delivers r bs r1\<close> says that the reader got from \<open>r\<close> to \<open>r1\<close> by delivering \<open>bs\<close>.
\<close>

locale body_source =
  fixes R :: "('r, 're) body_reader"
    and delivers :: "'r \<Rightarrow> bytes \<Rightarrow> 'r \<Rightarrow> bool"
  assumes delivers_none: "delivers r [] r"
    and delivers_join: "delivers r a r1 \<Longrightarrow> delivers r1 b r2 \<Longrightarrow> delivers r (a @ b) r2"
    and read_filled: "body_read R r s = (r1, s1, res) \<Longrightarrow> length s1 = length s"
    and read_delivers: "body_read R r s = (r1, s1, Inr n) \<Longrightarrow> n \<le> length s \<and> delivers r (take n s1) r1"
begin

lemma slices: "slice_preserving R"
  by (auto simp: slice_preserving_def dest: read_filled)

lemma stream_delivers:
  assumes "stream_loop (logged F) R' H len buf h offs tot (f, log) r = ((f', log'), r', Inr (h', tot'))"
    and "tot \<le> len" and "length buf = CHUNK_BYTES" and "R' = R"
  shows "\<exists>cs. log' = log @ writes offs cs \<and> delivers r (concat cs) r'"
  using assms
proof (induction "logged F" R' H len buf h offs tot "(f, log)" r arbitrary: f log rule: stream_loop.induct)
  case (1 R' H len buf h offs tot r f log)
  note [simp] = \<open>R' = R\<close>
  let ?rem = "min (unat (len - tot)) (length buf)"
  show ?case
  proof (cases "tot < len")
    case False
    with "1.prems" show ?thesis
      by (intro exI [of _ "[]"]) (auto simp: stream_loop.simps [of "logged F"] delivers_none)
  next
    case run: True
    obtain r1 filled rd where rd: "body_read R' r (take ?rem buf) = (r1, filled, rd)"
      by (metis surj_pair)
    have filled: "length filled = ?rem" using read_filled rd by auto
    show ?thesis
    proof (cases rd)
      case (Inl e)
      with run rd "1.prems"(1) show ?thesis by (auto simp: stream_loop.simps [of "logged F"])
    next
      case (Inr n)
      let ?buf = "filled @ drop ?rem buf"
      let ?c = "take n ?buf"
      have rd': "body_read R' r (take ?rem buf) = (r1, filled, Inr n)" using rd Inr by simp
      note del = read_delivers [OF rd' [unfolded \<open>R' = R\<close>]]
      show ?thesis
      proof (cases "n = 0")
        case True
        with Inr run rd "1.prems"(1) del show ?thesis
          by (intro exI [of _ "[]"]) (auto simp: stream_loop.simps [of "logged F"])
      next
        case False
        have chunk: "n \<le> ?rem" using del by simp
        note t = total_step [OF run, of n]
        have n: "n \<le> unat (len - tot)" using chunk by simp
        have c: "delivers r ?c r1" using del chunk filled by simp
        obtain f1 wres where w: "flash_write F f offs ?c = (f1, wres)" by (metis surj_pair)
        have lw: "flash_write (logged F) (f, log) offs ?c = ((f1, log @ [Wrote offs ?c wres]), wres)"
          using w by simp
        note step = stream_loop_chunk [OF run rd' False chunk refl lw, of H h]
        from step "1.prems"(1) obtain u where ok: "wres = Inr u" by (cases wres) auto
        let ?log = "log @ [Wrote offs ?c (Inr u)]"
        have "\<exists>cs. log' = ?log @ writes (offs + n) cs \<and> delivers r1 (concat cs) r'"
        proof (rule "1.hyps" [OF run refl refl rd [symmetric] refl Inr])
          show "tot + of_nat n \<le> len" using t(1,2) [OF n] by (simp add: word_le_nat_alt)
          show "((f1, ?log), Inr u) = flash_write (logged F) (f, log) offs ?c" using lw ok by simp
          show "\<not> ?rem < n" using chunk by linarith
          show "stream_loop (logged F) R' H len ?buf (hash_update H h ?c) (offs + n)
              (tot + of_nat n) (f1, ?log) r1 = ((f', log'), r', Inr (h', tot'))"
            using "1.prems"(1) step ok by simp
        qed (use False "1.prems"(3,4) filled in simp_all)
        then obtain cs where IH: "log' = ?log @ writes (offs + n) cs" "delivers r1 (concat cs) r'"
          by blast
        have "length ?c = n" using chunk filled by simp
        then have ws: "Wrote offs ?c (Inr u) # writes (offs + n) cs = writes offs (?c # cs)"
          by (simp only: writes.simps) simp
        have "delivers r (concat (?c # cs)) r'" using delivers_join [OF c IH(2)] by simp
        then show ?thesis
          using IH(1) by (intro exI [of _ "?c # cs"]) (simp only: ws append_assoc append_Cons append_Nil simp_thms)
      qed
    qed
  qed
qed

lemma session_image:
  assumes "apply_update (logged F) R H len expected (f, []) r = ((f', log), r', Inr ())"
  shows "\<exists>cs. log = writes 0 cs @ [Marked (Inr ())] \<and> delivers r (concat cs) r' \<and>
    length (concat cs) = unat len \<and> hash_finalize H (foldl (hash_update H) (hash_new H) cs) = expected"
proof -
  have fits: "\<not> ucast ACTIVE_BYTES < len" using assms by (auto simp: apply_update_def)
  obtain f1 log1 r1 lres where L:
      "stream_loop (logged F) R H len (replicate CHUNK_BYTES 0) (hash_new H) 0 0 (f, []) r =
        ((f1, log1), r1, lres)"
    by (metis surj_pair)
  with assms fits obtain h tot where ht: "lres = Inr (h, tot)"
    by (cases lres) (auto simp: apply_update_def)
  obtain f2 mres where m: "flash_mark F f1 = (f2, mres)" by (metis surj_pair)
  from assms fits L ht m have *: "tot = len" "hash_finalize H h = expected" "r' = r1"
      "log = log1 @ [Marked (Inr ())]"
    by (auto simp: apply_update_def split: if_splits sum.splits)
  obtain cs where cs: "log1 = writes 0 cs" "h = foldl (hash_update H) (hash_new H) cs"
      "unat tot = length (concat cs)"
    using stream_loop_log [OF L slices] ht by (auto simp: loop_log_def)
  obtain cs' where cs': "log1 = writes 0 cs'" "delivers r (concat cs') r1"
    using stream_delivers [OF L [unfolded ht]] by auto
  have "cs = cs'" by (rule writes_inject [OF trans [OF cs(1) [symmetric] cs'(1)]])
  with * cs cs' show ?thesis by (intro exI [of _ cs]) simp
qed

end

text \<open>A flasher in good order: while it is \<open>ready\<close> it takes every write within the size of the
  active partition and stays ready, and it takes the mark.\<close>

locale accepting_flasher =
  fixes F :: "('f, 'fe) flasher"
    and ready :: "'f \<Rightarrow> bool"
  assumes accepts_write: "ready f \<Longrightarrow> offs + length data \<le> unat ACTIVE_BYTES \<Longrightarrow>
      \<exists>f1. flash_write F f offs data = (f1, Inr ()) \<and> ready f1"
    and accepts_mark: "ready f \<Longrightarrow> \<exists>f1. flash_mark F f = (f1, Inr ())"

text \<open>The flasher's state after chunks were written back to back from \<open>offs\<close>.\<close>

primrec flash_writes :: "('f, 'fe) flasher \<Rightarrow> 'f \<Rightarrow> nat \<Rightarrow> bytes list \<Rightarrow> 'f" where
  "flash_writes F f offs [] = f"
| "flash_writes F f offs (c # cs) = flash_writes F (fst (flash_write F f offs c)) (offs + length c) cs"

context accepting_flasher begin

lemma logged_accepts: "accepting_flasher (logged F) (\<lambda>s. ready (fst s))"
proof unfold_locales
  fix s :: "'f \<times> 'fe flash_call list" and offs and data :: bytes
  assume "ready (fst s)" and "offs + length data \<le> unat ACTIVE_BYTES"
  then show "\<exists>s1. flash_write (logged F) s offs data = (s1, Inr ()) \<and> ready (fst s1)"
    using accepts_write by (cases s) fastforce
next
  fix s :: "'f \<times> 'fe flash_call list"
  assume "ready (fst s)"
  then show "\<exists>s1. flash_mark (logged F) s = (s1, Inr ())"
    using accepts_mark by (cases s) fastforce
qed

lemma logged_writes:
  assumes "ready f" and "offs + length (concat cs) \<le> unat ACTIVE_BYTES"
  shows "flash_writes (logged F) (f, log) offs cs = (flash_writes F f offs cs, log @ writes offs cs) \<and>
    ready (flash_writes F f offs cs)"
  using assms
proof (induction cs arbitrary: f offs log)
  case Nil
  then show ?case by simp
next
  case (Cons c cs)
  obtain f1 where w: "flash_write F f offs c = (f1, Inr ())" "ready f1"
    using accepts_write [of f offs c] Cons.prems by auto
  with Cons.IH [of f1 "offs + length c"] Cons.prems(2) show ?case by simp
qed

end

text \<open>A source that always delivers something while there is something to deliver.\<close>

locale live_source = body_source +
  fixes pending :: "'a \<Rightarrow> bytes"
  assumes delivers_pending: "delivers r bs r1 \<Longrightarrow> pending r = bs @ pending r1"
    and read_progress: "s \<noteq> [] \<Longrightarrow> pending r \<noteq> [] \<Longrightarrow>
    \<exists>r1 s1 n. body_read R r s = (r1, s1, Inr n) \<and> 0 < n"
begin

lemma stream_live:
  assumes "accepting_flasher F ready"
    and "tot \<le> len" and "length buf = CHUNK_BYTES" and "unat len - unat tot \<le> length (pending r)"
    and "ready f" and "offs + (unat len - unat tot) \<le> unat ACTIVE_BYTES"
  shows "\<exists>r' cs. stream_loop F R H len buf h offs tot f r =
      (flash_writes F f offs cs, r', Inr (foldl (hash_update H) h cs, len)) \<and>
    concat cs = take (unat len - unat tot) (pending r)"
  using assms(2-)
proof (induction "length (pending r)" arbitrary: buf h offs tot f r rule: less_induct)
  case less
  let ?rem = "min (unat (len - tot)) (length buf)"
  show ?case
  proof (cases "tot < len")
    case False
    with less.prems(1) have "tot = len" by simp
    then show ?thesis
      by (intro exI [of _ r] exI [of _ "[]"]) (simp add: stream_loop.simps [of F])
  next
    case run: True
    have l: "unat (len - tot) = unat len - unat tot" using run by (simp add: word_nat)
    have pos: "0 < unat len - unat tot" using run by (simp add: word_nat)
    then have ne: "take ?rem buf \<noteq> []" "pending r \<noteq> []"
      using less.prems(2,3) l by (auto simp: CHUNK_BYTES_def)
    from read_progress [OF this] obtain r1 s1 n where
      rd: "body_read R r (take ?rem buf) = (r1, s1, Inr n)" "0 < n" by blast
    note del = read_delivers [OF rd(1)]
    have len: "length s1 = ?rem" using read_filled [OF rd(1)] by simp
    have n: "n \<noteq> 0" "n \<le> ?rem" using del rd(2) by simp_all
    let ?buf = "s1 @ drop ?rem buf"
    let ?c = "take n ?buf"
    have pend: "pending r = take n s1 @ pending r1" using del delivers_pending by blast
    then have c: "?c = take n (pending r)" using del n len by simp
    have lc: "length ?c = n" using n len by simp
    have t: "unat (tot + of_nat n) = unat tot + n" "unat tot + n \<le> unat len"
      using total_step(1,2) [OF run, of n] n(2) by simp_all
    then have room: "offs + length ?c \<le> unat ACTIVE_BYTES" using lc less.prems(5) by simp
    obtain f1 where w: "flash_write F f offs ?c = (f1, Inr ())" and ready: "ready f1"
      using accepting_flasher.accepts_write [OF assms(1) less.prems(4) room] by blast
    have p1: "length (pending r1) = length (pending r) - n" "n \<le> length (pending r)"
      using pend n len by (simp_all add: pend)
    have "\<exists>r' cs. stream_loop F R H len ?buf (hash_update H h ?c) (offs + n) (tot + of_nat n) f1 r1 =
        (flash_writes F f1 (offs + n) cs, r', Inr (foldl (hash_update H) (hash_update H h ?c) cs, len)) \<and>
        concat cs = take (unat len - unat (tot + of_nat n)) (pending r1)"
    proof (rule less.hyps)
      show "length (pending r1) < length (pending r)" using p1 n by simp
      show "tot + of_nat n \<le> len" using t by (simp add: word_le_nat_alt)
      show "length ?buf = CHUNK_BYTES" using len less.prems(2) by simp
      show "unat len - unat (tot + of_nat n) \<le> length (pending r1)"
        using t p1 less.prems(3) by simp
      show "offs + n + (unat len - unat (tot + of_nat n)) \<le> unat ACTIVE_BYTES"
        using t less.prems(5) by simp
    qed (rule ready)
    then obtain r' cs where IH: "stream_loop F R H len ?buf (hash_update H h ?c) (offs + n)
        (tot + of_nat n) f1 r1 = (flash_writes F f1 (offs + n) cs, r', Inr (foldl (hash_update H) (hash_update H h ?c) cs, len))"
        "concat cs = take (unat len - unat (tot + of_nat n)) (pending r1)" by blast
    have "concat (?c # cs) = take (n + (unat len - unat (tot + of_nat n))) (pending r)"
      using IH(2) pend n len unfolding concat.simps c by (simp add: take_add)
    also have "n + (unat len - unat (tot + of_nat n)) = unat len - unat tot" using t by simp
    finally show ?thesis
      using stream_loop_chunk [OF run rd(1) n refl w, of H h] IH(1)
      by (intro exI [of _ r'] exI [of _ "?c # cs"])
        (simp only: sum.case foldl.simps flash_writes.simps w fst_conv lc simp_thms)
  qed
qed

lemma session_succeeds:
  assumes "accepting_flasher F ready" and "ready f"
    and "\<And>cs. hash_finalize H (foldl (hash_update H) (hash_new H) cs) = sha (concat cs)"
    and "len \<le> ucast ACTIVE_BYTES" and "unat len \<le> length (pending r)"
    and "sha (take (unat len) (pending r)) = expected"
  shows "\<exists>r' cs. apply_update F R H len expected f r = (fst (flash_mark F (flash_writes F f 0 cs)), r', Inr ()) \<and>
    concat cs = take (unat len) (pending r)"
proof -
  have fits: "\<not> ucast ACTIVE_BYTES < len" "unat len \<le> unat ACTIVE_BYTES"
    using assms(4) by (simp_all add: not_less word_nat ACTIVE_BYTES_def)
  obtain r1 cs where L: "stream_loop F R H len (replicate CHUNK_BYTES 0) (hash_new H) 0 0 f r =
      (flash_writes F f 0 cs, r1, Inr (foldl (hash_update H) (hash_new H) cs, len))"
      "concat cs = take (unat len) (pending r)"
    using stream_live [OF assms(1), of 0 len "replicate CHUNK_BYTES 0" r f 0 H "hash_new H"] assms(2,5) fits(2)
    by auto
  have "length (concat cs) \<le> unat ACTIVE_BYTES" unfolding L(2) using fits(2) by simp
  then have "ready (flash_writes F f 0 cs)"
    using accepting_flasher.logged_writes [OF assms(1,2), of 0 cs "[]"] by simp
  then obtain f2 where "flash_mark F (flash_writes F f 0 cs) = (f2, Inr ())"
    using accepting_flasher.accepts_mark [OF assms(1)] by blast
  with fits L assms(3,6) show ?thesis by (intro exI [of _ r1] exI [of _ cs]) (simp add: apply_update_def)
qed

end

subsection \<open>Properties\<close>

text \<open>
  C6: an update session calls the flasher in the right order, whatever the flasher, the reader
  and the digest do. An image larger than the active partition is refused before any call.
  Otherwise the calls are whole chunks of 1 to 4096 bytes, written back to back from offset 0
  and never beyond the declared length; a failed write ends the session; and the image is marked
  at most once, as the last call, after every byte was written and the digest of exactly the
  written bytes was the expected one. Success is the mark's success, and no other outcome is.
\<close>

theorem session_marks_only_verified:
  assumes "slice_preserving R"
  shows "case apply_update (logged F) R H len expected (f, []) r of ((f', log), r', res) \<Rightarrow>
    if ucast ACTIVE_BYTES < len then log = [] \<and> res = Inl (Oversize len ACTIVE_BYTES)
    else session_log H len expected log res"
proof -
  obtain f' log r' res where
    *: "apply_update (logged F) R H len expected (f, []) r = ((f', log), r', res)"
    by (metis surj_pair)
  from apply_update_log [OF * assms] * show ?thesis by simp
qed

text \<open>A reader of a list, for the example: it fills as much of the slice as it can.\<close>

definition list_reader :: "(bytes, unit) body_reader" where
  "list_reader = \<lparr>body_read = (\<lambda>body s.
     (let n = min (length s) (length body) in (drop n body, copy_at s 0 (take n body), Inr n)))\<rparr>"

lemma list_reader_slices: "slice_preserving list_reader"
  by (auto simp: slice_preserving_def list_reader_def Let_def)

definition nul_flasher :: "(unit, unit) flasher" where
  "nul_flasher = \<lparr>flash_write = (\<lambda>_ _ _. ((), Inr ())), flash_mark = (\<lambda>_. ((), Inr ()))\<rparr>"

lemma nul_accepts: "accepting_flasher nul_flasher (\<lambda>_. True)"
  by unfold_locales (auto simp: nul_flasher_def)

definition copy_hasher :: "bytes hasher" where
  "copy_hasher = \<lparr>hash_new = [], hash_update = (@), hash_finalize = id\<rparr>"

theorem session_marks_only_verified_witness:
  "slice_preserving list_reader \<and>
   (case apply_update (logged nul_flasher) list_reader copy_hasher 3 [1, 2, 3] ((), []) [1, 2, 3, 4] of
      ((f', log), r', res) \<Rightarrow>
        if ucast ACTIVE_BYTES < (3 :: u64) then log = [] \<and> res = Inl (Oversize 3 ACTIVE_BYTES)
        else session_log copy_hasher 3 [1, 2, 3] log res)"
  using session_marks_only_verified [OF list_reader_slices, where F = nul_flasher and H = copy_hasher and len = 3
      and expected = "[1, 2, 3]" and f = "()" and r = "[1, 2, 3, 4]"]
  by (simp add: list_reader_slices)

end
