(* ===== verification/Ota_Transport.thy ===== *)
theory Ota_Transport
  imports Ota_Text Http_Head Session
begin

text \<open>
  The transport of \<open>app/src/ota/transport.rs\<close>: endpoint resolution, opening a connection, one
  request and its response head, and the two body readers. The network is a parameter: a record
  of the calls that the code makes (DNS, TCP connect, TLS handshake, reads and writes), each a
  function on a world state. The result of a call under \<open>with_timeout\<close> is a \<open>timed\<close>: the
  deadline passed, the call failed, or it is done with a value. A read is asked for at most so
  many bytes; that it never delivers more is the documented contract of the \<open>Read\<close> trait, which
  the model has built in by taking no more than it asked for.
\<close>

datatype 'a timed = Timed_Out | Failed | Done 'a

definition untimed :: "'e \<Rightarrow> 'e \<Rightarrow> 'a timed \<Rightarrow> 'e + 'a" where
  "untimed timeout failed r =
     (case r of Timed_Out \<Rightarrow> Inl timeout | Failed \<Rightarrow> Inl failed | Done x \<Rightarrow> Inr x)"

record 'w transport =
  t_read :: "'w \<Rightarrow> nat \<Rightarrow> 'w \<times> bytes timed"
  t_write_all :: "'w \<Rightarrow> bytes \<Rightarrow> 'w \<times> unit timed"
  t_flush :: "'w \<Rightarrow> 'w \<times> unit timed"

definition READ_CHUNK :: nat where "READ_CHUNK = 256"

text \<open>\<open>read_timed\<close>: the world, the slice with what was read at its front, and the result.\<close>

definition read_timed :: "'w transport \<Rightarrow> 'w \<Rightarrow> bytes \<Rightarrow> 'w \<times> bytes \<times> (fetch_error + nat)" where
  "read_timed T w buf =
     (case t_read T w (length buf) of
        (w1, Timed_Out) \<Rightarrow> (w1, buf, Inl FE_Timeout)
      | (w1, Failed) \<Rightarrow> (w1, buf, Inl FE_Read)
      | (w1, Done bs) \<Rightarrow>
          (let data = take (length buf) bs in (w1, copy_at buf 0 data, Inr (length data))))"

subsection \<open>A request and its head\<close>

definition head_code :: "head_error \<Rightarrow> bytes" where
  "head_code e =
     (case e of
        MalformedStatusLine \<Rightarrow> ascii ''malformed_status''
      | TooFewStatusTokens \<Rightarrow> ascii ''too_few_status_tokens''
      | NonNumericStatus \<Rightarrow> ascii ''non_numeric_status''
      | UnexpectedStatus \<Rightarrow> ascii ''unexpected_status''
      | TransferEncoding \<Rightarrow> ascii ''transfer_encoding''
      | MissingContentLength \<Rightarrow> ascii ''missing_content_length''
      | DuplicateContentLength \<Rightarrow> ascii ''duplicate_content_length''
      | MalformedHeader \<Rightarrow> ascii ''malformed_header''
      | OversizedHeader \<Rightarrow> ascii ''oversized_header'')"

text \<open>The loop over the bytes of one read: the parser, and the index and verdict of the byte
  that ended the head.\<close>

fun feed :: "head_parser \<Rightarrow> nat \<Rightarrow> bytes \<Rightarrow> head_parser \<times> (nat \<times> (head_error + response_head)) option" where
  "feed p i [] = (p, None)"
| "feed p i (b # bs) =
     (case push p b of
        (p1, NeedMore) \<Rightarrow> feed p1 (i + 1) bs
      | (p1, Complete head) \<Rightarrow> (p1, Some (i, Inr head))
      | (p1, Reject e) \<Rightarrow> (p1, Some (i, Inl e)))"

text \<open>The read loop of \<open>get\<close>. It has no bound of its own: \<open>None\<close> is a loop that never ends.\<close>

partial_function (option) get_loop ::
    "'w transport \<Rightarrow> 'w \<Rightarrow> head_parser \<Rightarrow> bytes \<Rightarrow> bytes \<Rightarrow>
       ('w \<times> bytes \<times> (fetch_error + response_head \<times> nat)) option" where
  "get_loop T w p buf leftover =
     (case read_timed T w buf of
        (w1, buf1, Inl e) \<Rightarrow> Some (w1, leftover, Inl e)
      | (w1, buf1, Inr n) \<Rightarrow>
          if n = 0 then Some (w1, leftover, Inl FE_Closed)
          else
            (case feed p 0 (take n buf1) of
               (p1, None) \<Rightarrow> get_loop T w1 p1 buf1 leftover
             | (p1, Some (i, Inl e)) \<Rightarrow> Some (w1, leftover, Inl (FE_Head (head_code e)))
             | (p1, Some (i, Inr head)) \<Rightarrow>
                 (let extra = n - i - 1 in
                  if length leftover < extra then Some (w1, leftover, Inl FE_Leftover)
                  else Some (w1, copy_at leftover 0 (drop (i + 1) (take n buf1)), Inr (head, extra)))))"

definition get :: "'w transport \<Rightarrow> 'w \<Rightarrow> bytes \<Rightarrow> bytes \<Rightarrow>
    ('w \<times> bytes \<times> (fetch_error + response_head \<times> nat)) option" where
  "get T w request leftover =
     (case t_write_all T w request of
        (w1, Timed_Out) \<Rightarrow> Some (w1, leftover, Inl FE_Timeout)
      | (w1, Failed) \<Rightarrow> Some (w1, leftover, Inl FE_Write)
      | (w1, Done _) \<Rightarrow>
          (case t_flush T w1 of
             (w2, Timed_Out) \<Rightarrow> Some (w2, leftover, Inl FE_Timeout)
           | (w2, Failed) \<Rightarrow> Some (w2, leftover, Inl FE_Flush)
           | (w2, Done _) \<Rightarrow> get_loop T w2 head_new (replicate READ_CHUNK 0) leftover))"

subsection \<open>Resolving and opening\<close>

type_synonym ipv4 = "u8 \<times> u8 \<times> u8 \<times> u8"
type_synonym endpoint = "ipv4 \<times> u16"

text \<open>The core library's parser of an IPv4 address: four octets of one to three digits, without
  a leading zero unless the octet is zero itself.\<close>

definition ipv4_octet :: "bytes \<Rightarrow> u8 option" where
  "ipv4_octet s =
     (if s = [] \<or> 3 < length s \<or> \<not> list_all is_ascii_digit s \<or> 255 < number_value s \<or>
         1 < length s \<and> hd s = 0x30
      then None else Some (of_nat (number_value s)))"

definition parse_ipv4 :: "bytes \<Rightarrow> ipv4 option" where
  "parse_ipv4 s =
     (if 15 < length s then None
      else case map ipv4_octet (split_on 0x2E s) of
        [Some a, Some b, Some c, Some d] \<Rightarrow> Some (a, b, c, d)
      | _ \<Rightarrow> None)"

text \<open>The calls of the network stack. \<open>net_ipv4\<close> is the match of an address against
  \<open>IpAddress::Ipv4\<close>. The wait for an address is the one call without a deadline: \<open>None\<close> is a network that
  never gets configured, and a wait that never ends.\<close>

record ('w, 'a) network =
  net_dns :: "'w \<Rightarrow> bytes \<Rightarrow> 'w \<times> 'a list timed"
  net_ipv4 :: "'a \<Rightarrow> ipv4 option"
  net_connect :: "'w \<Rightarrow> endpoint \<Rightarrow> 'w \<times> unit timed"
  net_handshake :: "'w \<Rightarrow> bytes \<Rightarrow> 'w \<times> unit timed"
  net_plain :: "'w transport"
  net_tls :: "'w transport"
  net_config_up :: "'w \<Rightarrow> 'w option"

definition resolve :: "('w, 'a) network \<Rightarrow> 'w \<Rightarrow> uri \<Rightarrow> 'w \<times> (ota_error + endpoint)" where
  "resolve N w u =
     (case parse_ipv4 (host u) of
        Some ip \<Rightarrow> (w, Inr (ip, port u))
      | None \<Rightarrow>
          (case net_dns N w (host u) of
             (w1, Done addrs) \<Rightarrow>
               (w1, case (case addrs of a # _ \<Rightarrow> net_ipv4 N a | [] \<Rightarrow> None) of
                      Some v4 \<Rightarrow> Inr (v4, port u)
                    | None \<Rightarrow> Inl O_Dns)
           | (w1, Failed) \<Rightarrow> (w1, Inl O_Dns)
           | (w1, Timed_Out) \<Rightarrow> (w1, Inl O_Timeout)))"

text \<open>An open connection; the socket and the TLS state are part of the world.\<close>

datatype opened = Plain | Tls

definition open_link :: "('w, 'a) network \<Rightarrow> 'w \<Rightarrow> endpoint \<Rightarrow> uri \<Rightarrow> 'w \<times> (ota_error + opened)" where
  "open_link N w endpoint u =
     (case net_connect N w endpoint of
        (w1, Failed) \<Rightarrow> (w1, Inl O_Connect)
      | (w1, Timed_Out) \<Rightarrow> (w1, Inl O_Timeout)
      | (w1, Done _) \<Rightarrow>
          if \<not> tls u then (w1, Inr Plain)
          else
            (case net_handshake N w1 (host u) of
               (w2, Done _) \<Rightarrow> (w2, Inr Tls)
             | (w2, Failed) \<Rightarrow> (w2, Inl O_Tls)
             | (w2, Timed_Out) \<Rightarrow> (w2, Inl O_Timeout)))"

definition link :: "('w, 'a) network \<Rightarrow> opened \<Rightarrow> 'w transport" where
  "link N c = (case c of Plain \<Rightarrow> net_plain N | Tls \<Rightarrow> net_tls N)"

definition send :: "('w, 'a) network \<Rightarrow> opened \<Rightarrow> 'w \<Rightarrow> bytes \<Rightarrow> bytes \<Rightarrow>
    ('w \<times> bytes \<times> (fetch_error + response_head \<times> nat)) option" where
  "send N c w request leftover = get (link N c) w request leftover"

definition read_some :: "'w transport \<Rightarrow> 'w \<Rightarrow> bytes \<Rightarrow> 'w \<times> bytes \<times> (fetch_error + nat)" where
  "read_some T w buf = read_timed T w buf"

subsection \<open>The body\<close>

lemma read_timed_count:
  "read_timed T w buf = (w1, buf1, res) \<Longrightarrow>
     length buf1 = length buf \<and> (\<forall>n. res = Inr n \<longrightarrow> n \<le> length buf)"
  by (auto simp: read_timed_def Let_def split: prod.splits timed.splits)

text \<open>The loop of \<open>read_small\<close>: \<open>n\<close> bytes of \<open>out\<close> are there, \<open>len\<close> are wanted.\<close>

function small_loop :: "'w transport \<Rightarrow> 'w \<Rightarrow> nat \<Rightarrow> bytes \<Rightarrow> nat \<Rightarrow> 'w \<times> bytes \<times> (fetch_error + nat)" where
  "small_loop T w len out n =
     (if n < len then
        (case read_some T w (drop n (take len out)) of
           (w1, filled, Inl e) \<Rightarrow> (w1, copy_at out n filled, Inl e)
         | (w1, filled, Inr got) \<Rightarrow>
             if got = 0 then (w1, copy_at out n filled, Inr n)
             else small_loop T w1 len (copy_at out n filled) (n + got))
      else (w, out, Inr n))"
  by pat_completeness auto
termination
  by (relation "measure (\<lambda>(T, w, len, out, n). len - n)") auto

declare small_loop.simps [simp del]

definition read_small :: "'w transport \<Rightarrow> 'w \<Rightarrow> bytes \<Rightarrow> u64 \<Rightarrow> bytes \<Rightarrow> 'w \<times> bytes \<times> (fetch_error + nat)" where
  "read_small T w leftover len out =
     (if of_nat (length out) < len then (w, out, Inl FE_BodyTooLarge)
      else
        let want = unat len; front = min (length leftover) want
        in small_loop T w want (copy_at out 0 (take front leftover)) front)"

text \<open>\<open>HttpBody\<close>, the streaming body: the bytes read past the head first, then the connection.\<close>

record 'w http_body =
  hb_link :: 'w
  hb_leftover :: bytes

definition http_read :: "'w transport \<Rightarrow> 'w http_body \<Rightarrow> bytes \<Rightarrow> 'w http_body \<times> bytes \<times> (fetch_error + nat)" where
  "http_read T b buf =
     (if hb_leftover b \<noteq> [] then
        let n = min (length buf) (length (hb_leftover b))
        in (b\<lparr>hb_leftover := drop n (hb_leftover b)\<rparr>, copy_at buf 0 (take n (hb_leftover b)), Inr n)
      else
        (case read_some T (hb_link b) buf of
           (w1, buf1, res) \<Rightarrow> (b\<lparr>hb_link := w1\<rparr>, buf1, res)))"

definition http_body_reader :: "'w transport \<Rightarrow> ('w http_body, fetch_error) body_reader" where
  "http_body_reader T = \<lparr>body_read = http_read T\<rparr>"

subsection \<open>The loop over the bytes of a read\<close>

lemma final_snoc: "final push p (bs @ [b]) = fst (push (final push p bs) b)"
  by simp

lemma bounded_spec_Nil [simp]: "bounded_spec [] = NeedMore"
  by (simp add: bounded_spec_def head_spec_def)

definition verdict :: "head_error + response_head \<Rightarrow> head_event" where
  "verdict r = (case r of Inl e \<Rightarrow> Reject e | Inr h \<Rightarrow> Complete h)"

lemma feed_open:
  assumes "feed (final push head_new bs) i cs = (p, None)" and "bounded_spec bs = NeedMore"
  shows "p = final push head_new (bs @ cs) \<and> bounded_spec (bs @ cs) = NeedMore"
  using assms
proof (induction cs arbitrary: bs i)
  case Nil
  then show ?case by simp
next
  case (Cons c cs)
  obtain p1 ev where push: "push (final push head_new bs) c = (p1, ev)" by (metis surj_pair)
  then have ev: "ev = bounded_spec (bs @ [c])" and p1: "p1 = final push head_new (bs @ [c])"
    using push_exact [of bs c] by simp_all
  from Cons.prems(1) push have "ev = NeedMore" and "feed p1 (i + 1) cs = (p, None)"
    by (auto split: head_event.splits)
  with Cons.IH [of "bs @ [c]" "i + 1"] ev p1 show ?case by simp
qed

lemma feed_decided:
  assumes "feed (final push head_new bs) i cs = (p, Some (j, r))" and "bounded_spec bs = NeedMore"
  shows "\<exists>ds b es. cs = ds @ b # es \<and> j = i + length ds \<and>
    bounded_spec (bs @ ds) = NeedMore \<and> bounded_spec (bs @ ds @ [b]) = verdict r"
  using assms
proof (induction cs arbitrary: bs i)
  case Nil
  then show ?case by simp
next
  case (Cons c cs)
  obtain p1 ev where push: "push (final push head_new bs) c = (p1, ev)" by (metis surj_pair)
  then have ev: "ev = bounded_spec (bs @ [c])" and p1: "p1 = final push head_new (bs @ [c])"
    using push_exact [of bs c] by simp_all
  show ?case
  proof (cases "ev = NeedMore")
    case True
    with Cons.prems(1) push have "feed p1 (i + 1) cs = (p, Some (j, r))" by simp
    with Cons.IH [of "bs @ [c]" "i + 1"] ev p1 True
    obtain ds b es where "cs = ds @ b # es" "j = i + 1 + length ds"
        "bounded_spec ((bs @ [c]) @ ds) = NeedMore" "bounded_spec ((bs @ [c]) @ ds @ [b]) = verdict r"
      by auto
    then show ?thesis by (intro exI [of _ "c # ds"] exI [of _ b] exI [of _ es]) simp
  next
    case False
    with Cons.prems(1) push have "j = i" "verdict r = ev"
      by (auto simp: verdict_def split: head_event.splits)
    with Cons.prems(2) ev show ?thesis
      by (intro exI [of _ "[]"] exI [of _ c] exI [of _ cs]) simp
  qed
qed

lemma open_head_short: "bounded_spec bs = NeedMore \<Longrightarrow> length bs \<le> MAX_HEAD_BYTES"
  by (auto simp: bounded_spec_def split: if_splits)

text \<open>A head: a byte sequence that is decided by its last byte.\<close>

definition head_of :: "bytes \<Rightarrow> response_head \<Rightarrow> bool" where
  "head_of bs h \<longleftrightarrow>
     bs \<noteq> [] \<and> bounded_spec bs = Complete h \<and> bounded_spec (butlast bs) = NeedMore"

text \<open>\<open>received T w bs w'\<close>: successful reads took the connection from \<open>w\<close> to \<open>w'\<close> and delivered
  \<open>bs\<close>, in this order.\<close>

inductive received :: "'w transport \<Rightarrow> 'w \<Rightarrow> bytes \<Rightarrow> 'w \<Rightarrow> bool" for T where
  received_none: "received T w [] w"
| received_more: "t_read T w k = (w1, Done bs) \<Longrightarrow> received T w1 a w2 \<Longrightarrow>
    received T w (take k bs @ a) w2"

lemma received_join: "received T w a w1 \<Longrightarrow> received T w1 b w2 \<Longrightarrow> received T w (a @ b) w2"
  by (induction rule: received.induct) (auto intro: received_more)

lemma read_timed_received:
  assumes "read_timed T w buf = (w1, buf1, Inr n)"
  shows "received T w (take n buf1) w1" and "n \<le> length buf" and "length buf1 = length buf"
proof -
  obtain bs where r: "t_read T w (length buf) = (w1, Done bs)" "n = length (take (length buf) bs)"
      "buf1 = copy_at buf 0 (take (length buf) bs)"
    using assms by (auto simp: read_timed_def Let_def split: prod.splits timed.splits)
  have "take n buf1 = take (length buf) bs @ []" unfolding r(2,3) copy_at_0
    by (metis append.right_neutral append_eq_conv_conj)
  then show "received T w (take n buf1) w1"
    using received_more [OF r(1) received_none] by simp
  show "n \<le> length buf" and "length buf1 = length buf" using r by simp_all
qed

text \<open>What the read loop returns when \<open>bs\<close> was read before.\<close>

definition get_result :: "'w transport \<Rightarrow> 'w \<Rightarrow> bytes \<Rightarrow> bytes \<Rightarrow>
    'w \<times> bytes \<times> (fetch_error + response_head \<times> nat) \<Rightarrow> bool" where
  "get_result T w bs leftover y \<longleftrightarrow>
     (case y of (w', leftover', r) \<Rightarrow>
        length leftover' = length leftover \<and>
        (case r of
           Inl e \<Rightarrow> e = FE_Timeout \<or> e = FE_Read \<or> e = FE_Closed \<or> (\<exists>he. e = FE_Head (head_code he))
         | Inr (h, extra) \<Rightarrow> extra \<le> length leftover \<and>
             (\<exists>hd. head_of (bs @ hd) h \<and> received T w (hd @ take extra leftover') w')))"

lemma get_loop_result:
  assumes "bounded_spec bs = NeedMore" and "length buf \<le> length leftover"
  shows "\<exists>y. get_loop T w (final push head_new bs) buf leftover = Some y \<and> get_result T w bs leftover y"
  using assms
proof (induction "MAX_HEAD_BYTES - length bs" arbitrary: bs w buf rule: less_induct)
  case less
  let ?p = "final push head_new bs"
  obtain w1 buf1 res where rd: "read_timed T w buf = (w1, buf1, res)" by (metis surj_pair)
  show ?case
  proof (cases res)
    case (Inl e)
    with rd have "e = FE_Timeout \<or> e = FE_Read"
      by (auto simp: read_timed_def Let_def split: prod.splits timed.splits)
    with rd Inl show ?thesis by (auto simp: get_loop.simps [of T w] get_result_def)
  next
    case (Inr n)
    note got = read_timed_received [OF rd [unfolded Inr]]
    show ?thesis
    proof (cases "n = 0")
      case True
      with rd Inr show ?thesis by (simp add: get_loop.simps [of T w] get_result_def)
    next
      case n: False
      let ?cs = "take n buf1"
      have ncs: "length ?cs = n" using got by simp
      obtain p1 found where f: "feed ?p 0 ?cs = (p1, found)" by (metis surj_pair)
      show ?thesis
      proof (cases found)
        case None
        from feed_open [OF f [unfolded None] less.prems(1)]
        have p1: "p1 = final push head_new (bs @ ?cs)" "bounded_spec (bs @ ?cs) = NeedMore" by simp_all
        have "length (bs @ ?cs) \<le> MAX_HEAD_BYTES" by (rule open_head_short [OF p1(2)])
        then have "MAX_HEAD_BYTES - length (bs @ ?cs) < MAX_HEAD_BYTES - length bs" using n ncs by simp
        from less.hyps [OF this p1(2), of buf1 w1] less.prems(2) got
        obtain y where y: "get_loop T w1 p1 buf1 leftover = Some y" "get_result T w1 (bs @ ?cs) leftover y"
          unfolding p1(1) by auto
        have "get_loop T w ?p buf leftover = Some y"
          using rd Inr n f None y(1) by (simp add: get_loop.simps [of T w])
        moreover have "get_result T w bs leftover y"
          using y(2) received_join [OF got(1)] unfolding get_result_def
          by (auto split: prod.splits sum.splits)
        ultimately show ?thesis by blast
      next
        case (Some ir)
        then obtain i r where ir: "found = Some (i, r)" by (cases ir) simp
        from feed_decided [OF f [unfolded ir] less.prems(1)]
        obtain ds b es where cs: "?cs = ds @ b # es" "i = length ds"
            "bounded_spec (bs @ ds) = NeedMore" "bounded_spec (bs @ ds @ [b]) = verdict r" by auto
        show ?thesis
        proof (cases r)
          case (Inl e)
          with rd Inr n f ir show ?thesis
            by (auto simp: get_loop.simps [of T w] get_result_def)
        next
          case r: (Inr h)
          have extra: "n - i - 1 = length es" using ncs cs(1,2) by (metis add_diff_cancel_left' diff_Suc_1
                diff_diff_left length_Cons length_append plus_1_eq_Suc add.commute)
          have es: "drop (i + 1) ?cs = es" using cs(1,2) by simp
          have fits: "length es \<le> length leftover"
            using ncs got(2) less.prems(2) arg_cong [OF cs(1), of length] by simp
          let ?y = "(w1, copy_at leftover 0 es, Inr (h, length es))"
          have "get_loop T w ?p buf leftover = Some ?y"
            using rd Inr n f ir r fits extra es
            by (simp add: get_loop.simps [of T w] Let_def del: drop_take)
          moreover have "get_result T w bs leftover ?y"
          proof -
            have "head_of (bs @ ds @ [b]) h"
              using cs(3,4) r by (simp add: head_of_def verdict_def butlast_append)
            moreover have "received T w ((ds @ [b]) @ es) w1" using got(1) cs(1) by simp
            ultimately show ?thesis using fits by (auto simp: get_result_def copy_at_0)
          qed
          ultimately show ?thesis by blast
        qed
      qed
    qed
  qed
qed

text \<open>The outcome of a whole request, whatever the transport does.\<close>

definition request_result :: "'w transport \<Rightarrow> 'w \<Rightarrow> bytes \<Rightarrow> bytes \<Rightarrow>
    'w \<times> bytes \<times> (fetch_error + response_head \<times> nat) \<Rightarrow> bool" where
  "request_result T w request leftover y \<longleftrightarrow>
     (case y of (w', leftover', r) \<Rightarrow>
        length leftover' = length leftover \<and>
        (case r of
           Inl e \<Rightarrow> e \<noteq> FE_Leftover \<and> e \<noteq> FE_BodyTooLarge
         | Inr (h, extra) \<Rightarrow> extra \<le> length leftover \<and>
             (\<exists>w1 w2 hd. t_write_all T w request = (w1, Done ()) \<and> t_flush T w1 = (w2, Done ()) \<and>
                head_of hd h \<and> received T w2 (hd @ take extra leftover') w')))"

lemma get_total:
  assumes "READ_CHUNK \<le> length leftover"
  shows "\<exists>y. get T w request leftover = Some y \<and> request_result T w request leftover y"
proof -
  have loop: "\<exists>y. get_loop T w2 head_new (replicate READ_CHUNK 0) leftover = Some y \<and>
      get_result T w2 [] leftover y" for w2
    using get_loop_result [of "[]" "replicate READ_CHUNK 0" leftover T w2] assms by simp
  obtain w1 r1 where wr: "t_write_all T w request = (w1, r1)" by (metis surj_pair)
  obtain w2 r2 where fl: "t_flush T w1 = (w2, r2)" by (metis surj_pair)
  obtain y where y: "get_loop T w2 head_new (replicate READ_CHUNK 0) leftover = Some y"
      "get_result T w2 [] leftover y" using loop by blast
  consider "r1 = Timed_Out" | "r1 = Failed" | "r1 = Done ()" "r2 = Timed_Out"
    | "r1 = Done ()" "r2 = Failed" | (both) "r1 = Done ()" "r2 = Done ()"
    by (cases r1; cases r2) auto
  then show ?thesis
  proof cases
    case both
    obtain w' leftover' r where y': "y = (w', leftover', r)" by (cases y)
    have "get T w request leftover = Some y" using wr fl both y(1) by (simp add: get_def)
    moreover have "request_result T w request leftover y"
      using y(2) wr fl both unfolding y' request_result_def get_result_def
      by (cases r) (auto split: prod.splits)
    ultimately show ?thesis by blast
  qed (use wr fl in \<open>simp_all add: get_def request_result_def\<close>)
qed

subsection \<open>Bodies\<close>

text \<open>A short body: either it is whole, or the peer closed the connection early.\<close>

lemma small_loop_result:
  assumes "small_loop T w len out n = (w', out', Inr m)" and "n \<le> len" and "len \<le> length out"
  shows "length out' = length out \<and> m \<le> len \<and>
    (\<exists>c w1. received T w c w1 \<and> take m out' = take n out @ c \<and> length c = m - n \<and> n \<le> m \<and>
       (if m = len then w1 = w' else \<exists>k > 0. t_read T w1 k = (w', Done [])))"
  using assms
proof (induction T w len out n rule: small_loop.induct)
  case (1 T w len out n)
  show ?case
  proof (cases "n < len")
    case False
    with 1 show ?thesis by (auto simp: small_loop.simps [of T w] intro!: exI [of _ "[]"] received_none)
  next
    case True
    let ?slice = "drop n (take len out)"
    obtain w1 filled res where rd: "read_some T w ?slice = (w1, filled, res)" by (metis surj_pair)
    then have rd': "read_timed T w ?slice = (w1, filled, res)" by (simp add: read_some_def)
    obtain got where got: "res = Inr got"
      using True rd "1.prems"(1) by (cases res) (auto simp: small_loop.simps [of T w])
    note R = read_timed_received [OF rd' [unfolded got]]
    have slice: "length ?slice = len - n" using "1.prems"(3) by simp
    let ?out = "copy_at out n filled"
    have out: "length ?out = length out" "take n ?out = take n out"
        "take (n + got) ?out = take n out @ take got filled"
      using R(2,3) slice True "1.prems"(3) by (auto simp: copy_at_def min_def)
    show ?thesis
    proof (cases "got = 0")
      case z: True
      with True rd got "1.prems"(1) have "w' = w1" "out' = ?out" "m = n"
        by (auto simp: small_loop.simps [of T w])
      moreover obtain bs where "t_read T w (length ?slice) = (w1, Done bs)" "take (length ?slice) bs = []"
        using rd' got z
        by (auto simp: read_timed_def Let_def min_def split: prod.splits timed.splits if_splits)
      ultimately show ?thesis
        using True slice out
        by (intro conjI exI [of _ "[]"] exI [of _ w]) (auto intro: received_none intro!: exI [of _ "len - n"])
    next
      case g: False
      with True rd got "1.prems"(1) have "small_loop T w1 len ?out (n + got) = (w', out', Inr m)"
        by (simp add: small_loop.simps [of T w])
      moreover have "n + got \<le> len" using R(2) slice True by simp
      ultimately have "length out' = length ?out \<and> m \<le> len \<and>
          (\<exists>c w2. received T w1 c w2 \<and> take m out' = take (n + got) ?out @ c \<and> length c = m - (n + got) \<and>
             n + got \<le> m \<and> (if m = len then w2 = w' else \<exists>k > 0. t_read T w2 k = (w', Done [])))"
        using "1.IH" [OF True rd [symmetric] refl got g] "1.prems"(3) out(1) by simp
      then obtain c w2 where c: "length out' = length out" "m \<le> len" "received T w1 c w2"
          "take m out' = take n out @ take got filled @ c" "length c = m - (n + got)" "n + got \<le> m"
          "if m = len then w2 = w' else \<exists>k > 0. t_read T w2 k = (w', Done [])"
        unfolding out by auto
      have "received T w (take got filled @ c) w2" by (rule received_join [OF R(1) c(3)])
      moreover have "length (take got filled @ c) = m - n" using c(5,6) R(2,3) slice by simp
      ultimately show ?thesis using c by (intro conjI exI [of _ "take got filled @ c"] exI [of _ w2]) auto
    qed
  qed
qed

lemma read_small_result:
  assumes "read_small T w leftover len out = (w', out', Inr m)" and "length out < 2 ^ 64"
  shows "m \<le> unat len \<and> unat len \<le> length out \<and>
    (\<exists>c w1. received T w c w1 \<and> take m out' = take (unat len) leftover @ c \<and>
       (if m = unat len then w1 = w' else \<exists>k > 0. t_read T w1 k = (w', Done [])))"
proof -
  let ?n = "min (length leftover) (unat len)"
  have fits: "unat len \<le> length out"
    using assms by (auto simp: read_small_def word_less_nat_alt unat_of_nat split: if_splits)
  then have "\<not> of_nat (length out) < len" using assms(2) by (simp add: word_less_nat_alt unat_of_nat)
  with assms(1) have L: "small_loop T w (unat len) (copy_at out 0 (take ?n leftover)) ?n = (w', out', Inr m)"
    by (simp add: read_small_def Let_def)
  have "length (copy_at out 0 (take ?n leftover)) = length out" using fits by simp
  moreover have "take ?n (copy_at out 0 (take ?n leftover)) = take (unat len) leftover"
    by (simp add: copy_at_0 min_def)
  ultimately show ?thesis using small_loop_result [OF L] fits by fastforce
qed

text \<open>The streaming body delivers what was read past the head, then what the connection does.\<close>

definition body_delivers :: "'w transport \<Rightarrow> 'w http_body \<Rightarrow> bytes \<Rightarrow> 'w http_body \<Rightarrow> bool" where
  "body_delivers T b bs b1 \<longleftrightarrow>
     (\<exists>c. received T (hb_link b) c (hb_link b1) \<and> hb_leftover b @ c = bs @ hb_leftover b1)"

lemma body_delivers_join:
  assumes "body_delivers T b x b1" and "body_delivers T b1 y b2"
  shows "body_delivers T b (x @ y) b2"
proof -
  obtain c d where "received T (hb_link b) c (hb_link b1)" "hb_leftover b @ c = x @ hb_leftover b1"
      "received T (hb_link b1) d (hb_link b2)" "hb_leftover b1 @ d = y @ hb_leftover b2"
    using assms by (auto simp: body_delivers_def)
  then show ?thesis
    unfolding body_delivers_def
    by (intro exI [of _ "c @ d"]) (metis append.assoc received_join)
qed

lemma http_read_filled: "http_read T b buf = (b1, buf1, res) \<Longrightarrow> length buf1 = length buf"
  by (auto simp: http_read_def read_some_def Let_def split: if_splits prod.splits dest: read_timed_count)

lemma http_read_delivers:
  assumes "http_read T b buf = (b1, buf1, Inr n)"
  shows "n \<le> length buf \<and> body_delivers T b (take n buf1) b1"
proof (cases "hb_leftover b = []")
  case True
  with assms have "read_timed T (hb_link b) buf = (hb_link b1, buf1, Inr n)" "hb_leftover b1 = []"
    by (auto simp: http_read_def read_some_def split: prod.splits)
  from read_timed_received [OF this(1)] this(2) True show ?thesis
    by (auto simp: body_delivers_def)
next
  case False
  with assms show ?thesis
    by (auto simp: http_read_def Let_def body_delivers_def copy_at_0 intro!: exI [of _ "[]"] received_none)
qed

interpretation http: body_source "http_body_reader T" "body_delivers T" for T
proof unfold_locales
  show "body_delivers T r [] r" for r
    unfolding body_delivers_def by (intro exI [of _ "[]"]) (simp add: received_none)
  show "body_delivers T r a r1 \<Longrightarrow> body_delivers T r1 b r2 \<Longrightarrow> body_delivers T r (a @ b) r2" for r a r1 b r2
    by (rule body_delivers_join)
  show "body_read (http_body_reader T) r s = (r1, s1, res) \<Longrightarrow> length s1 = length s" for r s r1 s1 res
    by (simp add: http_body_reader_def http_read_filled)
  show "body_read (http_body_reader T) r s = (r1, s1, Inr n) \<Longrightarrow>
      n \<le> length s \<and> body_delivers T r (take n s1) r1" for r s r1 s1 n
    by (simp add: http_body_reader_def http_read_delivers)
qed

subsection \<open>Byte streams\<close>

text \<open>
  The contract of TCP and of TLS over it: what a connection delivers is the next part of what is
  still to arrive on it, and a read for at least one byte delivers something while something is.
\<close>

locale byte_stream =
  fixes T :: "'w transport"
    and arriving :: "'w \<Rightarrow> bytes"
  assumes stream_read: "t_read T w k = (w1, Done bs) \<Longrightarrow> arriving w = take k bs @ arriving w1"
begin

lemma received_arriving: "received T w bs w1 \<Longrightarrow> arriving w = bs @ arriving w1"
  by (induction rule: received.induct) (auto dest: stream_read)

end

locale live_stream = byte_stream +
  assumes stream_live: "0 < k \<Longrightarrow> arriving w \<noteq> [] \<Longrightarrow> \<exists>w1 bs. t_read T w k = (w1, Done bs) \<and> bs \<noteq> []"

sublocale live_stream \<subseteq> body: live_source "http_body_reader T" "body_delivers T"
  "\<lambda>b. hb_leftover b @ arriving (hb_link b)"
proof unfold_locales
  show "body_delivers T r bs r1 \<Longrightarrow>
      hb_leftover r @ arriving (hb_link r) = bs @ hb_leftover r1 @ arriving (hb_link r1)" for r bs r1
    by (auto simp: body_delivers_def dest!: received_arriving)
  show "\<exists>r1 s1 n. body_read (http_body_reader T) r s = (r1, s1, Inr n) \<and> 0 < n"
    if "s \<noteq> []" and "hb_leftover r @ arriving (hb_link r) \<noteq> []" for s r
  proof (cases "hb_leftover r = []")
    case True
    with stream_live [of "length s" "hb_link r"] that obtain w1 bs
      where "t_read T (hb_link r) (length s) = (w1, Done bs)" "bs \<noteq> []" by auto
    with True that(1) show ?thesis
      by (auto simp: http_body_reader_def http_read_def read_some_def read_timed_def Let_def)
  next
    case False
    with that(1) show ?thesis by (auto simp: http_body_reader_def http_read_def Let_def)
  qed
qed

context live_stream begin

lemmas update_succeeds = body.session_succeeds

end

text \<open>A connection that is a list of bytes, for the examples.\<close>

definition wire :: "bytes transport" where
  "wire = \<lparr>t_read = (\<lambda>w k. (drop k w, Done (take k w))), t_write_all = (\<lambda>w _. (w, Done ())),
     t_flush = (\<lambda>w. (w, Done ()))\<rparr>"

interpretation wire: live_stream wire id
  by unfold_locales (auto simp: wire_def)

subsection \<open>Properties\<close>

text \<open>
  C23: a request always comes to an end, whatever the peer sends and the transport does: the head
  parser bounds the read loop, because every read feeds it at least one byte and it gives its
  verdict by the 2049th. A success carries a head that was delivered on the connection after the
  request was written and flushed, ended by its last byte, and the returned leftover is exactly
  what the reads delivered past it: the body starts there. Of the errors, the ones for a leftover
  or a body that does not fit never occur, because the leftover buffer has the size of a read.
\<close>

theorem request_terminates:
  assumes "length leftover = READ_CHUNK"
  shows "\<exists>y. send N c w request leftover = Some y \<and> request_result (link N c) w request leftover y"
  using get_total [of leftover "link N c" w request] assms by (simp add: send_def)

definition wire_network :: "(bytes, ipv4) network" where
  "wire_network = \<lparr>net_dns = (\<lambda>w _. (w, Done [(10, 0, 0, 7)])), net_ipv4 = Some,
     net_connect = (\<lambda>w _. (w, Done ())), net_handshake = (\<lambda>w _. (w, Done ())),
     net_plain = wire, net_tls = wire, net_config_up = Some\<rparr>"

theorem request_terminates_witness:
  "length (replicate 256 (0 :: u8)) = READ_CHUNK \<and>
   (\<exists>y. send wire_network Plain (ascii ''HTTP/1.0 404 No'') [] (replicate 256 0) = Some y \<and>
     request_result (link wire_network Plain) (ascii ''HTTP/1.0 404 No'') [] (replicate 256 0) y)"
  using request_terminates [of "replicate 256 0" wire_network Plain "ascii ''HTTP/1.0 404 No''" "[]"]
  by (simp add: READ_CHUNK_def)

text \<open>
  C34: a short text body (the version, the digest) is read without loss or invention: what is
  returned is a prefix of the leftover followed by what further reads delivered, never more than
  the declared length, and it is shorter only when the peer closed the connection. The caller
  is not told that it is shorter.
\<close>

theorem small_body_exact:
  assumes "read_small T w leftover len out = (w', out', Inr m)" and "length out < 2 ^ 64"
  shows "m \<le> unat len \<and> unat len \<le> length out \<and>
    (\<exists>c w1. received T w c w1 \<and> take m out' = take (unat len) leftover @ c \<and>
       (if m = unat len then w1 = w' else \<exists>k > 0. t_read T w1 k = (w', Done [])))"
  by (rule read_small_result [OF assms])

theorem small_body_exact_witness:
  "read_small wire [0x32] [0x31] 3 [0, 0, 0] = ([], [0x31, 0x32, 0], Inr 2) \<and>
   length [0, 0, 0 :: u8] < 2 ^ 64 \<and>
   (2 \<le> unat (3 :: u64) \<and> unat (3 :: u64) \<le> length [0, 0, 0 :: u8] \<and>
    (\<exists>c w1. received wire [0x32] c w1 \<and>
       take 2 [0x31, 0x32, 0] = take (unat (3 :: u64)) [0x31] @ c \<and>
       (if 2 = unat (3 :: u64) then w1 = [] else \<exists>k > 0. t_read wire w1 k = ([], Done []))))"
proof -
  have *: "read_small wire [0x32] [0x31] 3 [0, 0, 0] = ([], [0x31, 0x32, 0], Inr 2)"
    by (simp add: read_small_def small_loop.simps read_some_def read_timed_def wire_def copy_at_def)
  from small_body_exact [OF *] * show ?thesis by simp
qed

text \<open>
  An update succeeds whenever nothing goes wrong: over any byte stream that has the whole
  image in its leftover and still to arrive, an image that fits the active partition, that has
  the expected digest, and that the flash accepts, is streamed, verified and marked, however the
  stream is cut into reads.
\<close>

lemma streamed_update_succeeds:
  assumes "live_stream T arriving"
    and "\<And>f offs data. \<exists>f1. flash_write F f offs data = (f1, Inr ())"
    and "\<And>f. \<exists>f1. flash_mark F f = (f1, Inr ())"
    and "\<And>cs. hash_finalize H (foldl (hash_update H) (hash_new H) cs) = sha (concat cs)"
    and "len \<le> ucast ACTIVE_BYTES" and "unat len \<le> length (hb_leftover b @ arriving (hb_link b))"
    and "sha (take (unat len) (hb_leftover b @ arriving (hb_link b))) = expected"
  shows "snd (snd (apply_update F (http_body_reader T) H len expected f b)) = Inr ()"
proof -
  have "accepting_flasher F (\<lambda>_. True)" using assms(2,3) by unfold_locales auto
  from live_stream.update_succeeds [OF assms(1) this TrueI assms(4-7), of f] show ?thesis by auto
qed

lemma copy_hash: "foldl (hash_update copy_hasher) bs cs = bs @ concat cs"
  by (induction cs arbitrary: bs) (simp_all add: copy_hasher_def)

lemma streamed_update_succeeds_example:
  "live_stream wire id \<and> unat (3 :: u64) \<le> length ([1] @ id [2, 3, 4 :: u8]) \<and>
   snd (snd (apply_update nul_flasher (http_body_reader wire) copy_hasher 3 [1, 2, 3] ()
     \<lparr>hb_link = [2, 3, 4], hb_leftover = [1]\<rparr>)) = Inr ()"
proof -
  have "hash_finalize copy_hasher (foldl (hash_update copy_hasher) (hash_new copy_hasher) cs) = id (concat cs)" for cs
    by (simp add: copy_hash) (simp add: copy_hasher_def)
  from streamed_update_succeeds [OF wire.live_stream_axioms, of nul_flasher copy_hasher id 3
      "\<lparr>hb_link = [2, 3, 4], hb_leftover = [1]\<rparr>" "[1, 2, 3]" "()", OF _ _ this]
  show ?thesis using wire.live_stream_axioms by (simp add: nul_flasher_def ACTIVE_BYTES_def)
qed

end
