(* ===== verification/Ota_Task.thy ===== *)
theory Ota_Task
  imports Ota_Transport
begin

text \<open>
  The OTA task of \<open>app/src/ota/task.rs\<close>: one update check is three requests (version, digest,
  image), the decision, the verified session and the reset. The secrets and the running version
  are a record of parameters, the network is that of \<open>Ota_Transport\<close>, the flasher and the digest
  those of \<open>Session\<close>. The result of a check is an option, \<open>None\<close> being a check that never ends, as one does
  that waits for an address that never comes.
\<close>

definition VERSION_MAX_BYTES :: nat where "VERSION_MAX_BYTES = 64"
definition SHA_MAX_BYTES :: nat where "SHA_MAX_BYTES = 128"
definition NAME_MAX_BYTES :: nat where "NAME_MAX_BYTES = 48"

record device =
  ota_url :: bytes
  ota_project :: bytes
  ota_user :: bytes
  ota_password :: bytes
  running_version :: u32

datatype check_end = Check_Ok | Check_Err ota_error | System_Reset

definition update_code :: "('fe, 're) update_error \<Rightarrow> bytes" where
  "update_code e =
     (case e of
        Oversize _ _ \<Rightarrow> ascii ''oversize'' | TooShort \<Rightarrow> ascii ''too_short'' | TooLong \<Rightarrow> ascii ''too_long''
      | HashMismatch \<Rightarrow> ascii ''hash_mismatch'' | Flash _ \<Rightarrow> ascii ''flash'' | Read _ \<Rightarrow> ascii ''read'')"

text \<open>One request: build it, open a connection, send it. The three uses in \<open>check_and_update\<close>
  are alike.\<close>

definition fetch :: "('w, 'a) network \<Rightarrow> device \<Rightarrow> uri \<Rightarrow> endpoint \<Rightarrow> 'w \<Rightarrow> bytes \<Rightarrow> bytes \<Rightarrow>
    ('w \<times> bytes \<times> (ota_error + opened \<times> response_head \<times> nat)) option" where
  "fetch N d u endpoint w leftover name =
     (case build_request (ota_user d) (ota_password d) u name of
        Inl e \<Rightarrow> Some (w, leftover, Inl e)
      | Inr request \<Rightarrow>
          (case open_link N w endpoint u of
             (w1, Inl e) \<Rightarrow> Some (w1, leftover, Inl e)
           | (w1, Inr c) \<Rightarrow>
               (case send N c w1 (as_bytes request) leftover of
                  None \<Rightarrow> None
                | Some (w2, leftover1, Inl e) \<Rightarrow> Some (w2, leftover1, Inl (O_Transport e))
                | Some (w2, leftover1, Inr (head, extra)) \<Rightarrow>
                    Some (w2, leftover1, Inr (c, head, extra)))))"

text \<open>A request for a short text: the version and the digest. \<open>Inr None\<close> is a status other than
  200, which ends the check without an error.\<close>

definition fetch_text :: "('w, 'a) network \<Rightarrow> device \<Rightarrow> uri \<Rightarrow> endpoint \<Rightarrow> 'w \<Rightarrow> bytes \<Rightarrow> bytes \<Rightarrow>
    nat \<Rightarrow> (bytes \<Rightarrow> 'v option) \<Rightarrow> ota_error \<Rightarrow> ('w \<times> bytes \<times> (ota_error + 'v option)) option" where
  "fetch_text N d u endpoint w leftover name max_bytes parse invalid =
     (case fetch N d u endpoint w leftover name of
        None \<Rightarrow> None
      | Some (w1, leftover1, Inl e) \<Rightarrow> Some (w1, leftover1, Inl e)
      | Some (w1, leftover1, Inr (c, head, extra)) \<Rightarrow>
          if rh_status head \<noteq> 200 then Some (w1, leftover1, Inr None)
          else case rh_length head of
            None \<Rightarrow> Some (w1, leftover1, Inl O_Head)
          | Some len \<Rightarrow>
              if of_nat max_bytes < len then Some (w1, leftover1, Inl O_Head)
              else
                (case read_small (link N c) w1 (take extra leftover1) len (replicate max_bytes 0) of
                   (w2, body, Inl e) \<Rightarrow> Some (w2, leftover1, Inl (O_Transport e))
                 | (w2, body, Inr n) \<Rightarrow>
                     (case parse (take n body) of
                        None \<Rightarrow> Some (w2, leftover1, Inl invalid)
                      | Some v \<Rightarrow> Some (w2, leftover1, Inr (Some v)))))"

definition resource_name :: "u32 \<Rightarrow> bytes \<Rightarrow> ota_error + text_buf" where
  "resource_name remote suffix =
     map_error O_Request (write_fmt (text_new NAME_MAX_BYTES) [decimal (unat remote), suffix])"

text \<open>The third request: the image is streamed into the flasher, and a success resets.\<close>

definition fetch_image :: "('w, 'a) network \<Rightarrow> ('f, 'fe) flasher \<Rightarrow> 'h hasher \<Rightarrow> device \<Rightarrow> uri \<Rightarrow> endpoint \<Rightarrow>
    'w \<Rightarrow> 'f \<Rightarrow> bytes \<Rightarrow> u32 \<Rightarrow> bytes \<Rightarrow> ('w \<times> 'f \<times> check_end) option" where
  "fetch_image N F H d u endpoint w f leftover remote expected =
     (case resource_name remote (ascii ''.bin'') of
        Inl e \<Rightarrow> Some (w, f, Check_Err e)
      | Inr name \<Rightarrow>
          (case fetch N d u endpoint w leftover (as_str name) of
             None \<Rightarrow> None
           | Some (w1, leftover1, Inl e) \<Rightarrow> Some (w1, f, Check_Err e)
           | Some (w1, leftover1, Inr (c, head, extra)) \<Rightarrow>
               if rh_status head \<noteq> 200 then Some (w1, f, Check_Ok)
               else case rh_length head of
                 None \<Rightarrow> Some (w1, f, Check_Err O_Head)
               | Some len \<Rightarrow>
                   (case apply_update F (http_body_reader (link N c)) H len expected f
                       \<lparr>hb_link = w1, hb_leftover = take extra leftover1\<rparr> of
                      (f1, b, Inl e) \<Rightarrow> Some (hb_link b, f1, Check_Err (O_Update (update_code e)))
                    | (f1, b, Inr _) \<Rightarrow> Some (hb_link b, f1, System_Reset))))"

definition check_and_update :: "('w, 'a) network \<Rightarrow> ('f, 'fe) flasher \<Rightarrow> 'h hasher \<Rightarrow> device \<Rightarrow>
    'w \<Rightarrow> 'f \<Rightarrow> ('w \<times> 'f \<times> check_end) option" where
  "check_and_update N F H d w f =
     (case net_config_up N w of None \<Rightarrow> None | Some w0 \<Rightarrow>
      case parse_url (ota_url d) (ota_project d) of
        Inl _ \<Rightarrow> Some (w0, f, Check_Err O_Url)
      | Inr u \<Rightarrow>
          (case resolve N w0 u of
             (w1, Inl e) \<Rightarrow> Some (w1, f, Check_Err e)
           | (w1, Inr endpoint) \<Rightarrow>
               (case fetch_text N d u endpoint w1 (replicate READ_CHUNK 0) (ascii ''version'')
                   VERSION_MAX_BYTES parse_version O_Version of
                  None \<Rightarrow> None
                | Some (w2, leftover, Inl e) \<Rightarrow> Some (w2, f, Check_Err e)
                | Some (w2, leftover, Inr None) \<Rightarrow> Some (w2, f, Check_Ok)
                | Some (w2, leftover, Inr (Some remote)) \<Rightarrow>
                    (case decide (running_version d) remote of
                       D_Skip \<Rightarrow> Some (w2, f, Check_Ok)
                     | D_Update \<Rightarrow>
                         (case resource_name remote (ascii ''.bin.sha256'') of
                            Inl e \<Rightarrow> Some (w2, f, Check_Err e)
                          | Inr name \<Rightarrow>
                              (case fetch_text N d u endpoint w2 leftover (as_str name)
                                  SHA_MAX_BYTES parse_sha256_hex O_Sha of
                                 None \<Rightarrow> None
                               | Some (w3, leftover1, Inl e) \<Rightarrow> Some (w3, f, Check_Err e)
                               | Some (w3, leftover1, Inr None) \<Rightarrow> Some (w3, f, Check_Ok)
                               | Some (w3, leftover1, Inr (Some expected)) \<Rightarrow>
                                   fetch_image N F H d u endpoint w3 f leftover1 remote expected))))))"

text \<open>\<open>run_check\<close>: whether the device reset, and the blink codes signalled to the beacon.\<close>

definition run_check :: "('w, 'a) network \<Rightarrow> ('f, 'fe) flasher \<Rightarrow> 'h hasher \<Rightarrow> device \<Rightarrow>
    'w \<Rightarrow> 'f \<Rightarrow> ('w \<times> 'f \<times> bool \<times> u8 list) option" where
  "run_check N F H d w f =
     (case check_and_update N F H d w f of
        None \<Rightarrow> None
      | Some (w1, f1, Check_Ok) \<Rightarrow> Some (w1, f1, False, [])
      | Some (w1, f1, Check_Err e) \<Rightarrow> Some (w1, f1, False, [blink_code e])
      | Some (w1, f1, System_Reset) \<Rightarrow> Some (w1, f1, True, []))"

text \<open>The task: the boot check, unless the image was just reverted, and one check per reset
  request, until a check resets the device.\<close>

fun task_loop :: "('w, 'a) network \<Rightarrow> ('f, 'fe) flasher \<Rightarrow> 'h hasher \<Rightarrow> device \<Rightarrow>
    nat \<Rightarrow> 'w \<Rightarrow> 'f \<Rightarrow> ('w \<times> 'f \<times> bool \<times> u8 list) option" where
  "task_loop N F H d 0 w f = Some (w, f, False, [])"
| "task_loop N F H d (Suc n) w f =
     (case run_check N F H d w f of
        None \<Rightarrow> None
      | Some (w1, f1, True, codes) \<Rightarrow> Some (w1, f1, True, codes)
      | Some (w1, f1, False, codes) \<Rightarrow>
          map_option (\<lambda>(w2, f2, reset, codes'). (w2, f2, reset, codes @ codes'))
            (task_loop N F H d n w1 f1))"

definition ota_task :: "('w, 'a) network \<Rightarrow> ('f, 'fe) flasher \<Rightarrow> 'h hasher \<Rightarrow> device \<Rightarrow> bool \<Rightarrow>
    nat \<Rightarrow> 'w \<Rightarrow> 'f \<Rightarrow> ('w \<times> 'f \<times> bool \<times> u8 list) option" where
  "ota_task N F H d boot_check_allowed requests w f =
     task_loop N F H d (if boot_check_allowed then Suc requests else requests) w f"

subsection \<open>What a check has seen\<close>

text \<open>A connection answered the request for a resource with a head and the bytes after it.\<close>

definition served :: "('w, 'a) network \<Rightarrow> device \<Rightarrow> uri \<Rightarrow> bytes \<Rightarrow> opened \<Rightarrow> response_head \<Rightarrow> bytes \<Rightarrow> 'w \<Rightarrow> bool" where
  "served N d u name c h body w \<longleftrightarrow>
     (\<exists>request w0 w1 w2 hd. build_request (ota_user d) (ota_password d) u name = Inr request \<and>
        t_write_all (link N c) w0 (as_bytes request) = (w1, Done ()) \<and>
        t_flush (link N c) w1 = (w2, Done ()) \<and> head_of hd h \<and>
        received (link N c) w2 (hd @ body) w)"

text \<open>A resource was answered with status 200 and a declared length, and \<open>body\<close> is the body or
  (when the peer closed early) a front part of it.\<close>

definition reply :: "('w, 'a) network \<Rightarrow> device \<Rightarrow> uri \<Rightarrow> bytes \<Rightarrow> bytes \<Rightarrow> bool" where
  "reply N d u name body \<longleftrightarrow>
     (\<exists>c h w more len. served N d u name c h (body @ more) w \<and> rh_status h = 200 \<and>
        rh_length h = Some len \<and> length body \<le> unat len)"

text \<open>The flash calls of an update that was committed: the declared number of bytes that follow
  the head of the answer to the image request, with the expected digest, then the mark.\<close>

definition image_committed :: "('w, 'a) network \<Rightarrow> 'h hasher \<Rightarrow> device \<Rightarrow> uri \<Rightarrow> u32 \<Rightarrow> bytes \<Rightarrow>
    'fe flash_call list \<Rightarrow> bool" where
  "image_committed N H d u remote expected log \<longleftrightarrow>
     (\<exists>cs c h rest w.
        served N d u (decimal (unat remote) @ ascii ''.bin'') c h (concat cs @ rest) w \<and>
        rh_status h = 200 \<and> rh_length h = Some (of_nat (length (concat cs))) \<and>
        length (concat cs) \<le> unat ACTIVE_BYTES \<and>
        hash_finalize H (foldl (hash_update H) (hash_new H) cs) = expected \<and>
        log = writes 0 cs @ [Marked (Inr ())])"

definition verified_update :: "('w, 'a) network \<Rightarrow> 'h hasher \<Rightarrow> device \<Rightarrow> 'fe flash_call list \<Rightarrow> bool" where
  "verified_update N H d log \<longleftrightarrow>
     (\<exists>u remote expected version_body sha_body.
        parse_url (ota_url d) (ota_project d) = Inr u \<and>
        reply N d u (ascii ''version'') version_body \<and> parse_version version_body = Some remote \<and>
        remote \<noteq> running_version d \<and>
        reply N d u (decimal (unat remote) @ ascii ''.bin.sha256'') sha_body \<and>
        parse_sha256_hex sha_body = Some expected \<and>
        image_committed N H d u remote expected log)"

lemma served_more:
  assumes "served N d u name c h body w" and "received (link N c) w x w'"
  shows "served N d u name c h (body @ x) w'"
proof -
  obtain request w0 w1 w2 hd where "build_request (ota_user d) (ota_password d) u name = Inr request"
      "t_write_all (link N c) w0 (as_bytes request) = (w1, Done ())"
      "t_flush (link N c) w1 = (w2, Done ())" "head_of hd h" "received (link N c) w2 (hd @ body) w"
    using assms(1) by (auto simp: served_def)
  with received_join [OF _ assms(2), of w2 "hd @ body"] show ?thesis
    unfolding served_def by (metis append.assoc)
qed

lemma fetch_result:
  assumes "length leftover = READ_CHUNK"
  shows "\<exists>w' leftover' r. fetch N d u endpoint w leftover name = Some (w', leftover', r) \<and>
    length leftover' = READ_CHUNK \<and>
    (\<forall>c h extra. r = Inr (c, h, extra) \<longrightarrow> served N d u name c h (take extra leftover') w')"
proof (cases "build_request (ota_user d) (ota_password d) u name")
  case (Inl e)
  then show ?thesis using assms by (simp add: fetch_def)
next
  case (Inr request)
  obtain w1 r1 where op: "open_link N w endpoint u = (w1, r1)" by (metis surj_pair)
  show ?thesis
  proof (cases r1)
    case (Inl e)
    with Inr op show ?thesis using assms by (simp add: fetch_def)
  next
    case c: (Inr c)
    obtain y where y: "get (link N c) w1 (as_bytes request) leftover = Some y"
        "request_result (link N c) w1 (as_bytes request) leftover y"
      using get_total [of leftover "link N c" w1 "as_bytes request"] assms by auto
    obtain w' leftover' r where y': "y = (w', leftover', r)" by (cases y)
    show ?thesis
    proof (cases r)
      case (Inl e)
      with y y' Inr op c assms show ?thesis by (simp add: fetch_def send_def request_result_def)
    next
      case r: (Inr he)
      obtain h extra where he: "he = (h, extra)" by (cases he)
      have "served N d u name c h (take extra leftover') w'"
        using y(2) Inr unfolding y' r he request_result_def served_def by auto
      with y y' Inr op c r he assms show ?thesis by (simp add: fetch_def send_def request_result_def)
    qed
  qed
qed

lemma fetch_text_result:
  assumes "length leftover = READ_CHUNK" and "max_bytes < 2 ^ 64"
  shows "\<exists>w' leftover' r. fetch_text N d u endpoint w leftover name max_bytes parse invalid =
      Some (w', leftover', r) \<and> length leftover' = READ_CHUNK \<and>
    (\<forall>v. r = Inr (Some v) \<longrightarrow> (\<exists>body. reply N d u name body \<and> parse body = Some v))"
proof -
  obtain w1 leftover1 r1 where f: "fetch N d u endpoint w leftover name = Some (w1, leftover1, r1)"
      "length leftover1 = READ_CHUNK"
      "\<And>c h extra. r1 = Inr (c, h, extra) \<Longrightarrow> served N d u name c h (take extra leftover1) w1"
    using fetch_result [OF assms(1)] by metis
  show ?thesis
  proof (cases r1)
    case (Inl e)
    with f show ?thesis by (simp add: fetch_text_def)
  next
    case (Inr che)
    obtain c h extra where che: "che = (c, h, extra)" by (cases che)
    show ?thesis
    proof (cases "rh_status h = 200 \<and> (\<exists>len. rh_length h = Some len \<and> \<not> of_nat max_bytes < len)")
      case False
      with f Inr che show ?thesis by (auto simp: fetch_text_def split: option.split)
    next
      case True
      then obtain len where len: "rh_status h = 200" "rh_length h = Some len" "\<not> of_nat max_bytes < len" by blast
      obtain w2 body r2 where rd: "read_small (link N c) w1 (take extra leftover1) len (replicate max_bytes 0) =
          (w2, body, r2)" by (metis surj_pair)
      show ?thesis
      proof (cases r2)
        case (Inl e)
        with f Inr che len rd show ?thesis by (simp add: fetch_text_def)
      next
        case n: (Inr n)
        have R: "n \<le> unat len" "\<exists>x w3. received (link N c) w1 x w3 \<and>
            take n body = take (unat len) (take extra leftover1) @ x"
          using read_small_result [OF rd [unfolded n]] assms(2) by auto
        then obtain x w3 where x: "received (link N c) w1 x w3"
            "take n body = take (unat len) (take extra leftover1) @ x" by blast
        have "length (take n body) \<le> unat len" using R(1) by simp
        moreover have "length x = 0 \<or> take (unat len) (take extra leftover1) = take extra leftover1"
          using arg_cong [OF x(2), of length] R(1)
          by (cases "length (take extra leftover1) \<le> unat len") (auto simp: min_def split: if_splits simp del: length_0_conv)
        then have "\<exists>more. take extra leftover1 @ x = take n body @ more"
          unfolding x(2) length_0_conv by (metis append.assoc append.right_neutral append_take_drop_id)
        moreover have "served N d u name c h (take extra leftover1 @ x) w3"
          using served_more [OF f(3) x(1)] Inr che by simp
        ultimately have "reply N d u name (take n body)"
          using len unfolding reply_def by metis
        with f Inr che len rd n show ?thesis
          by (cases "parse (take n body)") (auto simp: fetch_text_def)
      qed
    qed
  qed
qed

lemma resource_name_fits:
  assumes "length suffix \<le> 32" and "all_ascii suffix"
  shows "\<exists>t. resource_name remote suffix = Inr t \<and> as_str t = decimal (unat remote) @ suffix"
proof -
  let ?name = "decimal (unat remote) @ suffix"
  have "unat remote < 10 ^ 10"
    by (rule less_trans [OF unsigned_less [of remote, where ?'a = nat]]) simp
  then have len: "length (decimal (unat remote)) \<le> 10" by (rule length_decimal_le) simp
  have pieces: "concat [decimal (unat remote), suffix] = ?name" by simp
  have ascii: "all_ascii ?name"
    using assms(2) decimal_digits [of "unat remote"]
    by (auto simp: all_ascii_def is_ascii_digit_def word_nat)
  have ok: "text_ok (text_new NAME_MAX_BYTES)" by simp
  show ?thesis
  proof (rule write_fmt_cases [OF ok, of O_Request "[decimal (unat remote), suffix]"])
    fix t'
    assume "map_error O_Request (write_fmt (text_new NAME_MAX_BYTES) [decimal (unat remote), suffix]) = Inr t'"
      and "as_bytes t' = as_bytes (text_new NAME_MAX_BYTES) @ concat [decimal (unat remote), suffix]"
    then show ?thesis
      using ascii unfolding pieces by (simp add: resource_name_def as_str_def)
  next
    assume "length (text_room (text_new NAME_MAX_BYTES)) < length (concat [decimal (unat remote), suffix])"
    then show ?thesis
      unfolding text_new_facts(3) pieces using len assms(1) by (simp add: NAME_MAX_BYTES_def)
  qed
qed

lemma http_slices: "slice_preserving (http_body_reader T)"
  by (rule http.slices)

lemma writes_unmarked: "Marked r \<notin> set (writes k cs)"
  by (induction cs arbitrary: k) simp_all

lemma session_unmarked:
  "session_log H len expected log res \<Longrightarrow> res \<noteq> Inr () \<Longrightarrow> Marked (Inr ()) \<notin> set log"
  unfolding session_log_def by (auto simp: writes_unmarked)

text \<open>The last request, when the flash has not been touched yet.\<close>

lemma fetch_image_result:
  assumes "length leftover = READ_CHUNK"
  shows "\<exists>w' f' log fin.
    fetch_image N (logged F) H d u endpoint w (f, []) leftover remote expected = Some (w', (f', log), fin) \<and>
    (if fin = System_Reset then image_committed N H d u remote expected log
     else Marked (Inr ()) \<notin> set log)"
proof -
  let ?name = "decimal (unat remote) @ ascii ''.bin''"
  obtain t where t: "resource_name remote (ascii ''.bin'') = Inr t" "as_str t = ?name"
    using resource_name_fits [of "ascii ''.bin''" remote] by (auto simp: ascii_def)
  obtain w1 leftover1 r1 where f: "fetch N d u endpoint w leftover ?name = Some (w1, leftover1, r1)"
      "\<And>c h extra. r1 = Inr (c, h, extra) \<Longrightarrow> served N d u ?name c h (take extra leftover1) w1"
    using fetch_result [OF assms] by metis
  show ?thesis
  proof (cases r1)
    case (Inl e)
    with t f show ?thesis by (simp add: fetch_image_def)
  next
    case r1: (Inr che)
    obtain c h extra where che: "che = (c, h, extra)" by (cases che)
    note served = f(2) [of c h extra, unfolded r1 che, OF refl]
    show ?thesis
    proof (cases "rh_status h = 200 \<and> rh_length h \<noteq> None")
      case False
      with t f r1 che show ?thesis by (auto simp: fetch_image_def split: option.split)
    next
      case True
      then obtain len where len: "rh_status h = 200" "rh_length h = Some len" by blast
      let ?b = "\<lparr>hb_link = w1, hb_leftover = take extra leftover1\<rparr>"
      obtain f1 log b1 res where up: "apply_update (logged F) (http_body_reader (link N c)) H len expected
          (f, []) ?b = ((f1, log), b1, res)" by (metis surj_pair)
      note L = apply_update_log [OF up http_slices]
      show ?thesis
      proof (cases res)
        case (Inl e)
        then have "Marked (Inr ()) \<notin> set log"
          using L session_unmarked by (fastforce split: if_splits)
        with t f r1 che len up Inl show ?thesis by (simp add: fetch_image_def)
      next
        case (Inr z)
        then have ok: "res = Inr ()" by simp
        obtain cs where cs: "log = writes 0 cs @ [Marked (Inr ())]"
            "body_delivers (link N c) ?b (concat cs) b1" "length (concat cs) = unat len"
            "hash_finalize H (foldl (hash_update H) (hash_new H) cs) = expected"
          using http.session_image [OF up [unfolded ok]] by auto
        from cs(2) obtain x where x: "received (link N c) w1 x (hb_link b1)"
            "take extra leftover1 @ x = concat cs @ hb_leftover b1"
          by (auto simp: body_delivers_def)
        have "served N d u ?name c h (concat cs @ hb_leftover b1) (hb_link b1)"
          using served_more [OF served x(1)] unfolding x(2) .
        moreover have "\<not> ucast ACTIVE_BYTES < len" using L ok by auto
        then have "length (concat cs) \<le> unat ACTIVE_BYTES"
          unfolding cs(3) by (simp add: ACTIVE_BYTES_def word_nat)
        moreover have "rh_length h = Some (of_nat (length (concat cs)))" unfolding cs(3) using len by simp
        ultimately have "image_committed N H d u remote expected log"
          unfolding image_committed_def using len(1) cs(1,4) by blast
        moreover have "fetch_image N (logged F) H d u endpoint w (f, []) leftover remote expected =
            Some (hb_link b1, (f1, log), System_Reset)"
          using t f(1) r1 che len up ok by (simp add: fetch_image_def)
        ultimately show ?thesis
          by (intro exI [of _ "hb_link b1"] exI [of _ f1] exI [of _ log] exI [of _ System_Reset]) simp
      qed
    qed
  qed
qed

subsection \<open>The whole check\<close>

lemma version_room: "VERSION_MAX_BYTES < 2 ^ 64"
  by (simp add: VERSION_MAX_BYTES_def)

lemma sha_room: "SHA_MAX_BYTES < 2 ^ 64"
  by (simp add: SHA_MAX_BYTES_def)

lemma check_result:
  assumes up: "net_config_up N w = Some w0"
  shows "\<exists>w' f' log fin. check_and_update N (logged F) H d w (f, []) = Some (w', (f', log), fin) \<and>
    (if fin = System_Reset then verified_update N H d log else Marked (Inr ()) \<notin> set log)"
proof -
  let ?check = "check_and_update N (logged F) H d w (f, [])"
  have idle: ?thesis if "?check = Some (w', (f, []), fin)" "fin \<noteq> System_Reset" for w' fin
    using that by simp
  show ?thesis
  proof (cases "parse_url (ota_url d) (ota_project d)")
    case (Inl e)
    then show ?thesis by (intro idle [of w0 "Check_Err O_Url"]) (simp_all add: check_and_update_def up)
  next
    case u: (Inr u)
    obtain w1 r1 where rs: "resolve N w0 u = (w1, r1)" by (metis surj_pair)
    show ?thesis
    proof (cases r1)
      case (Inl e)
      with u rs show ?thesis by (intro idle [of w1 "Check_Err e"]) (simp_all add: check_and_update_def up)
    next
      case ep: (Inr endpoint)
      obtain w2 leftover2 r2 where v: "fetch_text N d u endpoint w1 (replicate READ_CHUNK 0) (ascii ''version'')
            VERSION_MAX_BYTES parse_version O_Version = Some (w2, leftover2, r2)"
          "length leftover2 = READ_CHUNK"
          "\<And>x. r2 = Inr (Some x) \<Longrightarrow> \<exists>body. reply N d u (ascii ''version'') body \<and> parse_version body = Some x"
        using fetch_text_result [OF length_replicate version_room, of N d u endpoint w1 0
            "ascii ''version''" parse_version O_Version] by blast
      note U = check_and_update_def up u rs ep v(1)
      consider (err) e where "r2 = Inl e" | (missing) "r2 = Inr None" | (version) remote where "r2 = Inr (Some remote)"
        by (metis option.exhaust sum.exhaust)
      then show ?thesis
      proof cases
        case err
        then show ?thesis by (intro idle [of w2 "Check_Err e"]) (simp_all add: U)
      next
        case missing
        then show ?thesis by (intro idle [of w2 Check_Ok]) (simp_all add: U)
      next
        case r2: version
        show ?thesis
        proof (cases "decide (running_version d) remote")
          case D_Skip
          with r2 show ?thesis by (intro idle [of w2 Check_Ok]) (simp_all add: U)
        next
          case D_Update
          then have new: "remote \<noteq> running_version d" by (simp add: decide_def split: if_splits)
          let ?sha = "decimal (unat remote) @ ascii ''.bin.sha256''"
          obtain t where t: "resource_name remote (ascii ''.bin.sha256'') = Inr t" "as_str t = ?sha"
            using resource_name_fits [of "ascii ''.bin.sha256''" remote] by (auto simp: ascii_def)
          obtain w3 leftover3 r3 where h: "fetch_text N d u endpoint w2 leftover2 ?sha
                SHA_MAX_BYTES parse_sha256_hex O_Sha = Some (w3, leftover3, r3)"
              "length leftover3 = READ_CHUNK"
              "\<And>x. r3 = Inr (Some x) \<Longrightarrow> \<exists>body. reply N d u ?sha body \<and> parse_sha256_hex body = Some x"
            using fetch_text_result [OF v(2) sha_room, of N d u endpoint w2 ?sha parse_sha256_hex O_Sha]
            by blast
          note U = U r2 D_Update t h(1)
          consider (err) e where "r3 = Inl e" | (missing) "r3 = Inr None" | (digest) expected where "r3 = Inr (Some expected)"
            by (metis option.exhaust sum.exhaust)
          then show ?thesis
          proof cases
            case err
            then show ?thesis by (intro idle [of w3 "Check_Err e"]) (simp_all add: U)
          next
            case missing
            then show ?thesis by (intro idle [of w3 Check_Ok]) (simp_all add: U)
          next
            case r3: digest
            obtain vb where vb: "reply N d u (ascii ''version'') vb" "parse_version vb = Some remote"
              using v(3) [OF r2] by blast
            obtain sb where sb: "reply N d u ?sha sb" "parse_sha256_hex sb = Some expected"
              using h(3) [OF r3] by blast
            have step: "?check = fetch_image N (logged F) H d u endpoint w3 (f, []) leftover3 remote expected"
              using r3 by (simp add: U)
            obtain w' f' log fin where image: "?check = Some (w', (f', log), fin)"
              "if fin = System_Reset then image_committed N H d u remote expected log
               else Marked (Inr ()) \<notin> set log"
              using fetch_image_result [OF h(2), of N F H d u endpoint w3 f remote expected]
              unfolding step by blast
            show ?thesis
            proof (cases "fin = System_Reset")
              case False
              with image show ?thesis by simp
            next
              case True
              with image(2) have "image_committed N H d u remote expected log" by simp
              with u new vb sb have "verified_update N H d log" unfolding verified_update_def by blast
              with image(1) True show ?thesis by auto
            qed
          qed
        qed
      qed
    qed
  qed
qed

subsection \<open>The task ends its checks\<close>

lemma fetch_text_total:
  assumes "length leftover = READ_CHUNK"
  shows "fetch_text N d u endpoint w leftover name VERSION_MAX_BYTES parse invalid \<noteq> None"
    and "fetch_text N d u endpoint w leftover name SHA_MAX_BYTES parse invalid \<noteq> None"
    and "fetch N d u endpoint w leftover name \<noteq> None"
  using fetch_text_result [OF assms version_room, of N d u endpoint w name parse invalid]
    fetch_text_result [OF assms sha_room, of N d u endpoint w name parse invalid]
    fetch_result [OF assms, of N d u endpoint w name] by auto

lemma fetch_text_leftover:
  assumes "fetch_text N d u endpoint w leftover name max_bytes parse invalid = Some (w', leftover', r)"
    and "length leftover = READ_CHUNK" and "max_bytes < 2 ^ 64"
  shows "length leftover' = READ_CHUNK"
  using fetch_text_result [OF assms(2,3), of N d u endpoint w name parse invalid] assms(1) by auto

lemma not_None: "x \<noteq> None \<Longrightarrow> x = None \<longleftrightarrow> False"
  by simp

lemmas fetch_ends = fetch_text_total [THEN not_None]

lemma fetch_image_total:
  assumes "length leftover = READ_CHUNK"
  shows "fetch_image N F H d u endpoint w f leftover remote expected \<noteq> None"
  by (auto simp: fetch_image_def fetch_ends [OF assms] split: sum.splits option.splits prod.splits)

lemmas image_ends = fetch_image_total [THEN not_None]

text \<open>A check ends unless the network is never configured.\<close>

lemma check_total: "check_and_update N F H d w f = None \<longleftrightarrow> net_config_up N w = None"
proof
  assume "check_and_update N F H d w f = None"
  then show "net_config_up N w = None"
    unfolding check_and_update_def
    by (auto simp: fetch_ends image_ends
        dest!: fetch_text_leftover [OF _ length_replicate version_room] fetch_text_leftover [OF _ _ sha_room]
        split: sum.splits option.splits prod.splits decision.splits)
qed (simp add: check_and_update_def)

lemma blink_code_range: "10 \<le> blink_code e \<and> blink_code e \<le> 22"
  by (cases e; auto simp: blink_code_def split: fetch_error.splits)

lemma run_check_result:
  assumes "net_config_up N w \<noteq> None"
  shows "\<exists>w' f' reset codes. run_check N F H d w f = Some (w', f', reset, codes) \<and>
     length codes \<le> 1 \<and> list_all (\<lambda>k. 10 \<le> k \<and> k \<le> 22) codes"
proof -
  obtain w' f' fin where "check_and_update N F H d w f = Some (w', f', fin)"
    using check_total [of N F H d w f] assms by (cases "check_and_update N F H d w f") auto
  then show ?thesis
    using blink_code_range
    by (cases fin) (auto simp: run_check_def intro: exI [of Not False] exI [of "\<lambda>x. x" True])
qed

lemma task_loop_result:
  assumes "\<And>w. net_config_up N w \<noteq> None"
  shows "\<exists>w' f' reset codes. task_loop N F H d n w f = Some (w', f', reset, codes) \<and>
     length codes \<le> n \<and> list_all (\<lambda>k. 10 \<le> k \<and> k \<le> 22) codes"
proof (induction n arbitrary: w f)
  case 0
  show ?case by (auto intro: exI [of Not False])
next
  case (Suc n)
  obtain w1 f1 reset codes where r: "run_check N F H d w f = Some (w1, f1, reset, codes)"
      "length codes \<le> 1" "list_all (\<lambda>k. 10 \<le> k \<and> k \<le> 22) codes"
    using run_check_result [OF assms, of F H d w f] by blast
  obtain w2 f2 reset2 codes2 where "task_loop N F H d n w1 f1 = Some (w2, f2, reset2, codes2)"
      "length codes2 \<le> n" "list_all (\<lambda>k. 10 \<le> k \<and> k \<le> 22) codes2"
    using Suc.IH [of w1 f1] by blast
  with r show ?case by (cases reset) (auto intro: exI [of Not False] exI [of "\<lambda>x. x" True])
qed

subsection \<open>Properties\<close>

text \<open>
  C7: an update check ends, whatever the flash, the server and the rest of the network do, unless the stack
  never gets an address (the wait for which is the only one without a deadline), and it
  resets the device only after a verified update: the server's version answer parsed to a version
  other than the running one, its digest answer for that version parsed, and the chunks written
  to the flash are exactly the declared number of bytes that followed the head of the answer to
  that version's image request, have that digest, fit the active partition, and were marked once,
  last. A check that does not reset has not marked anything.
\<close>

theorem check_commits_only_verified:
  "case check_and_update N (logged F) H d w (f, []) of
     None \<Rightarrow> net_config_up N w = None
   | Some (w', (f', log), fin) \<Rightarrow>
       (if fin = System_Reset then verified_update N H d log else Marked (Inr ()) \<notin> set log)"
proof (cases "net_config_up N w")
  case None
  then show ?thesis by (simp add: check_and_update_def)
next
  case (Some w0)
  from check_result [OF this, of F H d f] show ?thesis by auto
qed

text \<open>
  On a network that gets configured the OTA task handles any number of reset requests without getting stuck in one, with the
  boot check or (after a revert) without it. Each check signals at most one blink code, and all
  of them lie in 10 to 22, apart from the Wi-Fi codes 1 to 3.
\<close>

lemma ota_task_ends:
  assumes "\<And>w. net_config_up N w \<noteq> None"
  shows "\<exists>w' f' reset codes. ota_task N F H d boot_check_allowed requests w f = Some (w', f', reset, codes) \<and>
     length codes \<le> (if boot_check_allowed then Suc requests else requests) \<and>
     list_all (\<lambda>k. 10 \<le> k \<and> k \<le> 22) codes"
  unfolding ota_task_def by (rule task_loop_result [OF assms])

text \<open>
  The blink code of a failed session names its cause: the six ways an update session fails
  have six different codes, 16 to 21, which no other error has (the errors of the transport
  and of the texts never carry the code of a session).
\<close>

lemma session_blink_codes:
  "blink_code (O_Update (update_code e)) =
     (case e of HashMismatch \<Rightarrow> 16 | TooShort \<Rightarrow> 17 | TooLong \<Rightarrow> 18 | Flash _ \<Rightarrow> 19 | Read _ \<Rightarrow> 20
      | Oversize _ _ \<Rightarrow> 21) \<and>
   (if \<exists>code. x = O_Update code then True else blink_code x < 16 \<or> blink_code x = 22)"
  by (cases e; cases x; simp add: update_code_def blink_code_def ascii_def split: fetch_error.split)

end
