(* ===== verification/Telemetry.thy ===== *)
theory Telemetry
  imports Json_Grammar Ota_Parse Wifi_Policy Door
begin

text \<open>
  The telemetry task of \<open>app/src/telemetry.rs\<close>. The MQTT client and the sockets are outside the
  repository: a turn of the outer loop is given how the connection attempt ended, what the door
  signal held, and the events of the session with the outcome of the publish each may make. The
  answer is what the task did: commands to the actuator, update checks, publications, rejoin
  requests and backoff waits (in milliseconds).
\<close>

definition UUID_MAX :: nat where "UUID_MAX = 64"
definition PAYLOAD_MAX :: nat where "PAYLOAD_MAX = 160"
definition DEFAULT_BROKER_PORT :: u16 where "DEFAULT_BROKER_PORT = 1883"
definition INITIAL_BACKOFF :: u64 where "INITIAL_BACKOFF = 1000"
definition MAX_BACKOFF :: u64 where "MAX_BACKOFF = 30000"

datatype action =
    Act_Trigger | Act_Reset | Act_Status bytes nat | Act_State_Change door_state | Act_Disconnected
  | Act_Unknown

definition is_open :: "door_state \<Rightarrow> bool" where
  "is_open s \<longleftrightarrow> s = Open"

definition parse_broker :: "bytes \<Rightarrow> bytes \<times> u16" where
  "parse_broker broker =
     (let rest = (if starts_with broker (ascii ''mqtt://'') then drop 7 broker else broker) in
      case rsplit_once 0x3A rest of
        Some (h, p) \<Rightarrow> (h, case parse_u16 p of Some n \<Rightarrow> n | None \<Rightarrow> DEFAULT_BROKER_PORT)
      | None \<Rightarrow> (rest, DEFAULT_BROKER_PORT))"

definition classify :: "bytes \<Rightarrow> bytes \<Rightarrow> action" where
  "classify topic payload =
     (if topic = TOPIC_TRIGGER then Act_Trigger
      else if topic = TOPIC_RESET then Act_Reset
      else if topic = TOPIC_STATUS then
        (case parse_status_request payload of
           Some (Inr uuid) \<Rightarrow>
             if UUID_MAX < length uuid then Act_Unknown
             else Act_Status (copy_at (replicate UUID_MAX 0) 0 uuid) (length uuid)
         | _ \<Rightarrow> Act_Unknown)
      else Act_Unknown)"

subsection \<open>The session\<close>

text \<open>A publication carries its outcome: with \<open>False\<close> the client has failed to send it.\<close>

datatype telemetry_action =
    Send_Command door_command | Signal_Update_Check | Publish bytes bytes bool | Request_Rejoin | Wait_Backoff u64

text \<open>What \<open>select\<close> returns: a message (retained or not, with its topic and payload), a failed
  receive, or a change of the door state.\<close>

datatype mqtt_event = Received bool bytes bytes | Receive_Failed | State_Changed door_state

text \<open>A state whose publication fails is only logged: there is nothing for the caller to see.\<close>

definition publish_state :: "door_state \<Rightarrow> bool \<Rightarrow> telemetry_action list" where
  "publish_state s published =
     (case snd (format_onchange (replicate PAYLOAD_MAX 0) (is_open s)) of
        Inr payload \<Rightarrow> [Publish TOPIC_ONCHANGE payload published]
      | Inl _ \<Rightarrow> [])"

definition event_action :: "mqtt_event \<Rightarrow> action" where
  "event_action e =
     (case e of
        Received retained topic payload \<Rightarrow> if retained then Act_Unknown else classify topic payload
      | Receive_Failed \<Rightarrow> Act_Disconnected
      | State_Changed s \<Rightarrow> Act_State_Change s)"

text \<open>One turn of the inner loop: the cached door state, what was done, and whether the loop
  goes on. \<open>published\<close> is the outcome of the publication that the turn makes, if it makes one.\<close>

definition session_turn :: "u32 \<Rightarrow> door_state option \<Rightarrow> mqtt_event \<Rightarrow> bool \<Rightarrow>
    door_state option \<times> telemetry_action list \<times> bool" where
  "session_turn version current e published =
     (case event_action e of
        Act_Disconnected \<Rightarrow> (current, [], False)
      | Act_Trigger \<Rightarrow> (current, [Send_Command Trigger], True)
      | Act_Reset \<Rightarrow> (current, [Signal_Update_Check], True)
      | Act_State_Change s \<Rightarrow> (Some s, publish_state s published, True)
      | Act_Status uuid uuid_len \<Rightarrow>
          (let op = (case current of Some s \<Rightarrow> is_open s | None \<Rightarrow> False) in
           if \<not> utf8_valid (take uuid_len uuid) then (current, [], True)
           else case snd (format_status_response (replicate PAYLOAD_MAX 0) (take uuid_len uuid) op version) of
             Inr payload \<Rightarrow> (current, [Publish TOPIC_STATUS_RESPONSE payload published], published)
           | Inl _ \<Rightarrow> (current, [], True))
      | Act_Unknown \<Rightarrow> (current, [], True))"

fun session_loop :: "u32 \<Rightarrow> door_state option \<Rightarrow> (mqtt_event \<times> bool) list \<Rightarrow>
    door_state option \<times> telemetry_action list \<times> bool" where
  "session_loop version current [] = (current, [], True)"
| "session_loop version current ((e, published) # es) =
     (case session_turn version current e published of
        (current1, acts, False) \<Rightarrow> (current1, acts, False)
      | (current1, acts, True) \<Rightarrow>
          (case session_loop version current1 es of
             (current2, acts2, connected) \<Rightarrow> (current2, acts @ acts2, connected)))"

subsection \<open>The outer loop\<close>

datatype connect_end =
    No_Addresses | Lookup_Failed | Tcp_Failed | Session_Failed | Subscribe_Failed | Session_Ready

text \<open>A connection attempt: the calls of the network and of the client in their order. A session that
  the broker has kept (\<open>mq_session\<close> is \<open>Some False\<close>) has its subscriptions already.\<close>

record 'a mqtt_net =
  mq_dns :: "bytes \<Rightarrow> 'a list option"
  mq_tcp :: "'a \<Rightarrow> u16 \<Rightarrow> bool"
  mq_session :: "bool option"
  mq_subscribe :: "bytes list \<Rightarrow> bool"

definition connect_attempt :: "'a mqtt_net \<Rightarrow> bytes \<Rightarrow> connect_end" where
  "connect_attempt N broker =
     (case parse_broker broker of (h, p) \<Rightarrow>
        (case mq_dns N h of
           None \<Rightarrow> Lookup_Failed
         | Some [] \<Rightarrow> No_Addresses
         | Some (addr # _) \<Rightarrow>
             if \<not> mq_tcp N addr p then Tcp_Failed
             else case mq_session N of
               None \<Rightarrow> Session_Failed
             | Some fresh \<Rightarrow>
                 if fresh \<and> \<not> mq_subscribe N [TOPIC_TRIGGER, TOPIC_STATUS, TOPIC_RESET] then Subscribe_Failed
                 else Session_Ready))"

text \<open>A new session is ready only with subscriptions to the three command topics.\<close>

lemma ready_session_subscribed:
  "connect_attempt N broker = Session_Ready \<Longrightarrow> mq_session N = Some True \<Longrightarrow>
     mq_subscribe N [TOPIC_TRIGGER, TOPIC_STATUS, TOPIC_RESET]"
  by (auto simp: connect_attempt_def split: prod.splits option.splits list.splits if_splits)

record telemetry =
  tm_backoff :: u64
  tm_rejoin :: rejoin_counter
  tm_current :: "door_state option"

definition telemetry_new :: telemetry where
  "telemetry_new = \<lparr>tm_backoff = INITIAL_BACKOFF, tm_rejoin = rejoin_new, tm_current = None\<rparr>"

text \<open>The start of the task: with a client identifier that the MQTT client does not accept it does
  nothing but sleep, for good (\<open>None\<close>). Whether the identifier is accepted in buffers of these sizes is up
  to the client.\<close>

definition CLIENT_ID :: bytes where "CLIENT_ID = ascii ''garagedoorcontroller''"
definition KEEPALIVE_SECS :: u16 where "KEEPALIVE_SECS = 60"
definition MQTT_RX_LEN :: nat where "MQTT_RX_LEN = 256"
definition MQTT_TX_LEN :: nat where "MQTT_TX_LEN = 256"

definition telemetry_start :: "(nat \<Rightarrow> nat \<Rightarrow> u16 \<Rightarrow> bytes \<Rightarrow> bool) \<Rightarrow> telemetry option" where
  "telemetry_start accepts =
     (if accepts MQTT_RX_LEN MQTT_TX_LEN KEEPALIVE_SECS CLIENT_ID then Some telemetry_new else None)"

text \<open>The identifier keeps to what every MQTT 3.1 broker has to accept: 1 to 23 ASCII letters and digits.\<close>

lemma client_id_portable:
  "0 < length CLIENT_ID \<and> length CLIENT_ID \<le> 23 \<and> list_all (\<lambda>c. 0x61 \<le> c \<and> c \<le> 0x7A) CLIENT_ID"
  by (simp add: CLIENT_ID_def ascii_def)

definition backoff_wait :: "u64 \<Rightarrow> u64" where
  "backoff_wait b = min (b * 2) MAX_BACKOFF"

definition fail_backoff :: "telemetry \<Rightarrow> telemetry \<times> telemetry_action list" where
  "fail_backoff s =
     (let (c, trip) = failure (tm_rejoin s)
      in (s\<lparr>tm_rejoin := c, tm_backoff := backoff_wait (tm_backoff s)\<rparr>,
          (if trip then [Request_Rejoin] else []) @ [Wait_Backoff (tm_backoff s)]))"

record telemetry_input =
  attempt :: connect_end
  snapshot :: "door_state option"
  announced :: bool
  session :: "(mqtt_event \<times> bool) list"

text \<open>The start of a session: the cached state is refreshed from the door signal and published;
  \<open>published\<close> (\<open>announced\<close> in a turn) is the outcome.\<close>

definition session_open :: "door_state option \<Rightarrow> door_state option \<Rightarrow> bool \<Rightarrow>
    door_state option \<times> telemetry_action list" where
  "session_open taken cached published =
     (let current = (case taken of Some d \<Rightarrow> Some d | None \<Rightarrow> cached)
      in (current, case current of Some d \<Rightarrow> publish_state d published | None \<Rightarrow> []))"

text \<open>One turn; a session that has not ended after its events is still open, and its turn too.\<close>

definition telemetry_turn :: "u32 \<Rightarrow> telemetry \<Rightarrow> telemetry_input \<Rightarrow> telemetry \<times> telemetry_action list" where
  "telemetry_turn version s t =
     (case attempt t of
        Session_Ready \<Rightarrow>
          (let s1 = s\<lparr>tm_backoff := INITIAL_BACKOFF, tm_rejoin := success (tm_rejoin s)\<rparr>;
               (current, acts) = session_open (snapshot t) (tm_current s) (announced t);
               (current1, acts1, still_open) = session_loop version current (session t);
               s2 = s1\<lparr>tm_current := current1\<rparr>
           in if still_open then (s2, acts @ acts1)
              else let (s3, acts2) = fail_backoff s2 in (s3, acts @ acts1 @ acts2))
      | Subscribe_Failed \<Rightarrow>
          fail_backoff (s\<lparr>tm_backoff := INITIAL_BACKOFF, tm_rejoin := success (tm_rejoin s)\<rparr>)
      | _ \<Rightarrow> fail_backoff s)"

interpretation mqtt_backoff: backoff_policy backoff_wait 1000 30000
proof unfold_locales
  show "unat (backoff_wait b) = min (2 * unat b) 30000" if "unat b \<le> 30000" for b
  proof -
    have "unat (b * 2) = unat b * 2" using that by (subst unat_mult_lem [THEN iffD1]) simp_all
    then show ?thesis by (simp add: backoff_wait_def MAX_BACKOFF_def min_def word_nat mult.commute)
  qed
qed simp

subsection \<open>What a session does\<close>

definition onchange_text :: "door_state \<Rightarrow> bytes" where
  "onchange_text s = (if s = Open then ascii ''{\"open\":true}'' else ascii ''{\"open\":false}'')"

text \<open>The answer to an event when the last known door state is \<open>current\<close>, and the outcome of its publication.\<close>

definition answer :: "u32 \<Rightarrow> door_state option \<Rightarrow> mqtt_event \<Rightarrow> bool \<Rightarrow> telemetry_action list" where
  "answer version current e published =
     (case e of
        State_Changed s \<Rightarrow> [Publish TOPIC_ONCHANGE (onchange_text s) published]
      | Receive_Failed \<Rightarrow> []
      | Received retained topic payload \<Rightarrow>
          if retained then []
          else if topic = TOPIC_TRIGGER then [Send_Command Trigger]
          else if topic = TOPIC_RESET then [Signal_Update_Check]
          else if topic = TOPIC_STATUS then
            (case parse_status_request payload of
               Some (Inr uuid) \<Rightarrow>
                 if length uuid \<le> UUID_MAX
                 then [Publish TOPIC_STATUS_RESPONSE (status_response uuid (current = Some Open) version) published]
                 else []
             | _ \<Rightarrow> [])
          else [])"

definition is_response :: "telemetry_action \<Rightarrow> bool" where
  "is_response a = (case a of Publish topic _ _ \<Rightarrow> topic = TOPIC_STATUS_RESPONSE | _ \<Rightarrow> False)"

fun session_spec :: "u32 \<Rightarrow> door_state option \<Rightarrow> (mqtt_event \<times> bool) list \<Rightarrow> telemetry_action list" where
  "session_spec version current [] = []"
| "session_spec version current ((e, published) # es) =
     answer version current e published @
     (if e = Receive_Failed \<or> \<not> published \<and> list_ex is_response (answer version current e published) then []
      else session_spec version (case e of State_Changed s \<Rightarrow> Some s | _ \<Rightarrow> current) es)"

lemma publish_state_text: "publish_state s published = [Publish TOPIC_ONCHANGE (onchange_text s) published]"
  by (simp add: publish_state_def format_onchange_spec is_open_def onchange_text_def PAYLOAD_MAX_def Let_def)

text \<open>An accepted id is never cut off: 64 bytes of it and the rest of a response fit 160.\<close>

lemma response_fits:
  assumes "string_ok uuid" and "length uuid \<le> UUID_MAX"
  shows "snd (format_status_response (replicate PAYLOAD_MAX 0) uuid op version) =
    Inr (status_response uuid op version)"
proof -
  have "length (status_response uuid op version) \<le> 160"
    using length_status_response [of uuid op version] assms(2) by (simp add: UUID_MAX_def)
  then show ?thesis
    using assms(1) format_status_fits [of uuid op version "replicate PAYLOAD_MAX 0"]
    by (simp add: string_ok_def PAYLOAD_MAX_def)
qed

lemma session_turn_answer:
  "session_turn version current e published =
     ((case e of State_Changed s \<Rightarrow> Some s | _ \<Rightarrow> current), answer version current e published,
      \<not> (e = Receive_Failed \<or> \<not> published \<and> list_ex is_response (answer version current e published)))"
proof (cases e)
  case (State_Changed s)
  then show ?thesis
    by (simp add: session_turn_def event_action_def answer_def publish_state_text is_response_def
        TOPIC_ONCHANGE_def TOPIC_STATUS_RESPONSE_def ascii_def)
next
  case Receive_Failed
  then show ?thesis by (simp add: session_turn_def event_action_def answer_def)
next
  case (Received retained topic payload)
  show ?thesis
  proof (cases "\<not> retained \<and> topic \<noteq> TOPIC_TRIGGER \<and> topic \<noteq> TOPIC_RESET \<and> topic = TOPIC_STATUS")
    case False
    with Received show ?thesis
      by (auto simp: session_turn_def event_action_def answer_def classify_def is_response_def)
  next
    case status: True
    show ?thesis
    proof (cases "\<exists>uuid. parse_status_request payload = Some (Inr uuid) \<and> length uuid \<le> UUID_MAX")
      case False
      with Received status show ?thesis
        by (auto simp: session_turn_def event_action_def answer_def classify_def
            split: option.splits sum.splits)
    next
      case True
      then obtain uuid where u: "parse_status_request payload = Some (Inr uuid)" "length uuid \<le> UUID_MAX"
        by blast
      then have ok: "string_ok uuid" "utf8_valid uuid" using accepted_ok by (auto simp: string_ok_def)
      have op: "(case current of Some s \<Rightarrow> is_open s | None \<Rightarrow> False) = (current = Some Open)"
        by (cases current) (simp_all add: is_open_def)
      have names: "TOPIC_STATUS \<noteq> TOPIC_TRIGGER" "TOPIC_STATUS \<noteq> TOPIC_RESET" using status by auto
      have "event_action e = Act_Status (copy_at (replicate UUID_MAX 0) 0 uuid) (length uuid)"
        using Received status u names by (simp add: event_action_def classify_def)
      then have "session_turn version current e published =
          (current, [Publish TOPIC_STATUS_RESPONSE (status_response uuid (current = Some Open) version) published], published)"
        using ok response_fits [OF ok(1) u(2)] by (simp add: session_turn_def copy_at_0 op)
      then show ?thesis using Received status u names by (simp add: answer_def is_response_def)
    qed
  qed
qed

lemma session_loop_spec: "fst (snd (session_loop version current es)) = session_spec version current es"
proof (induction es arbitrary: current)
  case Nil
  show ?case by simp
next
  case (Cons ep es)
  obtain e published where ep: "ep = (e, published)" by (cases ep)
  show ?case
    unfolding ep using Cons.IH
    by (auto simp: session_turn_answer split: prod.splits bool.splits) (metis fst_conv snd_conv)+
qed

subsection \<open>Recovery\<close>

text \<open>Whether an event ends a session, whatever the door state is.\<close>

definition breaks :: "mqtt_event \<times> bool \<Rightarrow> bool" where
  "breaks ep \<longleftrightarrow>
     (case ep of (e, published) \<Rightarrow>
        e = Receive_Failed \<or> \<not> published \<and> list_ex is_response (answer 0 None e published))"

definition connected :: "telemetry_input \<Rightarrow> bool" where
  "connected t \<longleftrightarrow> attempt t = Session_Ready \<or> attempt t = Subscribe_Failed"

definition link_open :: "telemetry_input \<Rightarrow> bool" where
  "link_open t \<longleftrightarrow> attempt t = Session_Ready \<and> \<not> list_ex breaks (session t)"

text \<open>The number of failures since the last connection; the end of a connection is one.\<close>

definition fail_run :: "telemetry_input list \<Rightarrow> nat" where
  "fail_run ts =
     foldl (\<lambda>n t. (if connected t then 0 else n) + (if link_open t then 0 else 1)) 0 ts"

definition is_recovery :: "telemetry_action \<Rightarrow> bool" where
  "is_recovery a = (case a of Request_Rejoin \<Rightarrow> True | Wait_Backoff _ \<Rightarrow> True | _ \<Rightarrow> False)"

lemma fail_run_simps [simp]:
  "fail_run [] = 0"
  "fail_run (ts @ [t]) = (if connected t then 0 else fail_run ts) + (if link_open t then 0 else 1)"
  by (simp_all add: fail_run_def)

lemma answer_response: "list_ex is_response (answer v c e b) = list_ex is_response (answer 0 None e b)"
  by (cases e) (simp_all add: answer_def is_response_def split: option.split sum.split)

lemma recovery_simps [simp]:
  "\<not> is_recovery (Publish topic payload published)" "\<not> is_recovery (Send_Command cmd)"
  "\<not> is_recovery Signal_Update_Check" "is_recovery Request_Rejoin" "is_recovery (Wait_Backoff b)"
  by (simp_all add: is_recovery_def)

lemma answer_plain: "\<not> list_ex is_recovery (answer v c e b)"
  by (cases e) (simp_all add: answer_def split: option.split sum.split)

lemma answer_no_recovery: "filter is_recovery (answer v c e b) = []"
  using answer_plain [of v c e b] by (simp only: filter_empty_conv list_ex_iff) blast

lemma session_loop_recovery:
  "filter is_recovery (fst (snd (session_loop v c es))) = [] \<and>
   (snd (snd (session_loop v c es)) \<longleftrightarrow> \<not> list_ex breaks es)"
proof (induction es arbitrary: c)
  case Nil
  show ?case by simp
next
  case (Cons ep es)
  obtain e published where ep: "ep = (e, published)" by (cases ep)
  let ?c = "case e of State_Changed s \<Rightarrow> Some s | _ \<Rightarrow> c"
  obtain c2 acts2 b2 where l: "session_loop v ?c es = (c2, acts2, b2)" by (metis surj_pair)
  have b: "breaks ep \<longleftrightarrow> e = Receive_Failed \<or> \<not> published \<and> list_ex is_response (answer v c e published)"
    unfolding breaks_def ep using answer_response [of v c e published] by simp
  show ?case
  proof (cases "breaks ep")
    case True
    with b show ?thesis unfolding ep by (simp add: session_turn_answer answer_no_recovery)
  next
    case False
    with b l Cons.IH [of ?c] show ?thesis
      unfolding ep by (simp add: session_turn_answer answer_no_recovery)
  qed
qed

definition telemetry_inv :: "telemetry \<Rightarrow> telemetry_input list \<Rightarrow> bool" where
  "telemetry_inv s ts \<longleftrightarrow>
     unat (tm_backoff s) = min (2 ^ fail_run ts * 1000) 30000 \<and>
     unat (failures (tm_rejoin s)) = fail_run ts mod 5"

text \<open>The recovery of a failure that ends a run of \<open>n\<close> earlier ones.\<close>

definition recovery :: "nat \<Rightarrow> telemetry_action list" where
  "recovery n = (if 5 dvd n + 1 then [Request_Rejoin] else []) @
     [Wait_Backoff (of_nat (min (2 ^ n * 1000) 30000))]"

lemma fail_backoff_recovery:
  assumes "unat (tm_backoff s) = min (2 ^ n * 1000) 30000" and "unat (failures (tm_rejoin s)) = n mod 5"
  shows "snd (fail_backoff s) = recovery n"
    and "unat (tm_backoff (fst (fail_backoff s))) = min (2 ^ (n + 1) * 1000) 30000"
    and "unat (failures (tm_rejoin (fst (fail_backoff s)))) = (n + 1) mod 5"
proof -
  have r: "unat (failures (tm_rejoin s)) < 5" using assms(2) by simp
  have "(of_nat (unat (tm_backoff s)) :: u64) = tm_backoff s" by simp
  then have w: "tm_backoff s = of_nat (min (2 ^ n * 1000) 30000)" unfolding assms(1) by (rule sym)
  have trip: "snd (failure (tm_rejoin s)) \<longleftrightarrow> 5 dvd n + 1"
    using failure_nat(2) [OF r] assms(2) by (simp add: mod_Suc_eq dvd_eq_mod_eq_0)
  show "snd (fail_backoff s) = recovery n"
    unfolding fail_backoff_def recovery_def Let_def split_beta using trip w by simp
  have "unat (backoff_wait (tm_backoff s)) = min (2 * unat (tm_backoff s)) 30000"
    using assms(1) by (intro mqtt_backoff.doubles) simp
  then show "unat (tm_backoff (fst (fail_backoff s))) = min (2 ^ (n + 1) * 1000) 30000"
    unfolding assms(1) by (simp add: fail_backoff_def Let_def split_beta min_def)
  show "unat (failures (tm_rejoin (fst (fail_backoff s)))) = (n + 1) mod 5"
    using failure_nat(1) [OF r] assms(2)
    by (simp add: fail_backoff_def Let_def split_beta mod_Suc_eq)
qed

lemma telemetry_turn_recovery:
  assumes "telemetry_inv s ts"
  shows "telemetry_inv (fst (telemetry_turn v s t)) (ts @ [t]) \<and>
    filter is_recovery (snd (telemetry_turn v s t)) =
      (if link_open t then [] else recovery (if connected t then 0 else fail_run ts))"
proof -
  let ?reset = "s\<lparr>tm_backoff := INITIAL_BACKOFF, tm_rejoin := success (tm_rejoin s)\<rparr>"
  have R: "unat (tm_backoff ?reset) = min (2 ^ 0 * 1000) 30000" "unat (failures (tm_rejoin ?reset)) = 0 mod 5"
    by (simp_all add: INITIAL_BACKOFF_def success_def)
  have S: "unat (tm_backoff s) = min (2 ^ fail_run ts * 1000) 30000"
      "unat (failures (tm_rejoin s)) = fail_run ts mod 5"
    using assms by (simp_all add: telemetry_inv_def)
  have rec: "filter is_recovery (recovery n) = recovery n" for n
    by (simp add: recovery_def)
  show ?thesis
  proof (cases "attempt t = Session_Ready")
    case False
    show ?thesis
    proof (cases "attempt t = Subscribe_Failed")
      case True
      then show ?thesis
        using fail_backoff_recovery [OF R]
        by (simp add: telemetry_turn_def telemetry_inv_def connected_def link_open_def rec)
    next
      case sub: False
      with False have "telemetry_turn v s t = fail_backoff s" "\<not> connected t" "\<not> link_open t"
        by (cases "attempt t"; simp add: telemetry_turn_def connected_def link_open_def)+
      then show ?thesis
        using fail_backoff_recovery [OF S] by (simp add: telemetry_inv_def rec)
    qed
  next
    case True
    let ?c = "case snapshot t of Some d \<Rightarrow> Some d | None \<Rightarrow> tm_current s"
    let ?pub = "case ?c of Some d \<Rightarrow> publish_state d (announced t) | None \<Rightarrow> []"
    obtain c1 acts1 op where l: "session_loop v ?c (session t) = (c1, acts1, op)" by (metis surj_pair)
    have L: "filter is_recovery acts1 = []" "op \<longleftrightarrow> link_open t"
      using session_loop_recovery [of v ?c "session t"] True unfolding l by (simp_all add: link_open_def)
    have P: "filter is_recovery ?pub = []"
      by (auto simp: publish_state_text split: option.split)
    let ?s2 = "?reset\<lparr>tm_current := c1\<rparr>"
    have c: "connected t" using True by (simp add: connected_def)
    show ?thesis
    proof (cases op)
      case open_: True
      then have "telemetry_turn v s t = (?s2, ?pub @ acts1)"
        using True l by (simp add: telemetry_turn_def session_open_def Let_def)
      then show ?thesis using R c L P open_ by (simp add: telemetry_inv_def)
    next
      case False
      then have tt: "telemetry_turn v s t =
          (fst (fail_backoff ?s2), ?pub @ acts1 @ snd (fail_backoff ?s2))"
        using True l by (simp add: telemetry_turn_def session_open_def Let_def split_beta)
      have "unat (tm_backoff ?s2) = min (2 ^ 0 * 1000) 30000" "unat (failures (tm_rejoin ?s2)) = 0 mod 5"
        using R by simp_all
      from fail_backoff_recovery [OF this] show ?thesis
        unfolding tt using c L P False by (simp add: telemetry_inv_def rec)
    qed
  qed
qed

interpretation telemetry: history_machine "telemetry_turn v" telemetry_new "\<lambda>_. True" telemetry_inv for v
  by unfold_locales (simp_all add: telemetry_turn_recovery,
    simp add: telemetry_inv_def telemetry_new_def INITIAL_BACKOFF_def rejoin_new_def)

subsection \<open>Properties\<close>

text \<open>
  C19: what an MQTT session does, event by event: exactly a message that is not retained, on
  the trigger topic, presses the door button; one on the reset topic asks for an update check;
  one on the status topic with an acceptable id of at most 64 bytes is answered under that
  id, with the door state last seen and the version, and the answer is never cut off; a change of the
  door state is published; and nothing else has any effect. The session ends at a failed receive or a
  response that cannot be published, and only there; a state that cannot be published does not end it and is
  not published again by it. Each publication is listed with its outcome.
\<close>

theorem session_answers:
  "fst (snd (session_loop version current es)) = session_spec version current es"
  by (rule session_loop_spec)

text \<open>
  C35: how the telemetry task recovers, after any history of connection attempts and sessions: a
  turn that ends without an open session waits a backoff that starts at one second, doubles with
  every further failure and stops at thirty, and asks for a Wi-Fi rejoin at exactly every fifth
  consecutive failure; a connection restarts both counts, and its own end is the first
  failure of the next run.
\<close>

theorem telemetry_recovers:
  "filter is_recovery (snd (telemetry_turn v (final (telemetry_turn v) telemetry_new ts) t)) =
     (if link_open t then [] else recovery (if connected t then 0 else fail_run ts))"
proof -
  have "telemetry_inv (final (telemetry_turn v) telemetry_new ts) ts" by (rule telemetry.inv_final) simp
  from telemetry_turn_recovery [OF this] show ?thesis by simp
qed

end
