(* ===== verification/Beacon.thy ===== *)
theory Beacon
  imports Prelude
begin

text \<open>
  The LED beacon of \<open>app/src/beacon.rs\<close>. One LED step sets the pin and waits out a duration or
  the next signal. How the waits end is a list: \<open>None\<close>, or the end of the list, is a wait that runs out, and
  \<open>Some (k, s)\<close> a signal \<open>s\<close> that comes \<open>k\<close> milliseconds into the wait. The model records the pin writes with
  the time that each of them was left standing.
\<close>

datatype beacon_state = Connecting | Connected | Error u8

record beacon =
  current_state :: beacon_state
  led_waits :: "(nat \<times> beacon_state) option list"
  leds :: "(bool \<times> nat) list"

text \<open>A signal later than the deadline is not seen by this wait.\<close>

definition wait_for :: "nat \<Rightarrow> (nat \<times> beacon_state) option list \<Rightarrow> nat \<times> beacon_state option" where
  "wait_for ms ws =
     (case ws of
        Some (k, s) # _ \<Rightarrow> if k \<le> ms then (k, Some s) else (ms, None)
      | _ \<Rightarrow> (ms, None))"

definition step_led :: "bool \<Rightarrow> nat \<Rightarrow> beacon \<Rightarrow> beacon" where
  "step_led on ms b =
     (let (elapsed, seen) = wait_for ms (led_waits b);
          b1 = b\<lparr>leds := leds b @ [(on, elapsed)], led_waits := tl (led_waits b)\<rparr>
      in case seen of None \<Rightarrow> b1 | Some s \<Rightarrow> b1\<lparr>current_state := s\<rparr>)"

definition step_connecting :: "beacon \<Rightarrow> beacon" where
  "step_connecting b = step_led False 100 (step_led True 100 b)"

definition step_connected :: "beacon \<Rightarrow> beacon" where
  "step_connected b = step_led False 2000 (step_led True 50 b)"

text \<open>The blink loop; the flag says that it returned early, on another state.\<close>

fun error_blinks :: "u8 \<Rightarrow> nat \<Rightarrow> beacon \<Rightarrow> beacon \<times> bool" where
  "error_blinks code 0 b = (b, False)"
| "error_blinks code (Suc n) b =
     (let b1 = step_led False 200 (step_led True 200 b) in
      if current_state b1 \<noteq> Error code then (b1, True) else error_blinks code n b1)"

definition step_error :: "u8 \<Rightarrow> beacon \<Rightarrow> beacon" where
  "step_error code b =
     (case error_blinks code (unat (max code 1)) b of
        (b1, True) \<Rightarrow> b1
      | (b1, False) \<Rightarrow> if current_state b1 = Error code then step_led False 1000 b1 else b1)"

text \<open>One turn of the task's loop, with what \<open>try_take\<close> finds.\<close>

definition beacon_turn :: "beacon \<Rightarrow> beacon_state option \<Rightarrow> beacon" where
  "beacon_turn b taken =
     (let b1 = (case taken of Some s \<Rightarrow> b\<lparr>current_state := s\<rparr> | None \<Rightarrow> b) in
      case current_state b1 of
        Connecting \<Rightarrow> step_connecting b1
      | Connected \<Rightarrow> step_connected b1
      | Error code \<Rightarrow> step_error code b1)"

definition beacon_new :: beacon where
  "beacon_new = \<lparr>current_state = Connecting, led_waits = [], leds = []\<rparr>"

subsection \<open>What a pattern looks like\<close>

definition blink :: "(bool \<times> nat) list" where
  "blink = [(True, 200), (False, 200)]"

definition code_pattern :: "u8 \<Rightarrow> (bool \<times> nat) list" where
  "code_pattern code = concat (replicate (unat (max code 1)) blink) @ [(False, 1000)]"

text \<open>\<open>steady k b\<close>: none of the next \<open>k\<close> waits is ended by a signal other than the state shown; \<open>quiet k b\<close>: all of
  them run out.\<close>

definition steady :: "nat \<Rightarrow> beacon \<Rightarrow> bool" where
  "steady k b \<longleftrightarrow> list_all (\<lambda>w. w = None \<or> (\<exists>n. w = Some (n, current_state b))) (take k (led_waits b))"

definition quiet :: "nat \<Rightarrow> beacon \<Rightarrow> bool" where
  "quiet k b \<longleftrightarrow> list_all (\<lambda>w. w = None) (take k (led_waits b))"

text \<open>The steps asked for, each left standing for its time or (when it may be \<open>clipped\<close>) shorter.\<close>

definition shown :: "bool \<Rightarrow> (bool \<times> nat) list \<Rightarrow> (bool \<times> nat) list \<Rightarrow> bool" where
  "shown clipped asked ls \<longleftrightarrow> list_all2 (\<lambda>(on, ms) (on', k). on' = on \<and> (if clipped then k \<le> ms else k = ms)) asked ls"

lemma shown_Nil [simp]: "shown clipped [] []"
  by (simp add: shown_def)

lemma shown_append: "shown clipped as ls \<Longrightarrow> shown clipped bs ms \<Longrightarrow> shown clipped (as @ bs) (ls @ ms)"
  unfolding shown_def by (rule list_all2_appendI)

lemma shown_exact: "shown False asked ls \<longleftrightarrow> ls = asked"
proof
  assume "shown False asked ls"
  then show "ls = asked" by (auto simp: shown_def list_all2_conv_all_nth list_eq_iff_nth_eq split_beta prod_eq_iff)
qed (simp add: shown_def list_all2_same split_beta)

lemma steady_step:
  assumes "steady (Suc k) b" and "quiet (Suc k) b \<or> clipped"
  shows "\<exists>n. leds (step_led on ms b) = leds b @ [(on, n)] \<and> shown clipped [(on, ms)] [(on, n)] \<and>
    current_state (step_led on ms b) = current_state b \<and>
    steady k (step_led on ms b) \<and> (quiet k (step_led on ms b) \<or> clipped)"
proof (cases "led_waits b")
  case Nil
  then show ?thesis by (simp add: step_led_def wait_for_def steady_def quiet_def shown_def)
next
  case (Cons w ws)
  with assms show ?thesis
    by (cases w) (auto simp: step_led_def wait_for_def steady_def quiet_def shown_def)
qed

lemma blinks_steady:
  assumes "steady (2 * n + m) b" and "quiet (2 * n + m) b \<or> clipped" and "current_state b = Error code"
  shows "\<exists>b1 ls. error_blinks code n b = (b1, False) \<and> current_state b1 = Error code \<and> steady m b1 \<and>
    (quiet m b1 \<or> clipped) \<and> leds b1 = leds b @ ls \<and> shown clipped (concat (replicate n blink)) ls"
  using assms
proof (induction n arbitrary: b)
  case 0
  then show ?case by simp
next
  case (Suc n)
  let ?b1 = "step_led True 200 b" and ?b2 = "step_led False 200 (step_led True 200 b)"
  have s: "steady (Suc (Suc (2 * n + m))) b" "quiet (Suc (Suc (2 * n + m))) b \<or> clipped" using Suc.prems by simp_all
  from steady_step [OF s, of True 200] obtain k1 where 1: "leds ?b1 = leds b @ [(True, k1)]"
      "shown clipped [(True, 200)] [(True, k1)]" "current_state ?b1 = current_state b"
      "steady (Suc (2 * n + m)) ?b1" "quiet (Suc (2 * n + m)) ?b1 \<or> clipped" by blast
  from steady_step [OF 1(4,5), of False 200] obtain k2 where 2: "leds ?b2 = leds ?b1 @ [(False, k2)]"
      "shown clipped [(False, 200)] [(False, k2)]" "current_state ?b2 = current_state ?b1"
      "steady (2 * n + m) ?b2" "quiet (2 * n + m) ?b2 \<or> clipped" by blast
  have state: "current_state ?b2 = Error code" using 1(3) 2(3) Suc.prems(3) by simp
  from Suc.IH [OF 2(4,5) state] obtain b3 ls where 3: "error_blinks code n ?b2 = (b3, False)"
      "current_state b3 = Error code" "steady m b3" "quiet m b3 \<or> clipped" "leds b3 = leds ?b2 @ ls"
      "shown clipped (concat (replicate n blink)) ls" by blast
  have "shown clipped (concat (replicate (Suc n) blink)) ((True, k1) # (False, k2) # ls)"
    using shown_append [OF shown_append [OF 1(2) 2(2)] 3(6)] by (simp add: blink_def)
  with 1(1) 2(1) 3 state show ?case by simp
qed

lemma step_error_steady:
  assumes "steady (2 * unat (max code 1) + 1) b" and "quiet (2 * unat (max code 1) + 1) b \<or> clipped"
    and "current_state b = Error code"
  shows "\<exists>ls. current_state (step_error code b) = Error code \<and> leds (step_error code b) = leds b @ ls \<and>
    shown clipped (code_pattern code) ls"
proof -
  obtain b1 ls where b1: "error_blinks code (unat (max code 1)) b = (b1, False)" "current_state b1 = Error code"
      "steady (Suc 0) b1" "quiet (Suc 0) b1 \<or> clipped" "leds b1 = leds b @ ls"
      "shown clipped (concat (replicate (unat (max code 1)) blink)) ls"
    using blinks_steady [OF assms] by auto
  from steady_step [OF b1(3,4), of False 1000] obtain k where "leds (step_led False 1000 b1) = leds b1 @ [(False, k)]"
      "shown clipped [(False, 1000)] [(False, k)]" "current_state (step_led False 1000 b1) = current_state b1" by blast
  with b1 shown_append [OF b1(6) this(2)] show ?thesis by (simp add: step_error_def code_pattern_def)
qed

lemma quiet_steady: "quiet k b \<Longrightarrow> steady k b"
  by (auto simp: quiet_def steady_def list_all_iff)

text \<open>
  C37: an error code is shown faithfully. As long as no other state is signalled, a turn in state \<open>Error k\<close>
  takes the LED through exactly \<open>k\<close> blinks (one for code 0) and a dark pause and stays in the state; when no
  signal comes at all, each blink is 200 ms on and 200 ms off and the pause a second, so that the count a human reads
  off the LED is the code. A repeated signal of the same code cuts steps short and adds none.
\<close>

theorem beacon_shows_code:
  assumes "current_state b = Error code" and "steady (2 * unat (max code 1) + 1) b"
  shows "current_state (beacon_turn b None) = Error code \<and>
    (\<exists>ls. leds (beacon_turn b None) = leds b @ ls \<and> shown True (code_pattern code) ls \<and>
       (quiet (2 * unat (max code 1) + 1) b \<longrightarrow> ls = code_pattern code))"
proof -
  have turn: "beacon_turn b None = step_error code b" using assms(1) by (simp add: beacon_turn_def)
  obtain ls where ls: "current_state (step_error code b) = Error code" "leds (step_error code b) = leds b @ ls"
      "shown True (code_pattern code) ls"
    using step_error_steady [OF assms(2) _ assms(1), of True] by auto
  have "ls = code_pattern code" if "quiet (2 * unat (max code 1) + 1) b"
    using step_error_steady [OF assms(2) _ assms(1), of False] that ls(2) by (auto simp: shown_exact)
  with ls turn show ?thesis by auto
qed

theorem beacon_shows_code_witness:
  "let b = \<lparr>current_state = Error 3, led_waits = [None, Some (9, Error 3)], leds = []\<rparr> in
     current_state b = Error 3 \<and> steady (2 * unat (max 3 1 :: u8) + 1) b \<and>
     (\<exists>ls. leds (beacon_turn b None) = ls \<and> shown True (code_pattern 3) ls) \<and>
     leds (beacon_turn b None) =
       [(True, 200), (False, 9), (True, 200), (False, 200), (True, 200), (False, 200), (False, 1000)]"
proof -
  have 3: "unat (max 3 1 :: u8) = 3" by (simp add: max_def word_le_nat_alt)
  let ?b = "\<lparr>current_state = Error 3, led_waits = [None, Some (9, Error 3)], leds = []\<rparr>"
  have s: "steady (2 * unat (max 3 1 :: u8) + 1) ?b" by (simp add: 3 steady_def)
  have "leds (beacon_turn ?b None) =
      [(True, 200), (False, 9), (True, 200), (False, 200), (True, 200), (False, 200), (False, 1000)]"
    by (simp add: beacon_turn_def step_error_def 3 eval_nat_numeral step_led_def wait_for_def)
  with beacon_shows_code [OF _ s] s show ?thesis by (simp add: Let_def)
qed

end
