(* ===== verification/Wifi_Supervisor.thy ===== *)
theory Wifi_Supervisor
  imports Wifi_Policy Beacon
begin

text \<open>
  The Wi-Fi supervisor task of \<open>app/src/wifi.rs\<close> as a machine whose event is one turn of the
  loop: what the radio, the lease and the clock did in it. The answer of a turn is what the
  task did: beacon signals, the wait of the backoff, or the reset of the device. Durations are
  milliseconds, as the code's constants are.
\<close>

datatype call_end = Call_Ok | Call_Failed | Call_Timed_Out

text \<open>The call that joins the network: an empty password means an open network, and the timeout
  and a refusal are told apart. The credentials and the radio are parameters.\<close>

datatype join_options = Join_Open | Join_Secured bytes

datatype join_error = Join_Timeout | Join_Refused

definition join_options_for :: "bytes \<Rightarrow> join_options" where
  "join_options_for password = (if password = [] then Join_Open else Join_Secured password)"

definition attempt_join :: "(bytes \<Rightarrow> join_options \<Rightarrow> u64 \<Rightarrow> call_end) \<Rightarrow> bytes \<Rightarrow> bytes \<Rightarrow> join_error + unit" where
  "attempt_join radio ssid password =
     (case radio ssid (join_options_for password) JOIN_TIMEOUT_MS of
        Call_Ok \<Rightarrow> Inr ()
      | Call_Failed \<Rightarrow> Inl Join_Refused
      | Call_Timed_Out \<Rightarrow> Inl Join_Timeout)"

datatype lease_wait = Lease_Up | Lease_Timeout | Rejoin_Requested

datatype link_end = Link_Down | Link_Rejoin

record wifi_turn =
  joined :: "join_error + unit"
  lease :: "u32 \<Rightarrow> lease_wait"
  lease_ms :: u64
  link_ended :: link_end
  check_ms :: u64
  left_ok :: bool

datatype wifi_action = Signal_Beacon beacon_state | Wait_Ms u64 | Sys_Reset

record supervisor =
  backoff :: u64
  no_ip :: no_ip_watchdog

definition supervisor_new :: supervisor where
  "supervisor_new = \<lparr>backoff = INITIAL_BACKOFF_MS, no_ip = no_ip_new\<rparr>"

text \<open>The DHCP loop: \<open>lease t k\<close> is how the \<open>k\<close>-th wait ended. The result is the beacon code of
  a failure, or \<open>None\<close> for a lease.\<close>

lemma attempts_measure:
  fixes n :: u32
  assumes "\<not> DHCP_ATTEMPTS \<le> n + 1"
  shows "3 - unat (n + 1 + 1) < 3 - unat (n + 1)"
proof -
  have l: "unat (n + 1) < 3" using assms by (simp add: wifi_consts word_nat)
  then have "unat (n + 1 + 1) = unat (n + 1) + 1" by (subst unat_plus_nowrap) simp_all
  with l show ?thesis by linarith
qed

function dhcp_loop :: "(u32 \<Rightarrow> lease_wait) \<Rightarrow> u32 \<Rightarrow> u8 option" where
  "dhcp_loop waits attempts =
     (let n = attempts + 1 in
      case waits n of
        Lease_Up \<Rightarrow> None
      | Lease_Timeout \<Rightarrow> if DHCP_ATTEMPTS \<le> n then Some 3 else dhcp_loop waits n
      | Rejoin_Requested \<Rightarrow> Some 2)"
  by pat_completeness auto
termination
  by (relation "measure (\<lambda>(waits, attempts). 3 - unat (attempts + 1))")
    (auto simp del: add_diff_eq one_add_one simp flip: add.assoc dest: attempts_measure)

declare dhcp_loop.simps [simp del]

definition handle_associated :: "wifi_turn \<Rightarrow> supervisor \<Rightarrow> supervisor \<times> wifi_action list" where
  "handle_associated t s =
     (case dhcp_loop (lease t) 0 of
        Some code \<Rightarrow> (s, [Signal_Beacon (Error code)])
      | None \<Rightarrow>
          (\<lparr>backoff = INITIAL_BACKOFF_MS, no_ip = note_ip (no_ip s) (lease_ms t)\<rparr>,
           [Signal_Beacon Connected,
            (case link_ended t of
               Link_Down \<Rightarrow> Signal_Beacon (Error 2)
             | Link_Rejoin \<Rightarrow> Signal_Beacon (Error 2))]))"

definition next_backoff_ms :: "u64 \<Rightarrow> u64" where
  "next_backoff_ms b = min (b * 2) MAX_BACKOFF_MS"

text \<open>The leave call may time out; the task goes on all the same.\<close>

definition leave_and_backoff :: "wifi_turn \<Rightarrow> supervisor \<Rightarrow> supervisor \<times> wifi_action list" where
  "leave_and_backoff t s = (s\<lparr>backoff := next_backoff_ms (backoff s)\<rparr>, [Wait_Ms (backoff s)])"

definition supervisor_turn :: "supervisor \<Rightarrow> wifi_turn \<Rightarrow> supervisor \<times> wifi_action list" where
  "supervisor_turn s t =
     (let (s1, acts) =
        (case joined t of
           Inr _ \<Rightarrow> handle_associated t s
         | Inl Join_Timeout \<Rightarrow> (s, [Signal_Beacon (Error 1)])
         | Inl Join_Refused \<Rightarrow> (s, [Signal_Beacon (Error 1)]));
          acts1 = Signal_Beacon Connecting # acts
      in if reboot_due (no_ip s1) (check_ms t) then (s1, acts1 @ [Sys_Reset])
         else
           let (s2, acts2) = leave_and_backoff t s1 in (s2, acts1 @ acts2))"

subsection \<open>The backoff\<close>

interpretation wifi_backoff: backoff_policy next_backoff_ms 1000 30000
proof unfold_locales
  show "unat (next_backoff_ms b) = min (2 * unat b) 30000" if "unat b \<le> 30000" for b
  proof -
    have "unat (b * 2) = unat b * 2" using that by (subst unat_mult_lem [THEN iffD1]) simp_all
    then show ?thesis by (simp add: next_backoff_ms_def wifi_consts min_def word_nat mult.commute)
  qed
qed simp

subsection \<open>What a run of turns does\<close>

lemma dhcp_waits:
  "dhcp_loop w 0 =
     (case w 1 of Lease_Up \<Rightarrow> None | Rejoin_Requested \<Rightarrow> Some 2 | Lease_Timeout \<Rightarrow>
       (case w 2 of Lease_Up \<Rightarrow> None | Rejoin_Requested \<Rightarrow> Some 2 | Lease_Timeout \<Rightarrow>
         (case w 3 of Lease_Up \<Rightarrow> None | Rejoin_Requested \<Rightarrow> Some 2 | Lease_Timeout \<Rightarrow> Some 3)))"
  by (simp add: dhcp_loop.simps [of w 0] dhcp_loop.simps [of w 1] dhcp_loop.simps [of w 2]
      DHCP_ATTEMPTS_def word_le_nat_alt split: lease_wait.split)

definition leased :: "wifi_turn \<Rightarrow> bool" where
  "leased t \<longleftrightarrow> joined t = Inr () \<and> dhcp_loop (lease t) 0 = None"

text \<open>When the last lease of a history was acquired (0, the boot, when there was none), and for how
  many turns the backoff has been doubling since. A lease is noted only at this one instant: for how
  long it was held afterwards leaves no trace.\<close>

definition last_acquired :: "wifi_turn list \<Rightarrow> nat" where
  "last_acquired ts = foldl (\<lambda>n t. if leased t then unat (lease_ms t) else n) 0 ts"

definition doublings :: "wifi_turn list \<Rightarrow> nat" where
  "doublings ts = foldl (\<lambda>n t. if leased t then 1 else n + 1) 0 ts"

definition beacons :: "wifi_turn \<Rightarrow> wifi_action list" where
  "beacons t = map Signal_Beacon (Connecting #
     (if joined t \<noteq> Inr () then [Error 1]
      else case dhcp_loop (lease t) 0 of Some code \<Rightarrow> [Error code] | None \<Rightarrow> [Connected, Error 2]))"

definition turn_spec :: "wifi_turn list \<Rightarrow> wifi_turn \<Rightarrow> wifi_action list" where
  "turn_spec ts t = beacons t @
     (if last_acquired (ts @ [t]) + 600000 \<le> unat (check_ms t) then [Sys_Reset]
      else [Wait_Ms (of_nat (min (2 ^ (if leased t then 0 else doublings ts) * 1000) 30000))])"

definition supervisor_inv :: "supervisor \<Rightarrow> wifi_turn list \<Rightarrow> bool" where
  "supervisor_inv s ts \<longleftrightarrow>
     unat (backoff s) = min (2 ^ doublings ts * 1000) 30000 \<and>
     (case last_ip_ms (no_ip s) of Some t \<Rightarrow> unat t | None \<Rightarrow> 0) = last_acquired ts"

lemma history_simps [simp]:
  "last_acquired [] = 0" "doublings [] = 0"
  "last_acquired (ts @ [t]) = (if leased t then unat (lease_ms t) else last_acquired ts)"
  "doublings (ts @ [t]) = (if leased t then 1 else doublings ts + 1)"
  by (simp_all add: last_acquired_def doublings_def)

lemma supervisor_inv_new: "supervisor_inv supervisor_new []"
  by (simp add: supervisor_inv_def supervisor_new_def no_ip_new_def wifi_consts)

text \<open>The state and the signals of a turn before the reset check.\<close>

definition noted :: "wifi_turn \<Rightarrow> supervisor \<Rightarrow> supervisor" where
  "noted t s =
     (if leased t then \<lparr>backoff = INITIAL_BACKOFF_MS, no_ip = note_ip (no_ip s) (lease_ms t)\<rparr> else s)"

lemma supervisor_turn_noted:
  "supervisor_turn s t =
     (if reboot_due (no_ip (noted t s)) (check_ms t) then (noted t s, beacons t @ [Sys_Reset])
      else ((noted t s)\<lparr>backoff := next_backoff_ms (backoff (noted t s))\<rparr>,
        beacons t @ [Wait_Ms (backoff (noted t s))]))"
  by (cases "joined t"; cases "dhcp_loop (lease t) 0"; cases "link_ended t")
    (auto split: join_error.split simp: supervisor_turn_def noted_def leased_def beacons_def handle_associated_def
      leave_and_backoff_def Let_def)

lemma noted_inv:
  assumes "supervisor_inv s ts"
  shows "unat (backoff (noted t s)) = min (2 ^ (if leased t then 0 else doublings ts) * 1000) 30000"
    and "(case last_ip_ms (no_ip (noted t s)) of Some t \<Rightarrow> unat t | None \<Rightarrow> 0) = last_acquired (ts @ [t])"
  using assms by (auto simp: supervisor_inv_def noted_def note_ip_def wifi_consts split: option.splits)

lemma turn_from_inv:
  assumes "supervisor_inv s ts"
  shows "snd (supervisor_turn s t) = turn_spec ts t"
    and "Sys_Reset \<notin> set (snd (supervisor_turn s t)) \<Longrightarrow> supervisor_inv (fst (supervisor_turn s t)) (ts @ [t])"
proof -
  note N = noted_inv [OF assms, of t]
  have w: "backoff (noted t s) = of_nat (min (2 ^ (if leased t then 0 else doublings ts) * 1000) 30000)"
  proof -
    have "(of_nat (unat (backoff (noted t s))) :: u64) = backoff (noted t s)" by simp
    then show ?thesis unfolding N(1) by (rule sym)
  qed
  show "snd (supervisor_turn s t) = turn_spec ts t"
    unfolding supervisor_turn_noted turn_spec_def reboot_due_iff N(2) using w by simp
  assume "Sys_Reset \<notin> set (snd (supervisor_turn s t))"
  then have "\<not> reboot_due (no_ip (noted t s)) (check_ms t)"
    by (auto simp: supervisor_turn_noted)
  then have s1: "fst (supervisor_turn s t) =
      (noted t s)\<lparr>backoff := next_backoff_ms (backoff (noted t s))\<rparr>"
    by (simp add: supervisor_turn_noted)
  have "unat (next_backoff_ms (backoff (noted t s))) = min (2 * unat (backoff (noted t s))) 30000"
    using N(1) by (intro wifi_backoff.doubles) simp
  also have "\<dots> = min (2 ^ doublings (ts @ [t]) * 1000) 30000"
    unfolding N(1) by (simp add: min_def)
  finally show "supervisor_inv (fst (supervisor_turn s t)) (ts @ [t])"
    unfolding supervisor_inv_def s1 using N(2) by simp
qed

lemma supervisor_run:
  "Sys_Reset \<notin> set (concat (outputs supervisor_turn supervisor_new ts)) \<Longrightarrow>
     supervisor_inv (final supervisor_turn supervisor_new ts) ts"
proof (induction ts rule: rev_induct)
  case Nil
  show ?case by (simp add: supervisor_inv_new)
next
  case (snoc t ts)
  then show ?case using turn_from_inv(2) [of _ ts t] by (simp del: history_simps)
qed

subsection \<open>Properties\<close>

text \<open>
  C36: what the Wi-Fi supervisor does in a turn, after any history of turns in which it has
  not reset the device: it signals the beacon, then resets exactly when ten minutes have passed
  since a lease was last acquired (or since the boot, when there was none), and otherwise waits a backoff
  that starts at one second, doubles with every turn without a lease and stops at thirty. A
  lease in one of the three DHCP waits, and nothing else, restarts both. The ten minutes run while the lease is
  held, so a turn whose link lasts ten minutes or more ends with a reset, without any time offline.
\<close>

theorem supervisor_turn_exact:
  assumes "Sys_Reset \<notin> set (concat (outputs supervisor_turn supervisor_new ts))"
  shows "snd (supervisor_turn (final supervisor_turn supervisor_new ts) t) = turn_spec ts t"
  by (rule turn_from_inv(1) [OF supervisor_run [OF assms]])

definition silent_turn :: "u64 \<Rightarrow> wifi_turn" where
  "silent_turn now = \<lparr>joined = Inl Join_Timeout, lease = (\<lambda>_. Lease_Timeout), lease_ms = 0,
     link_ended = Link_Down, check_ms = now, left_ok = False\<rparr>"

text \<open>A turn in which the lease is acquired after five seconds and the link drops after ten minutes with it.\<close>

definition long_turn :: wifi_turn where
  "long_turn = \<lparr>joined = Inr (), lease = (\<lambda>_. Lease_Up), lease_ms = 5000,
     link_ended = Link_Down, check_ms = 605000, left_ok = True\<rparr>"

theorem supervisor_turn_exact_witness:
  "Sys_Reset \<notin> set (concat (outputs supervisor_turn supervisor_new [silent_turn 15000])) \<and>
   snd (supervisor_turn (final supervisor_turn supervisor_new [silent_turn 15000]) (silent_turn 600000)) =
     [Signal_Beacon Connecting, Signal_Beacon (Error 1), Sys_Reset] \<and>
   snd (supervisor_turn (final supervisor_turn supervisor_new [silent_turn 15000]) long_turn) =
     [Signal_Beacon Connecting, Signal_Beacon Connected, Signal_Beacon (Error 2), Sys_Reset]"
proof -
  have *: "Sys_Reset \<notin> set (concat (outputs supervisor_turn supervisor_new [silent_turn 15000]))"
    by (simp add: supervisor_turn_noted noted_def leased_def silent_turn_def beacons_def
        reboot_due_def supervisor_new_def no_ip_new_def wifi_consts saturating_sub_def)
  show ?thesis
    using supervisor_turn_exact [OF *, of "silent_turn 600000"] supervisor_turn_exact [OF *, of long_turn] *
    by (simp add: turn_spec_def beacons_def last_acquired_def leased_def silent_turn_def long_turn_def dhcp_waits)
qed

end
