(* ===== verification/Boot.thy ===== *)
theory Boot
  imports Update_Machine Decimal
begin

text \<open>
  The boot of the application: the self-test policy of \<open>core/src/ota/selftest.rs\<close>, and \<open>main\<close> of
  \<open>app/src/main.rs\<close> as the list of the steps it takes, in their order. What the hardware and the
  bootloader's state partition answer are inputs. The last section runs \<open>main\<close> over the update
  lifecycle of \<open>Update_Machine\<close>.
\<close>

subsection \<open>The self-test policy\<close>

definition SELF_TEST_WINDOW_MS :: u64 where "SELF_TEST_WINDOW_MS = 30000"

record selftest_signals =
  relay_ok :: bool
  reed_ok :: bool
  network_ok :: bool

datatype selftest_decision = Commit_Image | Revert_Image

definition evaluate :: "selftest_signals \<Rightarrow> selftest_decision" where
  "evaluate s = (if relay_ok s \<and> reed_ok s then Commit_Image else Revert_Image)"

subsection \<open>The version\<close>

text \<open>\<open>parse_u32\<close> runs at compile time, where an overflow is an error: \<open>None\<close> is a build that
  fails.\<close>

fun parse_u32_loop :: "u32 \<Rightarrow> bytes \<Rightarrow> u32 option" where
  "parse_u32_loop n [] = Some n"
| "parse_u32_loop n (b # bs) =
     (if b < 0x30 then None
      else case checked_mul n 10 of
        None \<Rightarrow> None
      | Some n10 \<Rightarrow>
          (case checked_add n10 (ucast (b - 0x30)) of
             None \<Rightarrow> None
           | Some m \<Rightarrow> parse_u32_loop m bs))"

definition parse_u32 :: "bytes \<Rightarrow> u32 option" where
  "parse_u32 s = parse_u32_loop 0 s"

lemma parse_u32_loop_checked:
  "list_all is_ascii_digit ds \<Longrightarrow> parse_u32_loop n ds = checked_number n ds"
proof (induction ds arbitrary: n)
  case Nil
  show ?case by simp
next
  case (Cons d ds)
  then have "\<not> d < 0x30" by (simp add: is_ascii_digit_def not_less)
  with Cons show ?case by (simp split: option.split)
qed

text \<open>The number that the build prints is the number that the firmware reports.\<close>

lemma parse_u32_decimal: "parse_u32 (decimal (unat v)) = Some v"
proof -
  have digits: "list_all is_ascii_digit (decimal (unat v))"
    using decimal_digits by (simp add: list_all_iff)
  have "unat v < 2 ^ 32" using unsigned_less [of v, where ?'a = nat] by simp
  then show ?thesis
    using checked_number_iff [OF digits, of "0 :: u32"]
    by (simp add: parse_u32_def parse_u32_loop_checked [OF digits] number_from_0)
qed

subsection \<open>Starting the application\<close>

text \<open>The states that the sources tell apart in the bootloader's state partition; \<open>None\<close> in the
  environment is a read that failed.\<close>

datatype boot_mark = Swap_Mark | Revert_Mark | Detach_Mark | Other_Mark

record boot_env =
  mark :: "boot_mark option"
  relay_set_low :: bool
  reed_low :: bool
  reed_high :: bool
  lease_in_window :: bool
  confirm_ok :: bool
  broken_build :: bool

datatype boot_step =
    Init_Heap | Init_Peripherals | Arm_Watchdog nat | Spawn_Feeder | Drive_Relay_Low | Panic | Open_Reed
  | Read_Boot_State | Revert_Hang | Spawn_Actuator | Spawn_Sensor | Init_Radio | Spawn_Beacon
  | Spawn_Wifi | Spawn_Telemetry | Await_Network u64 | Mark_Image_Booted bool | Spawn_Ota bool

definition WATCHDOG_TIMEOUT_MS :: nat where "WATCHDOG_TIMEOUT_MS = 8000"

definition hardware_signals :: "boot_env \<Rightarrow> selftest_signals" where
  "hardware_signals env =
     (if mark env = Some Swap_Mark
      then \<lparr>relay_ok = relay_set_low env, reed_ok = reed_low env \<or> reed_high env, network_ok = False\<rparr>
      else \<lparr>relay_ok = True, reed_ok = True, network_ok = False\<rparr>)"

definition app_main :: "boot_env \<Rightarrow> boot_step list" where
  "app_main env =
     [Init_Heap, Init_Peripherals, Arm_Watchdog WATCHDOG_TIMEOUT_MS, Spawn_Feeder, Drive_Relay_Low] @
     (if broken_build env then [Panic]
      else
        let is_swap = (mark env = Some Swap_Mark);
            is_revert = (mark env = Some Revert_Mark);
            signals = hardware_signals env
        in [Open_Reed, Read_Boot_State] @
           (if is_swap \<and> evaluate signals = Revert_Image then [Revert_Hang]
            else
              [Spawn_Actuator, Spawn_Sensor, Init_Radio, Spawn_Beacon, Spawn_Wifi, Spawn_Telemetry] @
              (if is_swap then
                 Await_Network SELF_TEST_WINDOW_MS #
                 (case evaluate (signals\<lparr>network_ok := lease_in_window env\<rparr>) of
                    Commit_Image \<Rightarrow> [Mark_Image_Booted (confirm_ok env), Spawn_Ota (\<not> is_revert)]
                  | Revert_Image \<Rightarrow> [Revert_Hang])
               else [Spawn_Ota (\<not> is_revert)])))"

text \<open>The mandatory checks that a swapped image must pass.\<close>

definition hardware_ok :: "boot_env \<Rightarrow> bool" where
  "hardware_ok env \<longleftrightarrow> relay_set_low env \<and> (reed_low env \<or> reed_high env)"

lemma app_main_steps:
  "app_main env =
     [Init_Heap, Init_Peripherals, Arm_Watchdog 8000, Spawn_Feeder, Drive_Relay_Low] @
     (if broken_build env then [Panic]
      else [Open_Reed, Read_Boot_State] @
        (if mark env = Some Swap_Mark \<and> \<not> hardware_ok env then [Revert_Hang]
         else [Spawn_Actuator, Spawn_Sensor, Init_Radio, Spawn_Beacon, Spawn_Wifi, Spawn_Telemetry] @
           (if mark env = Some Swap_Mark then [Await_Network 30000, Mark_Image_Booted (confirm_ok env), Spawn_Ota True]
            else [Spawn_Ota (mark env \<noteq> Some Revert_Mark)])))"
  by (auto simp: app_main_def hardware_signals_def evaluate_def hardware_ok_def WATCHDOG_TIMEOUT_MS_def
      SELF_TEST_WINDOW_MS_def Let_def)

subsection \<open>Booting over the update lifecycle\<close>

text \<open>What the application reads of the lifecycle's state after the bootloader has run.\<close>

definition mark_of :: "update_state \<Rightarrow> boot_mark" where
  "mark_of s =
     (case s of SwapTesting \<Rightarrow> Swap_Mark | Revert \<Rightarrow> Revert_Mark | DfuDetach \<Rightarrow> Detach_Mark
      | _ \<Rightarrow> Other_Mark)"

text \<open>One reset: the bootloader acts on the state, then \<open>main\<close> runs; it confirms the image when it
  gets as far as a \<open>mark_booted\<close> that succeeds.\<close>

definition boot_cycle :: "boot_env \<Rightarrow> update_machine \<Rightarrow> (update_machine \<times> boot_action \<times> boot_step list) option" where
  "boot_cycle env m =
     (case on_reset m of
        None \<Rightarrow> None
      | Some (m1, EnterUsbBoot) \<Rightarrow> Some (m1, EnterUsbBoot, [])
      | Some (m1, a) \<Rightarrow>
          (let steps = app_main (env\<lparr>mark := Some (mark_of (update_state m1))\<rparr>)
           in Some (if Mark_Image_Booted True \<in> set steps then fst (mark_booted m1) else m1, a, steps)))"

lemma boot_cycle_pending:
  assumes "update_state m = SwapPending" and "staged_version m = Some v"
  shows "\<exists>steps. boot_cycle env m = Some
    (if \<not> broken_build env \<and> hardware_ok env \<and> confirm_ok env
     then \<lparr>update_state = US_Boot, active_version = v, staged_version = None, previous_version = None\<rparr>
     else \<lparr>update_state = SwapTesting, active_version = v, staged_version = None,
            previous_version = Some (active_version m)\<rparr>, SwappedAndBoot, steps)"
  using assms
  by (auto simp: boot_cycle_def on_reset_def app_main_steps mark_of_def mark_booted_def hardware_ok_def Let_def)

lemma boot_cycle_testing:
  assumes "update_state m = SwapTesting" and "previous_version m = Some v"
  shows "\<exists>m' steps. boot_cycle env m = Some (m', RolledBackAndBoot, steps) \<and> active_version m' = v \<and>
    update_state m' = Revert \<and> Spawn_Ota True \<notin> set steps"
  using assms
  by (auto simp: boot_cycle_def on_reset_def app_main_steps mark_of_def mark_booted_def hardware_ok_def Let_def)

lemma boot_cycle_idle:
  assumes "update_state m = US_Boot \<or> update_state m = Revert"
  shows "\<exists>steps. boot_cycle env m = Some (m, BootActive, steps) \<and>
    (update_state m = Revert \<longrightarrow> Spawn_Ota True \<notin> set steps)"
  using assms
  by (auto simp: boot_cycle_def on_reset_def app_main_steps mark_of_def mark_booted_def hardware_ok_def Let_def)

subsection \<open>Properties\<close>

text \<open>
  The application starts safely, whatever it finds: the watchdog is armed and the relay is
  driven low before anything that can fail; a swapped image is confirmed exactly when it passed
  the hardware checks, whether or not the network came up; when it failed them, it hangs for the
  watchdog with no task of the door running; and the boot-time update check is left out exactly
  after a revert.
\<close>

lemma boot_is_safe:
  "take 5 (app_main env) =
     [Init_Heap, Init_Peripherals, Arm_Watchdog 8000, Spawn_Feeder, Drive_Relay_Low] \<and>
   (Mark_Image_Booted (confirm_ok env) \<in> set (app_main env) \<longleftrightarrow>
      mark env = Some Swap_Mark \<and> hardware_ok env \<and> \<not> broken_build env) \<and>
   (Revert_Hang \<in> set (app_main env) \<longleftrightarrow>
      mark env = Some Swap_Mark \<and> \<not> hardware_ok env \<and> \<not> broken_build env) \<and>
   (Spawn_Actuator \<in> set (app_main env) \<longleftrightarrow> \<not> broken_build env \<and> Revert_Hang \<notin> set (app_main env)) \<and>
   (Spawn_Ota True \<in> set (app_main env) \<longleftrightarrow>
      Spawn_Actuator \<in> set (app_main env) \<and> mark env \<noteq> Some Revert_Mark) \<and>
   app_main env = app_main (env\<lparr>lease_in_window := b\<rparr>)"
  by (auto simp: app_main_steps hardware_ok_def)

text \<open>
  C11: an update ends well or is undone. When a staged image is pending, the next reset starts it,
  and if it passes its hardware checks and is confirmed, it stays for every later reset; if it
  panics, fails a check or cannot be confirmed, the reset after that starts the version from
  before the update again, which stays for every later reset and does not check for the failed
  update by itself.
\<close>

theorem trial_boot_outcome:
  assumes "update_state m = SwapPending" and "staged_version m = Some new"
    and "boot_cycle env m = Some (m1, a1, steps1)"
    and "boot_cycle env2 m1 = Some (m2, a2, steps2)"
    and "boot_cycle env3 m2 = Some (m3, a3, steps3)"
  shows "a1 = SwappedAndBoot \<and> active_version m1 = new \<and>
    (if \<not> broken_build env \<and> hardware_ok env \<and> confirm_ok env
     then a2 = BootActive \<and> m2 = m1 \<and> a3 = BootActive \<and> m3 = m1
     else a2 = RolledBackAndBoot \<and> active_version m2 = active_version m \<and> Spawn_Ota True \<notin> set steps2 \<and>
       a3 = BootActive \<and> m3 = m2 \<and> Spawn_Ota True \<notin> set steps3)"
proof (cases "\<not> broken_build env \<and> hardware_ok env \<and> confirm_ok env")
  case True
  with boot_cycle_pending [OF assms(1,2), of env] assms(3)
  have m1: "a1 = SwappedAndBoot" "active_version m1 = new" "update_state m1 = US_Boot" by auto
  with boot_cycle_idle [of m1 env2] assms(4) have "m2 = m1" "a2 = BootActive" by auto
  with boot_cycle_idle [of m2 env3] m1 assms(5) True show ?thesis by auto
next
  case False
  with boot_cycle_pending [OF assms(1,2), of env] assms(3)
  have m1: "a1 = SwappedAndBoot" "active_version m1 = new" "update_state m1 = SwapTesting"
      "previous_version m1 = Some (active_version m)" by auto
  from boot_cycle_testing [OF m1(3,4), of env2] assms(4)
  have m2: "a2 = RolledBackAndBoot" "active_version m2 = active_version m" "update_state m2 = Revert"
      "Spawn_Ota True \<notin> set steps2" by auto
  with boot_cycle_idle [of m2 env3] m1 assms(5) False show ?thesis by auto
qed

definition failing_relay :: boot_env where
  "failing_relay = \<lparr>mark = None, relay_set_low = False, reed_low = True, reed_high = False,
     lease_in_window = True, confirm_ok = True, broken_build = False\<rparr>"

definition pending_update :: update_machine where
  "pending_update = \<lparr>update_state = SwapPending, active_version = 4, staged_version = Some 5,
     previous_version = None\<rparr>"

theorem trial_boot_outcome_witness:
  "\<exists>m1 a1 steps1 m2 a2 steps2 m3 a3 steps3.
     boot_cycle failing_relay pending_update = Some (m1, a1, steps1) \<and>
     boot_cycle failing_relay m1 = Some (m2, a2, steps2) \<and>
     boot_cycle failing_relay m2 = Some (m3, a3, steps3) \<and>
     active_version m1 = 5 \<and> a2 = RolledBackAndBoot \<and> active_version m2 = 4 \<and> m3 = m2"
proof -
  have p: "update_state pending_update = SwapPending" "staged_version pending_update = Some 5"
      "active_version pending_update = 4" by (simp_all add: pending_update_def)
  have hw: "\<not> hardware_ok failing_relay" by (simp add: hardware_ok_def failing_relay_def)
  obtain m1 steps1 where 1: "boot_cycle failing_relay pending_update = Some (m1, SwappedAndBoot, steps1)"
      "update_state m1 = SwapTesting" "previous_version m1 = Some 4"
    using boot_cycle_pending [OF p(1,2), of failing_relay] hw p(3) by auto
  obtain m2 steps2 where 2: "boot_cycle failing_relay m1 = Some (m2, RolledBackAndBoot, steps2)"
      "update_state m2 = Revert"
    using boot_cycle_testing [OF 1(2,3), of failing_relay] by auto
  obtain steps3 where 3: "boot_cycle failing_relay m2 = Some (m2, BootActive, steps3)"
    using boot_cycle_idle [of m2 failing_relay] 2(2) by auto
  from trial_boot_outcome [OF p(1,2) 1(1) 2(1) 3] hw p(3) 1(1) 2(1) 3 show ?thesis by auto
qed

end
