(* ===== verification/Updater.thy ===== *)
theory Updater
  imports Session Machines
begin

text \<open>
  The flash adapter of \<open>app/src/update.rs\<close> and the shared watchdog of \<open>app/src/watchdog.rs\<close>. The
  flash driver is a parameter: each blocking call takes the device, and returns it with the
  microseconds the call took and its result. The state has the device, the clock, the watchdog's
  deadline (\<open>None\<close> before it is armed), whether a deadline has ever passed, and the longest
  window recorded.
\<close>

definition FLASH_SIZE :: nat where "FLASH_SIZE = unat FLASH_BYTES"
definition DFU_WRITE_SIZE :: nat where "DFU_WRITE_SIZE = 1"
definition DFU_READ_SIZE :: nat where "DFU_READ_SIZE = 4"
definition ALIGNED_LEN :: nat where
  "ALIGNED_LEN = (if DFU_WRITE_SIZE < DFU_READ_SIZE then DFU_READ_SIZE else DFU_WRITE_SIZE)"

definition TIMEOUT_US :: nat where "TIMEOUT_US = 8000000"

record ('d, 'e) driver =
  blocking_read :: "'d \<Rightarrow> u32 \<Rightarrow> nat \<Rightarrow> 'd \<times> nat \<times> ('e + bytes)"
  blocking_erase :: "'d \<Rightarrow> u32 \<Rightarrow> u32 \<Rightarrow> 'd \<times> nat \<times> ('e + unit)"
  blocking_write :: "'d \<Rightarrow> u32 \<Rightarrow> bytes \<Rightarrow> 'd \<times> nat \<times> ('e + unit)"
  unaligned :: 'e
  erase_size :: u32

record 'd dfu_flash =
  device :: 'd
  now_us :: nat
  deadline :: "nat option"
  expired :: bool
  max_window :: u32

subsection \<open>The watchdog\<close>

text \<open>\<open>init\<close> arms it; \<open>feed\<close> reloads it when it is there.\<close>

definition watchdog_init :: "'d dfu_flash \<Rightarrow> 'd dfu_flash" where
  "watchdog_init s = s\<lparr>deadline := Some (now_us s + TIMEOUT_US)\<rparr>"

definition feed_watchdog :: "'d dfu_flash \<Rightarrow> 'd dfu_flash" where
  "feed_watchdog s =
     (case deadline s of None \<Rightarrow> s | Some _ \<Rightarrow> s\<lparr>deadline := Some (now_us s + TIMEOUT_US)\<rparr>)"

text \<open>Time passes, and the deadline with it.\<close>

definition elapse :: "nat \<Rightarrow> 'd dfu_flash \<Rightarrow> 'd dfu_flash" where
  "elapse us s =
     s\<lparr>now_us := now_us s + us,
       expired := expired s \<or> (case deadline s of None \<Rightarrow> False | Some t \<Rightarrow> t < now_us s + us)\<rparr>"

subsection \<open>The adapter\<close>

text \<open>\<open>record_window\<close>: the microseconds as a \<open>u32\<close>, against the maximum.\<close>

definition record_window :: "nat \<Rightarrow> 'd dfu_flash \<Rightarrow> 'd dfu_flash" where
  "record_window us s = s\<lparr>max_window := max (max_window s) (of_nat us)\<rparr>"

definition max_window_us :: "'d dfu_flash \<Rightarrow> u32" where
  "max_window_us s = max_window s"

definition reset_max_window :: "'d dfu_flash \<Rightarrow> 'd dfu_flash" where
  "reset_max_window s = s\<lparr>max_window := 0\<rparr>"

text \<open>The common shape of \<open>read\<close>, \<open>write\<close> and one step of \<open>erase\<close>: feed, call, record.\<close>

definition flash_op :: "('d \<Rightarrow> 'd \<times> nat \<times> 'r) \<Rightarrow> 'd dfu_flash \<Rightarrow> 'd dfu_flash \<times> 'r" where
  "flash_op call s =
     (let s1 = feed_watchdog s;
          (d, us, result) = call (device s1)
      in (record_window us (elapse us (s1\<lparr>device := d\<rparr>)), result))"

definition dfu_read :: "('d, 'e) driver \<Rightarrow> 'd dfu_flash \<Rightarrow> u32 \<Rightarrow> nat \<Rightarrow> 'd dfu_flash \<times> ('e + bytes)" where
  "dfu_read D s offs n = flash_op (\<lambda>d. blocking_read D d offs n) s"

definition dfu_write :: "('d, 'e) driver \<Rightarrow> 'd dfu_flash \<Rightarrow> u32 \<Rightarrow> bytes \<Rightarrow> 'd dfu_flash \<times> ('e + unit)" where
  "dfu_write D s offs data = flash_op (\<lambda>d. blocking_write D d offs data) s"

text \<open>The erase loop. \<open>addr + page\<close> wraps in the model where the code's addition would; the
  result is \<open>None\<close> for a loop that does not end.\<close>

partial_function (option) erase_loop ::
    "('d, 'e) driver \<Rightarrow> 'd dfu_flash \<Rightarrow> u32 \<Rightarrow> u32 \<Rightarrow> ('d dfu_flash \<times> ('e + unit)) option" where
  "erase_loop D s addr to =
     (if addr < to then
        (let stop = min (addr + erase_size D) to in
         case flash_op (\<lambda>d. blocking_erase D d addr stop) s of
           (s1, Inl e) \<Rightarrow> Some (s1, Inl e)
         | (s1, Inr _) \<Rightarrow> erase_loop D s1 stop to)
      else Some (s, Inr ()))"

definition dfu_erase :: "('d, 'e) driver \<Rightarrow> 'd dfu_flash \<Rightarrow> u32 \<Rightarrow> u32 \<Rightarrow> ('d dfu_flash \<times> ('e + unit)) option" where
  "dfu_erase D s from_addr to =
     (if \<not> is_multiple_of from_addr (erase_size D) \<or> \<not> is_multiple_of to (erase_size D) then Some (s, Inl (unaligned D))
      else erase_loop D s from_addr to)"

subsection \<open>The updater\<close>

text \<open>\<open>Updater\<close> wraps the firmware updater of \<open>embassy_boot\<close>, which is outside the repository: a
  parameter with the operations that the wrapper calls. \<open>prepare_update\<close> returns a reference into
  the updater; its success is a unit here.\<close>

record ('u, 'st, 'e) firmware_updater =
  fu_get_state :: "'u \<Rightarrow> 'u \<times> ('e + 'st)"
  fu_prepare_update :: "'u \<Rightarrow> 'u \<times> ('e + unit)"
  fu_write_firmware :: "'u \<Rightarrow> nat \<Rightarrow> bytes \<Rightarrow> 'u \<times> ('e + unit)"
  fu_mark_updated :: "'u \<Rightarrow> 'u \<times> ('e + unit)"
  fu_mark_booted :: "'u \<Rightarrow> 'u \<times> ('e + unit)"
  fu_mark_dfu :: "'u \<Rightarrow> 'u \<times> ('e + unit)"

text \<open>\<open>Updater::new\<close> fills two static cells, each of which panics (\<open>None\<close>) when it is filled again: the
  flash adapter and the buffer of the firmware updater.\<close>

record 'd update_cells =
  flash_cell :: "'d dfu_flash option"
  aligned_cell :: "bytes option"

definition dfu_flash_new :: "'d \<Rightarrow> nat \<Rightarrow> nat option \<Rightarrow> 'd dfu_flash" where
  "dfu_flash_new d now watch = \<lparr>device = d, now_us = now, deadline = watch, expired = False, max_window = 0\<rparr>"

definition updater_new :: "'d dfu_flash \<Rightarrow> 'd update_cells \<Rightarrow> 'd update_cells option" where
  "updater_new flash cells =
     (case flash_cell cells of
        Some _ \<Rightarrow> None
      | None \<Rightarrow>
          (case aligned_cell cells of
             Some _ \<Rightarrow> None
           | None \<Rightarrow> Some \<lparr>flash_cell = Some flash, aligned_cell = Some (replicate ALIGNED_LEN 0)\<rparr>))"

lemma updater_new_once:
  "updater_new flash \<lparr>flash_cell = None, aligned_cell = None\<rparr> \<noteq> None"
  "updater_new flash cells = Some cells1 \<Longrightarrow> updater_new flash1 cells1 = None"
  by (auto simp: updater_new_def split: option.splits)

definition updater_get_state :: "('u, 'st, 'e) firmware_updater \<Rightarrow> 'u \<Rightarrow> 'u \<times> ('e + 'st)" where
  "updater_get_state U u = fu_get_state U u"

definition updater_prepare_update :: "('u, 'st, 'e) firmware_updater \<Rightarrow> 'u \<Rightarrow> 'u \<times> ('e + unit)" where
  "updater_prepare_update U u = fu_prepare_update U u"

definition updater_write_firmware ::
    "('u, 'st, 'e) firmware_updater \<Rightarrow> 'u \<Rightarrow> nat \<Rightarrow> bytes \<Rightarrow> 'u \<times> ('e + unit)" where
  "updater_write_firmware U u offs data = fu_write_firmware U u offs data"

definition updater_mark_updated :: "('u, 'st, 'e) firmware_updater \<Rightarrow> 'u \<Rightarrow> 'u \<times> ('e + unit)" where
  "updater_mark_updated U u = fu_mark_updated U u"

definition updater_mark_booted :: "('u, 'st, 'e) firmware_updater \<Rightarrow> 'u \<Rightarrow> 'u \<times> ('e + unit)" where
  "updater_mark_booted U u = fu_mark_booted U u"

definition updater_mark_dfu :: "('u, 'st, 'e) firmware_updater \<Rightarrow> 'u \<Rightarrow> 'u \<times> ('e + unit)" where
  "updater_mark_dfu U u = fu_mark_dfu U u"

text \<open>\<open>Updater\<close> as a \<open>Flasher\<close>: the calls are those of the wrapper, not of the trait.\<close>

definition updater_flasher :: "('u, 'st, 'e) firmware_updater \<Rightarrow> ('u, 'e) flasher" where
  "updater_flasher U = \<lparr>flash_write = updater_write_firmware U, flash_mark = updater_mark_updated U\<rparr>"

text \<open>Through the adapter an update session makes the updater's calls and no others.\<close>

lemma updater_flasher_calls [simp]:
  "flash_write (updater_flasher U) = fu_write_firmware U" "flash_mark (updater_flasher U) = fu_mark_updated U"
  by (auto simp: updater_flasher_def updater_write_firmware_def [abs_def] updater_mark_updated_def [abs_def])

subsection \<open>The feeder task\<close>

text \<open>What \<open>init\<close> logs of the last reset.\<close>

datatype reset_reason = Forced | TimedOut

definition reset_reason_text :: "reset_reason option \<Rightarrow> string" where
  "reset_reason_text r =
     (case r of Some Forced \<Rightarrow> ''watchdog-forced'' | Some TimedOut \<Rightarrow> ''watchdog-timeout''
      | None \<Rightarrow> ''power-on-or-debugger'')"

definition FEED_PERIOD_US :: nat where "FEED_PERIOD_US = 500000"

text \<open>One turn of \<open>feeder_task\<close>; the timer fires \<open>late\<close> microseconds after the period.\<close>

definition feeder_turn :: "'d dfu_flash \<Rightarrow> nat \<Rightarrow> 'd dfu_flash \<times> unit" where
  "feeder_turn s late = (elapse (FEED_PERIOD_US + late) (feed_watchdog s), ())"

text \<open>Once armed, the watchdog fires exactly when the executor holds the feeder up for more than
  the rest of the 8 seconds.\<close>

lemma feeder_keeps_alive:
  assumes "deadline s \<noteq> None"
  shows "expired (final feeder_turn s lates) \<longleftrightarrow>
    expired s \<or> list_ex (\<lambda>late. TIMEOUT_US < FEED_PERIOD_US + late) lates"
  using assms
proof (induction lates arbitrary: s)
  case Nil
  show ?case by simp
next
  case (Cons late lates)
  then obtain t where "deadline s = Some t" by blast
  with Cons.IH [of "fst (feeder_turn s late)"] show ?case
    by (auto simp: feeder_turn_def feed_watchdog_def elapse_def)
qed

subsection \<open>Erasing\<close>

text \<open>A driver whose erase calls are logged, with the time each took.\<close>

definition logged_driver :: "('d, 'e) driver \<Rightarrow> ('d \<times> (u32 \<times> u32 \<times> nat) list, 'e) driver" where
  "logged_driver D =
     \<lparr>blocking_read = (\<lambda>(d, log) offs n.
        case blocking_read D d offs n of (d1, us, r) \<Rightarrow> ((d1, log), us, r)),
      blocking_erase = (\<lambda>(d, log) a b.
        case blocking_erase D d a b of (d1, us, r) \<Rightarrow> ((d1, log @ [(a, b, us)]), us, r)),
      blocking_write = (\<lambda>(d, log) offs data.
        case blocking_write D d offs data of (d1, us, r) \<Rightarrow> ((d1, log), us, r)),
      unaligned = unaligned D, erase_size = erase_size D\<rparr>"

lemma logged_driver_simps [simp]:
  "unaligned (logged_driver D) = unaligned D" "erase_size (logged_driver D) = erase_size D"
  by (simp_all add: logged_driver_def)

text \<open>The pages of a range, in order.\<close>

definition pages :: "u32 \<Rightarrow> u32 \<Rightarrow> (u32 \<times> u32) list" where
  "pages a b = map (\<lambda>k. (of_nat (unat a + 4096 * k), of_nat (unat a + 4096 * Suc k)))
     [0..<(unat b - unat a) div 4096]"

definition spans :: "(u32 \<times> u32 \<times> nat) list \<Rightarrow> (u32 \<times> u32) list" where
  "spans log = map (\<lambda>(a, b, us). (a, b)) log"

definition slow :: "(u32 \<times> u32 \<times> nat) list \<Rightarrow> bool" where
  "slow log \<longleftrightarrow> list_ex (\<lambda>(a, b, us). TIMEOUT_US < us) log"

lemma erase_op:
  assumes "flash_op (\<lambda>d. blocking_erase (logged_driver D) d a b) s = (s1, r)" and "device s = (d, log)"
  shows "\<exists>d1 us. device s1 = (d1, log @ [(a, b, us)]) \<and>
    (expired s1 \<longrightarrow> expired s \<or> TIMEOUT_US < us) \<and> (deadline s1 = None \<longleftrightarrow> deadline s = None)"
  using assms
  by (cases "deadline s"; cases "blocking_erase D d a b")
    (auto simp: flash_op_def logged_driver_def feed_watchdog_def elapse_def record_window_def Let_def)

lemma pages_Cons:
  assumes "unat b = unat a + 4096 * Suc n"
  shows "unat (a + 4096) = unat a + 4096" and "pages a b = (a, a + 4096) # pages (a + 4096) b"
proof -
  have "unat b < 2 ^ 32" using unsigned_less [of b, where ?'a = nat] by simp
  with assms have "unat a + unat (4096 :: u32) < 2 ^ 32" by simp
  then show 1: "unat (a + 4096) = unat a + 4096"
    using unat_plus_nowrap [of a 4096] by simp
  have "(unat b - unat a) div 4096 = Suc n" "(unat b - unat (a + 4096)) div 4096 = n"
    using assms 1 by simp_all
  then show "pages a b = (a, a + 4096) # pages (a + 4096) b"
    unfolding pages_def 1 by (simp add: upt_conv_Cons map_Suc_upt [symmetric] comp_def ac_simps del: upt_Suc)
qed

lemma erase_loop_result:
  assumes "erase_size D = 4096" and "unat to = unat addr + 4096 * n" and "device s = (d, log)"
  shows "\<exists>s1 r d1 more. erase_loop (logged_driver D) s addr to = Some (s1, r) \<and>
    device s1 = (d1, log @ more) \<and>
    (case r of Inr _ \<Rightarrow> spans more = pages addr to
     | Inl _ \<Rightarrow> more \<noteq> [] \<and> spans more = take (length more) (pages addr to)) \<and>
    (expired s1 \<longrightarrow> expired s \<or> slow more)"
  using assms(2,3)
proof (induction n arbitrary: addr s d log)
  case 0
  then have "\<not> addr < to" by (simp add: word_less_nat_alt)
  with 0 show ?case
    by (intro exI [of _ s] exI [of _ "Inr ()"] exI [of _ d] exI [of _ "[]"])
      (simp add: erase_loop.simps [of _ s] pages_def spans_def)
next
  case (Suc n)
  note P = pages_Cons [OF Suc.prems(1)]
  have less: "addr < to" using Suc.prems(1) by (simp add: word_less_nat_alt)
  have stop: "min (addr + 4096) to = addr + 4096"
    using Suc.prems(1) P(1) by (simp add: min_def word_le_nat_alt)
  obtain s1 r where op: "flash_op (\<lambda>d. blocking_erase (logged_driver D) d addr (addr + 4096)) s = (s1, r)"
    by (metis surj_pair)
  from erase_op [OF op Suc.prems(2)] obtain d1 us where
    s1: "device s1 = (d1, log @ [(addr, addr + 4096, us)])" "expired s1 \<longrightarrow> expired s \<or> TIMEOUT_US < us" by blast
  show ?case
  proof (cases r)
    case (Inl e)
    with op less stop have "erase_loop (logged_driver D) s addr to = Some (s1, Inl e)"
      by (simp add: erase_loop.simps [of _ s] assms(1))
    with s1 P(2) show ?thesis
      by (intro exI [of _ s1] exI [of _ "Inl e"] exI [of _ d1] exI [of _ "[(addr, addr + 4096, us)]"])
        (simp add: spans_def slow_def)
  next
    case (Inr x)
    have "unat to = unat (addr + 4096) + 4096 * n" using Suc.prems(1) P(1) by simp
    from Suc.IH [OF this s1(1)] obtain s2 r2 d2 more where IH:
        "erase_loop (logged_driver D) s1 (addr + 4096) to = Some (s2, r2)"
        "device s2 = (d2, (log @ [(addr, addr + 4096, us)]) @ more)"
        "case r2 of Inr _ \<Rightarrow> spans more = pages (addr + 4096) to
         | Inl _ \<Rightarrow> more \<noteq> [] \<and> spans more = take (length more) (pages (addr + 4096) to)"
        "expired s2 \<longrightarrow> expired s1 \<or> slow more" by blast
    have "erase_loop (logged_driver D) s addr to = Some (s2, r2)"
      using op less stop Inr IH(1) by (simp add: erase_loop.simps [of _ s] assms(1))
    with IH s1(2) P(2) show ?thesis
      by (intro exI [of _ s2] exI [of _ r2] exI [of _ d2] exI [of _ "(addr, addr + 4096, us) # more"])
        (auto simp: spans_def slow_def split: sum.splits)
  qed
qed

lemma erase_aligned:
  "is_multiple_of a 4096 \<longleftrightarrow> 4096 dvd unat (a :: u32)"
  by (simp add: is_multiple_of_def dvd_eq_mod_eq_0 unat_eq_zero [symmetric] unat_mod del: unat_eq_zero)

lemma erase_result:
  assumes "erase_size D = 4096" and "device s = (d, [])"
  shows "\<exists>s1 r d1 log. dfu_erase (logged_driver D) s a b = Some (s1, r) \<and> device s1 = (d1, log) \<and>
    (if 4096 dvd unat a \<and> 4096 dvd unat b
     then (case r of Inr _ \<Rightarrow> spans log = pages a b
           | Inl _ \<Rightarrow> log \<noteq> [] \<and> spans log = take (length log) (pages a b))
     else r = Inl (unaligned D) \<and> log = []) \<and>
    (expired s1 \<longrightarrow> expired s \<or> slow log)"
proof (cases "4096 dvd unat a \<and> 4096 dvd unat b")
  case False
  then show ?thesis using assms by (simp add: dfu_erase_def erase_aligned)
next
  case aligned: True
  then have loop: "dfu_erase (logged_driver D) s a b = erase_loop (logged_driver D) s a b"
    using assms(1) by (simp add: dfu_erase_def erase_aligned)
  show ?thesis
  proof (cases "unat a \<le> unat b")
    case True
    then obtain n where "unat b = unat a + 4096 * n"
      using aligned by (metis dvd_diff_nat dvdE le_add_diff_inverse)
    from erase_loop_result [OF assms(1) this assms(2)] aligned show ?thesis
      unfolding loop by simp
  next
    case False
    then show ?thesis
      unfolding loop using aligned assms(2)
      by (simp add: erase_loop.simps [of _ s] word_less_nat_alt pages_def spans_def)
  qed
qed

subsection \<open>Properties\<close>

text \<open>
  C38: erasing always ends, and erases what it was asked to: a range that is not page aligned is
  refused before the flash is touched, and otherwise the driver is called for the pages of the
  range, each once and in order, up to the first failure, with the watchdog fed before each.
  So a range of any length lets no deadline pass, unless a single page takes more than 8 s.
\<close>

theorem erase_exact:
  assumes "erase_size D = 4096" and "device s = (d, [])"
  shows "\<exists>s1 r d1 log. dfu_erase (logged_driver D) s a b = Some (s1, r) \<and> device s1 = (d1, log) \<and>
    (if 4096 dvd unat a \<and> 4096 dvd unat b
     then (case r of Inr _ \<Rightarrow> spans log = pages a b
           | Inl _ \<Rightarrow> log \<noteq> [] \<and> spans log = take (length log) (pages a b))
     else r = Inl (unaligned D) \<and> log = []) \<and>
    (expired s1 \<longrightarrow> expired s \<or> slow log)"
  by (rule erase_result [OF assms])

definition quick_driver :: "(unit, unit) driver" where
  "quick_driver = \<lparr>blocking_read = (\<lambda>d _ n. (d, 10, Inr (replicate n 0xFF))),
     blocking_erase = (\<lambda>d _ _. (d, 45000, Inr ())), blocking_write = (\<lambda>d _ _. (d, 700, Inr ())),
     unaligned = (), erase_size = 4096\<rparr>"

definition armed :: "(unit \<times> (u32 \<times> u32 \<times> nat) list) dfu_flash" where
  "armed = watchdog_init \<lparr>device = ((), []), now_us = 0, deadline = None, expired = False, max_window = 0\<rparr>"

theorem erase_exact_witness:
  "erase_size quick_driver = 4096 \<and> device armed = ((), []) \<and>
   (\<exists>s1 r d1 log. dfu_erase (logged_driver quick_driver) armed 0xC9000 0xCB000 = Some (s1, r) \<and>
     device s1 = (d1, log) \<and>
     (if 4096 dvd unat (0xC9000 :: u32) \<and> 4096 dvd unat (0xCB000 :: u32)
      then (case r of Inr _ \<Rightarrow> spans log = pages 0xC9000 0xCB000
            | Inl _ \<Rightarrow> log \<noteq> [] \<and> spans log = take (length log) (pages 0xC9000 0xCB000))
      else r = Inl (unaligned quick_driver) \<and> log = []) \<and>
     (expired s1 \<longrightarrow> expired armed \<or> slow log))"
proof -
  have h: "erase_size quick_driver = 4096" "device armed = ((), [])"
    by (simp_all add: quick_driver_def armed_def watchdog_init_def)
  from erase_exact [OF h] h show ?thesis by blast
qed

end
