(* ===== verification/Memory_X.thy ===== *)
theory Memory_X
  imports Flash_Layout "HOL-Library.Char_ord"
begin

text \<open>
  The build-time check of the linker's memory map, \<open>bootloader/build.rs\<close>: parsing \<open>memory.x\<close> and
  validating it, over strings of ASCII characters. A panic of the build script is the left side
  of the result. Its arithmetic follows the profile that it is compiled with: \<open>chk\<close> says that overflow checks are on,
  as in the workspace's \<open>dev\<close> profile; the \<open>release\<close> profile has them off, and there an overflow wraps. The two memory
  maps of the repository are at the end, with the theorem that they agree with the layout of \<open>core/src/flash.rs\<close>.
\<close>

datatype build_panic =
    No_Memory_Block | Bad_Term | Arithmetic_Overflow | Missing_Region string | Past_Flash_End string
  | Origin_Unaligned string | Length_Unaligned string | Dfu_Origin | Dfu_Length
  | Overlap string string | Missing_Symbol string | Absolute_Symbol string

subsection \<open>Strings\<close>

abbreviation newline :: char where "newline \<equiv> CHR 0x0A"

text \<open>\<open>char::is_whitespace\<close> on ASCII, and \<open>str::trim\<close>.\<close>

definition is_space :: "char \<Rightarrow> bool" where
  "is_space c \<longleftrightarrow> c = CHR 0x20 \<or> c = CHR 0x09 \<or> c = newline \<or> c = CHR 0x0B \<or> c = CHR 0x0C \<or> c = CHR 0x0D"

definition trim :: "string \<Rightarrow> string" where
  "trim s = rev (dropWhile is_space (rev (dropWhile is_space s)))"

text \<open>\<open>str::lines\<close>: no empty line after a final newline, and no carriage return at an end.\<close>

definition str_lines :: "string \<Rightarrow> string list" where
  "str_lines s =
     (let ls = split_on newline s;
          whole = (if last ls = [] then butlast ls else ls)
      in map (\<lambda>l. if l \<noteq> [] \<and> last l = CHR 0x0D then butlast l else l) whole)"

definition contains :: "string \<Rightarrow> string \<Rightarrow> bool" where
  "contains s pat \<longleftrightarrow> split_once pat s \<noteq> None"

subsection \<open>Comments\<close>

fun skip_block :: "string \<Rightarrow> string" where
  "skip_block [] = []"
| "skip_block (c # cs) =
     (if c = CHR ''*'' \<and> starts_with cs ''/'' then tl cs else skip_block cs)"

fun skip_line :: "string \<Rightarrow> bool \<times> string" where
  "skip_line [] = (False, [])"
| "skip_line (c # cs) = (if c = newline then (True, cs) else skip_line cs)"

text \<open>For evaluation: the rest is looked at only after a star or a slash.\<close>

lemma skip_block_code [code]:
  "skip_block [] = []"
  "skip_block (c # cs) =
     (if c = CHR ''*'' then
        (case cs of [] \<Rightarrow> [] | d # ds \<Rightarrow> if d = CHR ''/'' then ds else skip_block cs)
      else skip_block cs)"
  by (auto simp: starts_with_code split: list.split)

lemma length_skip_block: "length (skip_block cs) \<le> length cs"
  by (induction cs) auto

lemma length_skip_line: "length (snd (skip_line cs)) \<le> length cs"
  by (induction cs) auto

function strip_comments :: "string \<Rightarrow> string" where
  "strip_comments [] = []"
| "strip_comments (c # cs) =
     (if c = CHR ''/'' \<and> starts_with cs ''*'' then strip_comments (skip_block (tl cs))
      else if c = CHR ''/'' \<and> starts_with cs ''/'' then
        (if fst (skip_line cs) then newline # strip_comments (snd (skip_line cs))
         else strip_comments (snd (skip_line cs)))
      else c # strip_comments cs)"
  by pat_completeness auto
termination
  by (relation "measure length")
    (auto simp: less_Suc_eq_le length_skip_line intro: le_trans [OF length_skip_block])

lemma strip_comments_code [code]:
  "strip_comments [] = []"
  "strip_comments (c # cs) =
     (if c = CHR ''/'' then
        (case cs of
           [] \<Rightarrow> [c]
         | d # ds \<Rightarrow>
             if d = CHR ''*'' then strip_comments (skip_block ds)
             else if d = CHR ''/'' then
               (case skip_line cs of
                  (True, rest) \<Rightarrow> newline # strip_comments rest
                | (False, rest) \<Rightarrow> strip_comments rest)
             else c # strip_comments cs)
      else c # strip_comments cs)"
  by (auto simp: starts_with_code split: list.split prod.split bool.split)

subsection \<open>Numbers\<close>

definition digit_of :: "char \<Rightarrow> int option" where
  "digit_of c =
     (if CHR ''0'' \<le> c \<and> c \<le> CHR ''9'' then Some (of_char c - 48)
      else if CHR ''a'' \<le> c \<and> c \<le> CHR ''z'' then Some (of_char c - 87)
      else if CHR ''A'' \<le> c \<and> c \<le> CHR ''Z'' then Some (of_char c - 55)
      else None)"

definition in_i64 :: "int \<Rightarrow> bool" where
  "in_i64 n \<longleftrightarrow> - (2 ^ 63) \<le> n \<and> n < 2 ^ 63"

text \<open>The results of an operation on \<open>i64\<close> and of an addition on \<open>u32\<close>.\<close>

definition i64 :: "bool \<Rightarrow> int \<Rightarrow> build_panic + int" where
  "i64 chk n =
     (if in_i64 n then Inr n
      else if chk then Inl Arithmetic_Overflow
      else Inr ((n + 2 ^ 63) mod 2 ^ 64 - 2 ^ 63))"

definition add_u32 :: "bool \<Rightarrow> u32 \<Rightarrow> u32 \<Rightarrow> build_panic + u32" where
  "add_u32 chk a b =
     (case checked_add a b of
        Some c \<Rightarrow> Inr c
      | None \<Rightarrow> if chk then Inl Arithmetic_Overflow else Inr (a + b))"

fun radix_value :: "int \<Rightarrow> int \<Rightarrow> string \<Rightarrow> int option" where
  "radix_value radix n [] = Some n"
| "radix_value radix n (c # cs) =
     (case digit_of c of
        Some d \<Rightarrow> if d < radix then radix_value radix (n * radix + d) cs else None
      | None \<Rightarrow> None)"

text \<open>\<open>i64::from_str_radix\<close>: a sign, digits, and a value in range; \<open>Bad_Term\<close> is its error, which
  the script expects not to see.\<close>

definition from_str_radix :: "string \<Rightarrow> int \<Rightarrow> build_panic + int" where
  "from_str_radix s radix =
     (let (sign, ds) =
        (if starts_with s ''+'' then (1, tl s) else if starts_with s ''-'' then (- 1, tl s) else (1, s))
      in if ds = [] then Inl Bad_Term
         else case radix_value radix 0 ds of
           None \<Rightarrow> Inl Bad_Term
         | Some n \<Rightarrow> if in_i64 (sign * n) then Inr (sign * n) else Inl Bad_Term)"

definition parse_term :: "bool \<Rightarrow> string \<Rightarrow> build_panic + int" where
  "parse_term chk term =
     (let (digits, scale) =
        (if term \<noteq> [] \<and> (last term = CHR ''K'' \<or> last term = CHR ''k'') then (butlast term, 1024)
         else if term \<noteq> [] \<and> (last term = CHR ''M'' \<or> last term = CHR ''m'') then (butlast term, 1024 * 1024)
         else (term, 1));
          val = (if starts_with digits ''0x'' \<or> starts_with digits ''0X''
            then from_str_radix (trim (drop 2 digits)) 16 else from_str_radix (trim digits) 10)
      in case val of Inl e \<Rightarrow> Inl e | Inr n \<Rightarrow> i64 chk (n * scale))"

text \<open>The loop of \<open>eval_expr\<close>, which the code runs with a plus sign after the text.\<close>

fun eval_loop :: "bool \<Rightarrow> int \<Rightarrow> int \<Rightarrow> string \<Rightarrow> string \<Rightarrow> build_panic + int" where
  "eval_loop chk tot sign term [] = Inr tot"
| "eval_loop chk tot sign term (c # cs) =
     (if c = CHR ''+'' \<or> c = CHR ''-'' then
        (let sign1 = (if c = CHR ''-'' then - 1 else 1) in
         if trim term \<noteq> [] then
           (case parse_term chk (trim term) of
              Inl e \<Rightarrow> Inl e
            | Inr n \<Rightarrow>
                (case i64 chk (sign * n) of
                   Inl e \<Rightarrow> Inl e
                 | Inr m \<Rightarrow>
                     (case i64 chk (tot + m) of
                        Inl e \<Rightarrow> Inl e
                      | Inr tot1 \<Rightarrow> eval_loop chk tot1 sign1 [] cs)))
         else eval_loop chk tot sign1 term cs)
      else eval_loop chk tot sign (term @ [c]) cs)"

definition eval_expr :: "bool \<Rightarrow> string \<Rightarrow> build_panic + u32" where
  "eval_expr chk expr = map_sum id word_of_int (eval_loop chk 0 1 [] (expr @ ''+''))"

subsection \<open>Regions\<close>

record region =
  origin :: u32
  len :: u32

definition value_after :: "bool \<Rightarrow> string \<Rightarrow> string \<Rightarrow> build_panic + u32 option" where
  "value_after chk rest key =
     (case split_once key rest of
        None \<Rightarrow> Inr None
      | Some (_, r1) \<Rightarrow>
          (case split_once ''='' r1 of
             None \<Rightarrow> Inr None
           | Some (_, r2) \<Rightarrow> map_sum id Some (eval_expr chk (hd (split_on (CHR '','') r2)))))"

text \<open>A line of the \<open>MEMORY\<close> block; \<open>None\<close> is a line that is skipped.\<close>

definition parse_line :: "bool \<Rightarrow> string \<Rightarrow> build_panic + (string \<times> region) option" where
  "parse_line chk l =
     (case split_once '':'' l of
        None \<Rightarrow> Inr None
      | Some (before, rest) \<Rightarrow>
          if trim before = [] then Inr None
          else case value_after chk rest ''ORIGIN'' of
            Inl e \<Rightarrow> Inl e
          | Inr None \<Rightarrow> Inr None
          | Inr (Some org) \<Rightarrow>
              (case value_after chk rest ''LENGTH'' of
                 Inl e \<Rightarrow> Inl e
               | Inr None \<Rightarrow> Inr None
               | Inr (Some n) \<Rightarrow> Inr (Some (trim before, \<lparr>origin = org, len = n\<rparr>))))"

type_synonym regions = "(string \<times> region) list"

text \<open>The hash map, as an association list whose front entry counts.\<close>

fun parse_lines :: "bool \<Rightarrow> regions \<Rightarrow> string list \<Rightarrow> build_panic + regions" where
  "parse_lines chk rs [] = Inr rs"
| "parse_lines chk rs (l # ls) =
     (case parse_line chk l of
        Inl e \<Rightarrow> Inl e
      | Inr None \<Rightarrow> parse_lines chk rs ls
      | Inr (Some r) \<Rightarrow> parse_lines chk (r # rs) ls)"

definition parse_memory_x :: "bool \<Rightarrow> string \<Rightarrow> build_panic + regions" where
  "parse_memory_x chk text =
     (case split_once ''MEMORY'' (strip_comments text) of
        None \<Rightarrow> Inl No_Memory_Block
      | Some (_, r1) \<Rightarrow>
          (case split_once ''{'' r1 of
             None \<Rightarrow> Inl No_Memory_Block
           | Some (_, r2) \<Rightarrow>
               (case split_once ''}'' r2 of
                  None \<Rightarrow> Inl No_Memory_Block
                | Some (body, _) \<Rightarrow> parse_lines chk [] (str_lines body))))"

subsection \<open>Validation\<close>

definition PARTITIONS :: "string list" where
  "PARTITIONS = [''BOOT2'', ''FLASH'', ''ACTIVE'', ''DFU'', ''STATE'']"

definition SYMBOLS :: "string list" where
  "SYMBOLS = [''__bootloader_state_start'', ''__bootloader_state_end'', ''__bootloader_active_start'',
     ''__bootloader_active_end'', ''__bootloader_dfu_start'', ''__bootloader_dfu_end'']"

text \<open>A loop of checks stops at the first panic.\<close>

fun check_each :: "('a \<Rightarrow> build_panic + unit) \<Rightarrow> 'a list \<Rightarrow> build_panic + unit" where
  "check_each f [] = Inr ()"
| "check_each f (x # xs) = (case f x of Inl e \<Rightarrow> Inl e | Inr _ \<Rightarrow> check_each f xs)"

definition require :: "bool \<Rightarrow> build_panic \<Rightarrow> build_panic + unit" where
  "require b e = (if b then Inr () else Inl e)"

definition region_of :: "regions \<Rightarrow> string \<Rightarrow> build_panic + region" where
  "region_of rs name = (case map_of rs name of Some r \<Rightarrow> Inr r | None \<Rightarrow> Inl (Missing_Region name))"

definition end_of :: "bool \<Rightarrow> region \<Rightarrow> build_panic + u32" where
  "end_of chk r = add_u32 chk (origin r) (len r)"

definition validate_partitions_present :: "regions \<Rightarrow> build_panic + unit" where
  "validate_partitions_present rs =
     check_each (\<lambda>name. require (map_of rs name \<noteq> None) (Missing_Region name)) PARTITIONS"

definition and_then :: "'e + 'a \<Rightarrow> ('a \<Rightarrow> 'e + 'b) \<Rightarrow> 'e + 'b" where
  "and_then m f = (case m of Inl e \<Rightarrow> Inl e | Inr x \<Rightarrow> f x)"

definition validate_within_flash :: "bool \<Rightarrow> regions \<Rightarrow> build_panic + unit" where
  "validate_within_flash chk rs =
     check_each (\<lambda>name.
       and_then (region_of rs name) (\<lambda>r.
       and_then (end_of chk r) (\<lambda>e. require (\<not> FLASH_END < e) (Past_Flash_End name)))) PARTITIONS"

definition validate_page_alignment :: "regions \<Rightarrow> build_panic + unit" where
  "validate_page_alignment rs =
     check_each (\<lambda>name.
       and_then (region_of rs name) (\<lambda>r.
       and_then (require (is_multiple_of (origin r) PAGE_BYTES) (Origin_Unaligned name)) (\<lambda>_.
       require (is_multiple_of (len r) PAGE_BYTES) (Length_Unaligned name))))
       [''ACTIVE'', ''DFU'', ''STATE'']"

definition validate_dfu_layout :: "bool \<Rightarrow> regions \<Rightarrow> build_panic + unit" where
  "validate_dfu_layout chk rs =
     and_then (region_of rs ''ACTIVE'') (\<lambda>active.
     and_then (region_of rs ''DFU'') (\<lambda>dfu.
     and_then (end_of chk active) (\<lambda>e.
     and_then (require (origin dfu = e) Dfu_Origin) (\<lambda>_.
     and_then (add_u32 chk (len active) PAGE_BYTES) (\<lambda>n.
     require (len dfu = n) Dfu_Length)))))"

fun region_list :: "regions \<Rightarrow> string list \<Rightarrow> build_panic + (string \<times> region) list" where
  "region_list rs [] = Inr []"
| "region_list rs (name # names) =
     and_then (region_of rs name) (\<lambda>r. map_sum id ((#) (name, r)) (region_list rs names))"

definition validate_no_overlap :: "bool \<Rightarrow> regions \<Rightarrow> build_panic + unit" where
  "validate_no_overlap chk rs =
     and_then (region_list rs PARTITIONS) (\<lambda>xs.
       let ordered = sort_key (\<lambda>x. unat (origin (snd x))) xs in
       check_each (\<lambda>(a, b).
         and_then (end_of chk (snd a)) (\<lambda>e. require (\<not> origin (snd b) < e) (Overlap (fst a) (fst b))))
         (zip ordered (tl ordered)))"

definition validate_symbols :: "string \<Rightarrow> build_panic + unit" where
  "validate_symbols text =
     and_then (check_each (\<lambda>s. require (contains text s) (Missing_Symbol s)) SYMBOLS) (\<lambda>_.
       check_each (\<lambda>l.
         require (\<not> (starts_with (trim l) ''__bootloader_'' \<and> \<not> contains (trim l) ''ORIGIN('')) (Absolute_Symbol (trim l)))
         (str_lines text))"

definition validate :: "bool \<Rightarrow> string \<Rightarrow> build_panic + unit" where
  "validate chk text =
     and_then (parse_memory_x chk text) (\<lambda>rs.
     and_then (validate_partitions_present rs) (\<lambda>_.
     and_then (validate_within_flash chk rs) (\<lambda>_.
     and_then (validate_page_alignment rs) (\<lambda>_.
     and_then (validate_dfu_layout chk rs) (\<lambda>_.
     and_then (validate_no_overlap chk rs) (\<lambda>_.
     validate_symbols text))))))"

subsection \<open>A validated map\<close>

definition span :: "region \<Rightarrow> nat set" where
  "span r = {unat (origin r)..<unat (origin r) + unat (len r)}"

definition well_formed_map :: "regions \<Rightarrow> bool" where
  "well_formed_map rs \<longleftrightarrow>
     (\<exists>r. (\<forall>n \<in> set PARTITIONS. map_of rs n = Some (r n) \<and>
         unat (origin (r n)) + unat (len (r n)) \<le> unat FLASH_END) \<and>
       (\<forall>n \<in> {''ACTIVE'', ''DFU'', ''STATE''}. 4096 dvd unat (origin (r n)) \<and> 4096 dvd unat (len (r n))) \<and>
       unat (origin (r ''DFU'')) = unat (origin (r ''ACTIVE'')) + unat (len (r ''ACTIVE'')) \<and>
       unat (len (r ''DFU'')) = unat (len (r ''ACTIVE'')) + 4096 \<and>
       (\<forall>a \<in> set PARTITIONS. \<forall>b \<in> set PARTITIONS. a \<noteq> b \<longrightarrow> span (r a) \<inter> span (r b) = {}))"

lemma check_each_iff: "check_each f xs = Inr () \<longleftrightarrow> (\<forall>x \<in> set xs. f x = Inr ())"
  by (induction xs) (auto split: sum.splits)

lemma and_then_Inr: "and_then m f = Inr y \<longleftrightarrow> (\<exists>x. m = Inr x \<and> f x = Inr y)"
  by (auto simp: and_then_def split: sum.splits)

lemma require_Inr [simp]: "require b e = Inr x \<longleftrightarrow> b"
  by (simp add: require_def)

lemma region_of_Inr [simp]: "region_of rs name = Inr r \<longleftrightarrow> map_of rs name = Some r"
  by (auto simp: region_of_def split: option.splits)

text \<open>Without the checks, a region that runs past the 32 bits has its end at the bottom of memory.\<close>

definition fits_u32 :: "region \<Rightarrow> bool" where
  "fits_u32 r \<longleftrightarrow> unat (origin r) + unat (len r) < 2 ^ 32"

definition no_wrap :: "bool \<Rightarrow> regions \<Rightarrow> bool" where
  "no_wrap chk rs \<longleftrightarrow>
     chk \<or> list_all (\<lambda>n. case map_of rs n of Some r \<Rightarrow> fits_u32 r | None \<Rightarrow> True) PARTITIONS"

lemma add_u32_Inr:
  "add_u32 chk a b = Inr c \<longleftrightarrow> (chk \<longrightarrow> unat a + unat b < 2 ^ 32) \<and> c = a + b"
  by (auto simp: add_u32_def checked_add_def)

lemma end_of_nat:
  "end_of chk r = Inr e \<Longrightarrow> chk \<or> fits_u32 r \<Longrightarrow> unat e = unat (origin r) + unat (len r)"
  by (auto simp: end_of_def add_u32_Inr fits_u32_def intro: unat_plus_nowrap)

lemma no_wrap_fits:
  "no_wrap chk rs \<Longrightarrow> n \<in> set PARTITIONS \<Longrightarrow> map_of rs n = Some r \<Longrightarrow> chk \<or> fits_u32 r"
  by (fastforce simp: no_wrap_def list_all_iff)

lemma is_multiple_nat: "is_multiple_of a PAGE_BYTES \<longleftrightarrow> 4096 dvd unat a"
  by (simp add: is_multiple_of_def PAGE_BYTES_def dvd_eq_mod_eq_0 unat_eq_zero [symmetric] unat_mod
      del: unat_eq_zero)

lemma region_list_Inr:
  "region_list rs names = Inr xs \<Longrightarrow> (\<And>n. n \<in> set names \<Longrightarrow> map_of rs n = Some (r n)) \<Longrightarrow>
     xs = map (\<lambda>n. (n, r n)) names"
proof (induction names arbitrary: xs)
  case Nil
  then show ?case by simp
next
  case (Cons n names)
  then have "map_of rs n = Some (r n)" by simp
  moreover obtain ys where "region_list rs names = Inr ys"
    using Cons.prems(1) by (auto simp: and_then_Inr map_sum_def split: sum.splits)
  ultimately show ?case using Cons by (auto simp: and_then_Inr)
qed

text \<open>Neighbours in a list sorted by origin that do not overlap: then nothing does.\<close>

definition before :: "string \<times> region \<Rightarrow> string \<times> region \<Rightarrow> bool" where
  "before x y \<longleftrightarrow> unat (origin (snd x)) + unat (len (snd x)) \<le> unat (origin (snd y))"

lemma before_chain:
  assumes "\<And>x y. (x, y) \<in> set (zip xs (tl xs)) \<Longrightarrow> before x y"
  shows "sorted_wrt before xs"
proof -
  have "transp before" by (rule transpI) (auto simp: before_def)
  moreover have "before (xs ! i) (xs ! Suc i)" if "Suc i < length xs" for i
  proof (rule assms)
    have "(xs ! i, tl xs ! i) \<in> set (zip xs (tl xs))"
      using that by (auto simp: set_zip intro!: exI [of _ i])
    then show "(xs ! i, xs ! Suc i) \<in> set (zip xs (tl xs))" using that by (simp add: nth_tl)
  qed
  ultimately show ?thesis by (simp add: sorted_wrt_iff_nth_Suc_transp)
qed

lemma before_disjoint: "before x y \<Longrightarrow> span (snd x) \<inter> span (snd y) = {}"
  by (auto simp: before_def span_def)

lemma sorted_disjoint:
  assumes "sorted_wrt before xs" and "x \<in> set xs" and "y \<in> set xs" and "x \<noteq> y"
  shows "span (snd x) \<inter> span (snd y) = {}"
proof -
  obtain i j where ij: "i < length xs" "xs ! i = x" "j < length xs" "xs ! j = y"
    using assms(2,3) by (meson in_set_conv_nth)
  then consider "i < j" | "j < i" using assms(4) by (metis linorder_neqE_nat)
  then show ?thesis
  proof cases
    case 1
    then have "before x y" using assms(1) ij sorted_wrt_nth_less by metis
    then show ?thesis by (rule before_disjoint)
  next
    case 2
    then have "before y x" using assms(1) ij sorted_wrt_nth_less by metis
    then show ?thesis using before_disjoint by blast
  qed
qed

lemma no_overlap_disjoint:
  assumes "validate_no_overlap chk rs = Inr ()" and "\<And>n. n \<in> set PARTITIONS \<Longrightarrow> map_of rs n = Some (r n)"
    and "a \<in> set PARTITIONS" and "b \<in> set PARTITIONS" and "a \<noteq> b" and "no_wrap chk rs"
  shows "span (r a) \<inter> span (r b) = {}"
proof -
  obtain xs where xs: "region_list rs PARTITIONS = Inr xs"
    using assms(1) by (auto simp: validate_no_overlap_def and_then_Inr)
  have x: "xs = map (\<lambda>n. (n, r n)) PARTITIONS" by (rule region_list_Inr [OF xs assms(2)])
  let ?o = "sort_key (\<lambda>x. unat (origin (snd x))) xs"
  have "before p q" if "(p, q) \<in> set (zip ?o (tl ?o))" for p q
  proof -
    have "\<exists>e. end_of chk (snd p) = Inr e \<and> \<not> origin (snd q) < e"
      using assms(1) that xs
      by (auto simp: validate_no_overlap_def and_then_Inr check_each_iff Let_def)
    moreover have "p \<in> set ?o" using that by (auto dest: set_zip_leftD)
    then have "chk \<or> fits_u32 (snd p)" using x no_wrap_fits [OF assms(6) _ assms(2)] by fastforce
    ultimately show ?thesis by (auto simp: before_def not_less word_le_nat_alt dest: end_of_nat)
  qed
  then have "sorted_wrt before ?o" by (rule before_chain)
  moreover have "(a, r a) \<in> set ?o" "(b, r b) \<in> set ?o" using x assms(3,4) by auto
  ultimately show ?thesis using sorted_disjoint [of ?o "(a, r a)" "(b, r b)"] assms(5) by simp
qed

lemma validated:
  assumes "validate chk text = Inr ()"
  shows "\<exists>rs. parse_memory_x chk text = Inr rs \<and> list_all (\<lambda>n. map_of rs n \<noteq> None) PARTITIONS \<and>
    list_all (contains text) SYMBOLS \<and> (no_wrap chk rs \<longrightarrow> well_formed_map rs)"
proof -
  obtain rs where rs: "parse_memory_x chk text = Inr rs" and present: "validate_partitions_present rs = Inr ()"
      and inside: "validate_within_flash chk rs = Inr ()" and aligned: "validate_page_alignment rs = Inr ()"
      and dfu: "validate_dfu_layout chk rs = Inr ()" and apart: "validate_no_overlap chk rs = Inr ()"
      and syms: "validate_symbols text = Inr ()"
    using assms by (auto simp: validate_def and_then_Inr)
  let ?r = "\<lambda>n. the (map_of rs n)"
  have r: "map_of rs n = Some (?r n)" if "n \<in> set PARTITIONS" for n
    using present that by (auto simp: validate_partitions_present_def check_each_iff)
  have names: "''ACTIVE'' \<in> set PARTITIONS" "''DFU'' \<in> set PARTITIONS" "''STATE'' \<in> set PARTITIONS"
    by (simp_all add: PARTITIONS_def)
  have 1: "unat (origin (?r n)) + unat (len (?r n)) \<le> unat FLASH_END" if "n \<in> set PARTITIONS" "no_wrap chk rs" for n
  proof -
    have "\<exists>e. end_of chk (?r n) = Inr e \<and> \<not> FLASH_END < e"
      using inside that(1) r [OF that(1)] by (auto simp: validate_within_flash_def check_each_iff and_then_Inr)
    with no_wrap_fits [OF that(2,1) r [OF that(1)]] show ?thesis
      by (auto simp: not_less word_le_nat_alt dest: end_of_nat)
  qed
  have 2: "4096 dvd unat (origin (?r n)) \<and> 4096 dvd unat (len (?r n))"
    if n: "n \<in> set [''ACTIVE'', ''DFU'', ''STATE'']" for n
  proof -
    from aligned n obtain x where x: "map_of rs n = Some x" "is_multiple_of (origin x) PAGE_BYTES"
        "is_multiple_of (len x) PAGE_BYTES"
      unfolding validate_page_alignment_def check_each_iff and_then_Inr
      unfolding region_of_Inr require_Inr by blast
    then show ?thesis by (simp add: is_multiple_nat)
  qed
  obtain e where e: "end_of chk (?r ''ACTIVE'') = Inr e" "origin (?r ''DFU'') = e"
      "add_u32 chk (len (?r ''ACTIVE'')) PAGE_BYTES = Inr (len (?r ''DFU''))"
  proof -
    from dfu obtain active d e where "map_of rs ''ACTIVE'' = Some active" "map_of rs ''DFU'' = Some d"
        "end_of chk active = Inr e" "origin d = e" "add_u32 chk (len active) PAGE_BYTES = Inr (len d)"
      unfolding validate_dfu_layout_def and_then_Inr region_of_Inr require_Inr by auto
    then show thesis using that by simp
  qed
  have wf: "well_formed_map rs" if nw: "no_wrap chk rs"
  proof -
    have 3: "unat (origin (?r ''DFU'')) = unat (origin (?r ''ACTIVE'')) + unat (len (?r ''ACTIVE''))"
      using end_of_nat [OF e(1) no_wrap_fits [OF nw names(1) r [OF names(1)]]] e(2) by simp
    have "unat (len (?r ''ACTIVE'')) + 4096 < 2 ^ 32" using 1 [OF names(1) nw] by (simp add: flash_consts)
    then have 4: "unat (len (?r ''DFU'')) = unat (len (?r ''ACTIVE'')) + 4096"
      using e(3) unat_plus_nowrap [of "len (?r ''ACTIVE'')" PAGE_BYTES]
      by (auto simp: add_u32_Inr PAGE_BYTES_def)
    have 5: "span (?r a) \<inter> span (?r b) = {}" if "a \<in> set PARTITIONS" "b \<in> set PARTITIONS" "a \<noteq> b" for a b
      by (rule no_overlap_disjoint [OF apart r that nw])
    show ?thesis
      unfolding well_formed_map_def
    proof (intro exI [of _ ?r] conjI ballI impI)
      show "4096 dvd unat (origin (?r n))" "4096 dvd unat (len (?r n))"
        if "n \<in> {''ACTIVE'', ''DFU'', ''STATE''}" for n
        using 2 [of n] that by simp_all
    qed (use r 1 nw 3 4 5 in blast)+
  qed
  have "list_all (contains text) SYMBOLS"
    using syms by (auto simp: validate_symbols_def and_then_Inr check_each_iff list_all_iff)
  with rs wf r show ?thesis by (auto simp: list_all_iff)
qed

subsection \<open>Texts given by their lines\<close>

definition unlines :: "string list \<Rightarrow> string" where
  "unlines ls = concat (map (\<lambda>l. l @ [newline]) ls)"

lemma split_once_hit: "split_once (p # ps) (a @ (p # ps) @ b) \<noteq> None"
proof (induction a)
  case Nil
  show ?case using starts_with_append [of "p # ps" b] by simp
qed auto

lemma contains_iff: "pat \<noteq> [] \<Longrightarrow> contains s pat \<longleftrightarrow> (\<exists>a b. s = a @ pat @ b)"
  using split_once_sound split_once_hit
  by (cases pat) (fastforce simp: contains_def)+

lemma contains_unlines:
  assumes "pat \<noteq> []" and "list_ex (\<lambda>l. contains l pat) ls"
  shows "contains (unlines ls) pat"
proof -
  obtain l where l: "l \<in> set ls" "contains l pat" using assms(2) by (auto simp: list_ex_iff)
  obtain xs ys where "ls = xs @ l # ys" using split_list [OF l(1)] by blast
  moreover obtain a b where "l = a @ pat @ b" using l(2) contains_iff [OF assms(1)] by blast
  ultimately have "unlines ls = (unlines xs @ a) @ pat @ b @ newline # unlines ys"
    by (simp add: unlines_def)
  then show ?thesis unfolding contains_iff [OF assms(1)] by blast
qed

definition plain_line :: "string \<Rightarrow> bool" where
  "plain_line l \<longleftrightarrow> list_all (\<lambda>c. c \<noteq> newline \<and> c \<noteq> CHR 0x0D) l"

lemma str_lines_unlines:
  assumes "list_all plain_line ls"
  shows "str_lines (unlines ls) = ls"
proof -
  have split: "split_on newline (unlines ls) = ls @ [[]]"
    using assms
  proof (induction ls)
    case Nil
    show ?case by (simp add: unlines_def)
  next
    case (Cons l ls)
    then have "newline \<notin> set l" by (auto simp: plain_line_def list_all_iff)
    from split_on_append [OF this, of "unlines ls"] Cons show ?case by (simp add: unlines_def)
  qed
  have "(if l \<noteq> [] \<and> last l = CHR 0x0D then butlast l else l) = l" if "l \<in> set ls" for l
  proof -
    have "plain_line l" using assms that by (simp add: list_all_iff)
    then have "l \<noteq> [] \<Longrightarrow> last l \<noteq> CHR 0x0D" using last_in_set [of l] by (auto simp: plain_line_def list_all_iff)
    then show ?thesis by auto
  qed
  then have "map (\<lambda>l. if l \<noteq> [] \<and> last l = CHR 0x0D then butlast l else l) ls = ls" by (rule map_idI)
  then show ?thesis unfolding str_lines_def split Let_def last_snoc butlast_snoc by (simp only: simp_thms if_True)
qed

lemma symbols_by_line:
  assumes "list_all plain_line ls" and "list_all (\<lambda>s. s \<noteq> [] \<and> list_ex (\<lambda>l. contains l s) ls) SYMBOLS"
    and "list_all (\<lambda>l. starts_with (trim l) ''__bootloader_'' \<longrightarrow> contains (trim l) ''ORIGIN('') ls"
  shows "validate_symbols (unlines ls) = Inr ()"
  using assms contains_unlines
  by (auto simp: validate_symbols_def and_then_Inr check_each_iff list_all_iff str_lines_unlines)

subsection \<open>Parsing with and without overflow checks\<close>

text \<open>A map that is parsed with the checks is parsed alike without them.\<close>

lemma i64_checked: "i64 True n = Inr m \<Longrightarrow> i64 chk n = Inr m"
  by (simp add: i64_def split: if_splits)

lemma parse_term_checked:
  assumes "parse_term True t = Inr n"
  shows "parse_term chk t = Inr n"
proof -
  obtain m scale where m: "i64 True (m * scale) = Inr n" "\<And>c. parse_term c t = i64 c (m * scale)"
    using assms by (auto simp: parse_term_def Let_def split: sum.splits prod.splits)
  with i64_checked [OF m(1), of chk] show ?thesis by simp
qed

lemma eval_loop_checked: "eval_loop True tot sign term cs = Inr n \<Longrightarrow> eval_loop chk tot sign term cs = Inr n"
proof (induction cs arbitrary: tot sign "term")
  case (Cons c cs)
  show ?case
  proof (cases "(c = CHR ''+'' \<or> c = CHR ''-'') \<and> trim term \<noteq> []")
    case True
    with Cons.prems obtain t m tot1 where t: "parse_term True (trim term) = Inr t" "i64 True (sign * t) = Inr m"
        "i64 True (tot + m) = Inr tot1" "eval_loop True tot1 (if c = CHR ''-'' then - 1 else 1) [] cs = Inr n"
      by (auto simp: Let_def split: sum.splits)
    with True Cons.IH [OF t(4)] parse_term_checked [OF t(1), of chk] i64_checked [OF t(2), of chk]
      i64_checked [OF t(3), of chk] show ?thesis by (simp add: Let_def)
  next
    case False
    with Cons show ?thesis by (auto simp: Let_def split: if_splits)
  qed
qed simp

lemma eval_expr_checked:
  assumes "eval_expr True e = Inr n"
  shows "eval_expr chk e = Inr n"
proof -
  obtain m where "eval_loop True 0 1 [] (e @ ''+'') = Inr m" "n = word_of_int m"
    using assms by (auto simp: eval_expr_def map_sum_def split: sum.splits)
  with eval_loop_checked [OF this(1), of chk] show ?thesis by (simp add: eval_expr_def)
qed

lemma value_after_checked:
  assumes "value_after True rest key = Inr r"
  shows "value_after chk rest key = Inr r"
proof (cases "\<exists>a r1 b r2. split_once key rest = Some (a, r1) \<and> split_once ''='' r1 = Some (b, r2)")
  case False
  with assms show ?thesis by (auto simp: value_after_def split: option.splits)
next
  case True
  then obtain a r1 b r2 where sp: "split_once key rest = Some (a, r1)" "split_once ''='' r1 = Some (b, r2)" by blast
  let ?e = "hd (split_on (CHR '','') r2)"
  from assms sp obtain n where "eval_expr True ?e = Inr n" "r = Some n"
    by (cases "eval_expr True ?e") (auto simp: value_after_def)
  with sp eval_expr_checked [OF this(1), of chk] show ?thesis by (simp add: value_after_def)
qed

lemma parse_line_checked:
  assumes "parse_line True l = Inr r"
  shows "parse_line chk l = Inr r"
proof (cases "split_once '':'' l")
  case None
  with assms show ?thesis by (simp add: parse_line_def)
next
  case (Some br)
  obtain before rest where br: "br = (before, rest)" by (cases br)
  show ?thesis
  proof (cases "trim before = []")
    case True
    with assms Some br show ?thesis by (simp add: parse_line_def)
  next
    case False
    with assms Some br obtain org where org: "value_after True rest ''ORIGIN'' = Inr org"
      by (auto simp: parse_line_def split: sum.splits)
    note o = value_after_checked [OF this, of chk]
    show ?thesis
    proof (cases org)
      case None
      with assms Some br False org o show ?thesis by (simp add: parse_line_def)
    next
      case v: (Some v)
      with assms Some br False org obtain n where n: "value_after True rest ''LENGTH'' = Inr n"
        by (auto simp: parse_line_def split: sum.splits)
      with assms Some br False org o v value_after_checked [OF n, of chk] show ?thesis
        by (simp add: parse_line_def)
    qed
  qed
qed

lemma parse_lines_checked: "parse_lines True rs ls = Inr r \<Longrightarrow> parse_lines chk rs ls = Inr r"
proof (induction ls arbitrary: rs)
  case (Cons l ls)
  then obtain x where x: "parse_line True l = Inr x" by (auto split: sum.splits)
  with Cons parse_line_checked [OF x, of chk] show ?case by (cases x) simp_all
qed simp

lemma parse_checked: "parse_memory_x True text = Inr rs \<Longrightarrow> parse_memory_x chk text = Inr rs"
  by (auto simp: parse_memory_x_def split: option.splits prod.splits intro: parse_lines_checked)

subsection \<open>The maps of the repository\<close>

text \<open>\<open>bootloader/memory.x\<close> and \<open>app/memory.x\<close>, line by line.\<close>

definition bootloader_lines :: "string list" where
  "bootloader_lines =
     [''/*'',
      '' * Bootloader memory map and partition table.'',
      '' * The bootloader links link-rp.x and owns boot2.'',
      '' *'',
      '' * The __bootloader_* symbols are flash-relative: embassy-boot maps the active,'',
      '' * dfu and state partitions as offsets from the start of flash, so each symbol'',
      '' * subtracts ORIGIN(BOOT2) rather than carrying an absolute address.'',
      '' */'',
      ''MEMORY {'',
      ''    BOOT2  : ORIGIN = 0x10000000, LENGTH = 0x100'',
      ''    FLASH  : ORIGIN = 0x10000100, LENGTH = 24K - 0x100'',
      ''    ACTIVE : ORIGIN = 0x10006000, LENGTH = 780K'',
      ''    DFU    : ORIGIN = 0x100C9000, LENGTH = 784K'',
      ''    STATE  : ORIGIN = 0x1018D000, LENGTH = 4K'',
      ''    RAM    : ORIGIN = 0x20000000, LENGTH = 264K'',
      ''}'',
      '''',
      ''__bootloader_state_start = ORIGIN(STATE) - ORIGIN(BOOT2);'',
      ''__bootloader_state_end = ORIGIN(STATE) + LENGTH(STATE) - ORIGIN(BOOT2);'',
      ''__bootloader_active_start = ORIGIN(ACTIVE) - ORIGIN(BOOT2);'',
      ''__bootloader_active_end = ORIGIN(ACTIVE) + LENGTH(ACTIVE) - ORIGIN(BOOT2);'',
      ''__bootloader_dfu_start = ORIGIN(DFU) - ORIGIN(BOOT2);'',
      ''__bootloader_dfu_end = ORIGIN(DFU) + LENGTH(DFU) - ORIGIN(BOOT2);'']"

definition app_lines :: "string list" where
  "app_lines =
     [''/*'',
      '' * ACTIVE application partition (GDC-1).'',
      '' *'',
      '' * FLASH is the ACTIVE slot at 0x10006000 (after the bootloader's BOOT2 +'',
      '' * bootloader region). The app must NOT embed boot2, so it links link.x only,'',
      '' * never link-rp.x. BOOT2/DFU/STATE exist only to compute the flash-relative'',
      '' * __bootloader_* offsets that the embassy-boot FirmwareUpdater reads.'',
      '' */'',
      ''MEMORY {'',
      ''    BOOT2 : ORIGIN = 0x10000000, LENGTH = 0x100'',
      ''    FLASH : ORIGIN = 0x10006000, LENGTH = 780K'',
      ''    DFU   : ORIGIN = 0x100C9000, LENGTH = 784K'',
      ''    STATE : ORIGIN = 0x1018D000, LENGTH = 4K'',
      ''    RAM   : ORIGIN = 0x20000000, LENGTH = 264K'',
      ''}'',
      '''',
      ''__bootloader_dfu_start = ORIGIN(DFU) - ORIGIN(BOOT2);'',
      ''__bootloader_dfu_end = ORIGIN(DFU) + LENGTH(DFU) - ORIGIN(BOOT2);'',
      ''__bootloader_state_start = ORIGIN(STATE) - ORIGIN(BOOT2);'',
      ''__bootloader_state_end = ORIGIN(STATE) + LENGTH(STATE) - ORIGIN(BOOT2);'']"

definition bootloader_memory_x :: string where
  "bootloader_memory_x = unlines bootloader_lines"

definition app_memory_x :: string where
  "app_memory_x = unlines app_lines"

lemma bootloader_regions:
  "parse_memory_x chk bootloader_memory_x = Inr
     [(''RAM'', \<lparr>origin = 0x20000000, len = 270336\<rparr>), (''STATE'', \<lparr>origin = 0x1018D000, len = 4096\<rparr>),
      (''DFU'', \<lparr>origin = 0x100C9000, len = 802816\<rparr>), (''ACTIVE'', \<lparr>origin = 0x10006000, len = 798720\<rparr>),
      (''FLASH'', \<lparr>origin = 0x10000100, len = 24320\<rparr>), (''BOOT2'', \<lparr>origin = 0x10000000, len = 256\<rparr>)]"
  by (rule parse_checked) code_simp

lemma app_regions:
  "parse_memory_x chk app_memory_x = Inr
     [(''RAM'', \<lparr>origin = 0x20000000, len = 270336\<rparr>), (''STATE'', \<lparr>origin = 0x1018D000, len = 4096\<rparr>),
      (''DFU'', \<lparr>origin = 0x100C9000, len = 802816\<rparr>), (''FLASH'', \<lparr>origin = 0x10006000, len = 798720\<rparr>),
      (''BOOT2'', \<lparr>origin = 0x10000000, len = 256\<rparr>)]"
  by (rule parse_checked) code_simp

lemma bootloader_symbols: "validate_symbols bootloader_memory_x = Inr ()"
  unfolding bootloader_memory_x_def by (rule symbols_by_line) code_simp+

lemma bootloader_validates: "validate chk bootloader_memory_x = Inr ()"
  by (simp add: validate_def and_then_def bootloader_regions bootloader_symbols
      validate_partitions_present_def validate_within_flash_def validate_page_alignment_def
      validate_dfu_layout_def validate_no_overlap_def region_of_def end_of_def add_u32_def require_def
      PARTITIONS_def checked_add_def is_multiple_of_def flash_consts word_nat)

subsection \<open>Properties\<close>

text \<open>
  C39: a memory map that the build accepts names the five partitions and every symbol that the bootloader links against;
  and when the build has overflow checks, or no partition runs past the 32 bits of an address, the map is well formed,
  whatever its text: the five partitions end within the flash, no two of them share an address, ACTIVE, DFU and STATE
  are whole pages, DFU starts where ACTIVE ends and is one page longer (the page that a swap needs).
  A build without overflow checks accepts maps that are not (\<open>wrapped_map_accepted\<close>).
\<close>

theorem validated_map_well_formed:
  assumes "validate chk text = Inr ()"
  shows "\<exists>rs. parse_memory_x chk text = Inr rs \<and> list_all (\<lambda>n. map_of rs n \<noteq> None) PARTITIONS \<and>
    list_all (contains text) SYMBOLS \<and> (no_wrap chk rs \<longrightarrow> well_formed_map rs)"
  by (rule validated [OF assms])

theorem validated_map_well_formed_witness:
  "validate False bootloader_memory_x = Inr () \<and>
   (\<exists>rs. parse_memory_x False bootloader_memory_x = Inr rs \<and> no_wrap False rs \<and> well_formed_map rs \<and>
     list_all (contains bootloader_memory_x) SYMBOLS)"
proof -
  obtain rs where rs: "parse_memory_x False bootloader_memory_x = Inr rs" "list_all (contains bootloader_memory_x) SYMBOLS"
      "no_wrap False rs \<longrightarrow> well_formed_map rs"
    using validated_map_well_formed [OF bootloader_validates [of False]] by blast
  moreover have "no_wrap False rs"
    using rs(1) unfolding bootloader_regions by (auto simp: no_wrap_def fits_u32_def PARTITIONS_def)
  ultimately show ?thesis using bootloader_validates [of False] by blast
qed

text \<open>The map of the bootloader with its last partition moved to the last page of the address space.\<close>

definition wrapped_memory_x :: string where
  "wrapped_memory_x = unlines (map (\<lambda>l.
     if contains l ''    STATE'' then ''    STATE  : ORIGIN = 0xFFFFF000, LENGTH = 4K'' else l) bootloader_lines)"

lemma wrapped_map_accepted:
  "validate False wrapped_memory_x = Inr ()" "validate True wrapped_memory_x = Inl Arithmetic_Overflow"
proof -
  have regions: "parse_memory_x chk wrapped_memory_x = Inr
     [(''RAM'', \<lparr>origin = 0x20000000, len = 270336\<rparr>), (''STATE'', \<lparr>origin = 0xFFFFF000, len = 4096\<rparr>),
      (''DFU'', \<lparr>origin = 0x100C9000, len = 802816\<rparr>), (''ACTIVE'', \<lparr>origin = 0x10006000, len = 798720\<rparr>),
      (''FLASH'', \<lparr>origin = 0x10000100, len = 24320\<rparr>), (''BOOT2'', \<lparr>origin = 0x10000000, len = 256\<rparr>)]" for chk
    by (rule parse_checked) code_simp
  have symbols: "validate_symbols wrapped_memory_x = Inr ()"
    unfolding wrapped_memory_x_def by (rule symbols_by_line) code_simp+
  show "validate False wrapped_memory_x = Inr ()" "validate True wrapped_memory_x = Inl Arithmetic_Overflow"
    by (simp_all add: validate_def and_then_def regions symbols
      validate_partitions_present_def validate_within_flash_def validate_page_alignment_def
      validate_dfu_layout_def validate_no_overlap_def region_of_def end_of_def add_u32_def require_def
      PARTITIONS_def checked_add_def is_multiple_of_def flash_consts word_nat)
qed

text \<open>
  The memory maps that the two images are linked with agree with each other and with the
  layout that the code computes with: the bootloader's map passes its own check, its regions are
  the partitions of \<open>flash.rs\<close> (with the boot block at the front of the bootloader's), and the
  application is linked into the bootloader's ACTIVE region and sees the same DFU and STATE.
\<close>

lemma memory_maps_agree:
  "\<exists>boot app. parse_memory_x chk bootloader_memory_x = Inr boot \<and> validate chk bootloader_memory_x = Inr () \<and>
     parse_memory_x chk app_memory_x = Inr app \<and>
     map_of boot ''BOOT2'' = Some \<lparr>origin = BOOTLOADER_BASE, len = BOOT2_BYTES\<rparr> \<and>
     map_of boot ''FLASH'' = Some \<lparr>origin = BOOTLOADER_BASE + BOOT2_BYTES, len = BOOTLOADER_BYTES - BOOT2_BYTES\<rparr> \<and>
     map_of boot ''ACTIVE'' = Some \<lparr>origin = ACTIVE_BASE, len = ACTIVE_BYTES\<rparr> \<and>
     map_of boot ''DFU'' = Some \<lparr>origin = DFU_BASE, len = DFU_BYTES\<rparr> \<and>
     map_of boot ''STATE'' = Some \<lparr>origin = STATE_BASE, len = STATE_BYTES\<rparr> \<and>
     map_of app ''FLASH'' = map_of boot ''ACTIVE'' \<and> map_of app ''DFU'' = map_of boot ''DFU'' \<and>
     map_of app ''STATE'' = map_of boot ''STATE'' \<and> map_of app ''BOOT2'' = map_of boot ''BOOT2''"
  by (intro exI conjI, rule bootloader_regions, rule bootloader_validates, rule app_regions)
    (simp_all add: flash_consts)

end
