(* ===== verification/Device.thy ===== *)
theory Device
  imports Ota_Task Boot Updater
begin

text \<open>
  The device as a whole: power cycles, each of them the bootloader and \<open>main\<close> (\<open>Boot\<close>) and then
  the OTA task (\<open>Ota_Task\<close>) over the state that survives a reset. That state belongs to the
  firmware updater, whose contract is the locale \<open>updater\<close>: a write leaves the update lifecycle
  alone, and a mark that succeeds is a staging followed by \<open>mark_updated\<close> in the lifecycle of
  \<open>core/src/flash.rs\<close> (its comments name the correspondence). A power cycle may end at any time,
  with the OTA task in the middle of a check.
\<close>

subsection \<open>The contract of the firmware updater\<close>

text \<open>What the OTA task may do to the lifecycle: one staging that was accepted.\<close>

definition staged :: "update_machine \<Rightarrow> update_machine \<Rightarrow> bool" where
  "staged m m1 \<longleftrightarrow> (\<exists>v n. run update_step m [Stage v n, Mark_Updated] =
     (m1, [Returned (Inr ()), Returned (Inr ())]))"

locale updater =
  fixes F :: "('f, 'fe) flasher"
    and lifecycle :: "'f \<Rightarrow> update_machine"
  assumes write_keeps: "flash_write F f offs data = (f1, r) \<Longrightarrow> lifecycle f1 = lifecycle f"
    and mark_stages: "flash_mark F f = (f1, Inr ()) \<Longrightarrow>
      staged (lifecycle f) (lifecycle f1)"
    and mark_fails: "flash_mark F f = (f1, Inl e) \<Longrightarrow> lifecycle f1 = lifecycle f"
begin

lemma stream_keeps:
  assumes "stream_loop F' R H len buf h offs tot f r = (f1, r1, res)" and "F' = F"
  shows "lifecycle f1 = lifecycle f"
  using assms
proof (induction F' R H len buf h offs tot f r rule: stream_loop.induct)
  case (1 F' R H len buf h offs tot f r)
  let ?rem = "min (unat (len - tot)) (length buf)"
  obtain r2 filled rd where rd: "body_read R r (take ?rem buf) = (r2, filled, rd)" by (metis surj_pair)
  show ?case
  proof (cases "tot < len \<and> (\<exists>n. rd = Inr n \<and> n \<noteq> 0 \<and> n \<le> ?rem)")
    case False
    with rd "1.prems" show ?thesis
      by (cases rd) (auto simp: stream_loop.simps [of F R H len buf h offs tot f r] Let_def split: if_splits)
  next
    case True
    then obtain n where n: "tot < len" "rd = Inr n" "n \<noteq> 0" "n \<le> ?rem" by blast
    let ?c = "take n (filled @ drop ?rem buf)"
    obtain f2 wres where w: "flash_write F' f offs ?c = (f2, wres)" by (metis surj_pair)
    have keeps: "lifecycle f2 = lifecycle f" using write_keeps w "1.prems"(2) by blast
    note step = stream_loop_chunk [OF n(1) rd [unfolded n(2)] n(3,4) refl w, of H h]
    show ?thesis
    proof (cases wres)
      case (Inl e)
      with step "1.prems"(1) keeps show ?thesis by simp
    next
      case (Inr u)
      have "lifecycle f1 = lifecycle f2"
      proof (rule "1.IH" [OF n(1) refl refl rd [symmetric] refl n(2) n(3) _ refl refl refl refl w [symmetric] Inr])
        show "\<not> ?rem < n" using n(4) by linarith
        show "stream_loop F' R H len (filled @ drop ?rem buf) (hash_update H h ?c) (offs + n)
            (tot + of_nat n) f2 r2 = (f1, r1, res)"
          using "1.prems"(1) step Inr by simp
      qed (rule "1.prems"(2))
      with keeps show ?thesis by simp
    qed
  qed
qed

lemma session_stages:
  assumes "apply_update F R H len expected f r = (f1, r1, res)"
  shows "if res = Inr () then staged (lifecycle f) (lifecycle f1) else lifecycle f1 = lifecycle f"
proof (cases "ucast ACTIVE_BYTES < len")
  case True
  with assms show ?thesis by (auto simp: apply_update_def)
next
  case False
  obtain f2 r2 lres where loop: "stream_loop F R H len (replicate CHUNK_BYTES 0) (hash_new H) 0 0 f r =
      (f2, r2, lres)" by (metis surj_pair)
  note keeps = stream_keeps [OF loop refl]
  obtain f3 mres where mark: "flash_mark F f2 = (f3, mres)" by (metis surj_pair)
  show ?thesis
  proof (cases mres)
    case (Inl e)
    with assms False loop mark keeps mark_fails show ?thesis
      by (auto simp: apply_update_def split: sum.splits if_splits)
  next
    case (Inr u)
    with mark have "flash_mark F f2 = (f3, Inr ())" by simp
    then have "staged (lifecycle f2) (lifecycle f3)" by (rule mark_stages)
    with assms False loop mark keeps Inr show ?thesis
      by (auto simp: apply_update_def split: sum.splits if_splits)
  qed
qed

lemma check_stages:
  assumes "check_and_update N F H d w f = Some (w1, f1, fin)"
  shows "if fin = System_Reset then staged (lifecycle f) (lifecycle f1) else lifecycle f1 = lifecycle f"
proof -
  have image: "if fin = System_Reset then staged (lifecycle f) (lifecycle f1) else lifecycle f1 = lifecycle f"
    if "fetch_image N F H d u endpoint w0 f leftover remote expected = Some (w1, f1, fin)"
    for u endpoint w0 leftover remote expected
    using that
    by (auto simp: fetch_image_def dest!: session_stages split: sum.splits option.splits prod.splits if_splits)
  show ?thesis
    using assms image unfolding check_and_update_def Let_def
    by (auto split: sum.splits option.splits prod.splits decision.splits)
qed

lemma task_stages:
  assumes "task_loop N F H d n w f = Some (w1, f1, reset, codes)"
  shows "if reset then staged (lifecycle f) (lifecycle f1) else lifecycle f1 = lifecycle f"
  using assms
proof (induction n arbitrary: w f codes)
  case 0
  then show ?case by simp
next
  case (Suc n)
  obtain w2 f2 fin where c: "check_and_update N F H d w f = Some (w2, f2, fin)"
    using Suc.prems by (cases "check_and_update N F H d w f") (auto simp: run_check_def)
  note C = check_stages [OF c]
  show ?case
  proof (cases "fin = System_Reset")
    case True
    with Suc.prems c C show ?thesis by (auto simp: run_check_def)
  next
    case False
    with Suc.prems c obtain codes2 where "task_loop N F H d n w2 f2 = Some (w1, f1, reset, codes2)"
      by (cases fin) (auto simp: run_check_def)
    from Suc.IH [OF this] C False show ?thesis by (cases reset) simp_all
  qed
qed

end

text \<open>
  What the updater does when nothing fails. \<open>dfu f\<close> are the bytes of the DFU partition and \<open>version_of\<close> is the version
  that an image carries. Outside a trial, a write within the size of an image puts its bytes where it says, and the
  mark stages the version of what was written.
\<close>

locale working_updater = updater F lifecycle
  for F :: "('f, 'fe) flasher" and lifecycle :: "'f \<Rightarrow> update_machine" +
  fixes dfu :: "'f \<Rightarrow> bytes"
    and version_of :: "bytes \<Rightarrow> u32"
  assumes write_stores: "update_state (lifecycle f) \<noteq> SwapTesting \<Longrightarrow> offs + length data \<le> unat ACTIVE_BYTES \<Longrightarrow>
      \<exists>f1. flash_write F f offs data = (f1, Inr ()) \<and> dfu f1 = copy_at (dfu f) offs data"
    and mark_accepted: "update_state (lifecycle f) \<noteq> SwapTesting \<Longrightarrow>
      \<exists>f1. flash_mark F f = (f1, Inr ()) \<and> dfu f1 = dfu f \<and> lifecycle f1 =
        (lifecycle f)\<lparr>staged_version := Some (version_of (dfu f)), update_state := SwapPending\<rparr>"
begin

lemma accepting: "accepting_flasher F (\<lambda>f. update_state (lifecycle f) \<noteq> SwapTesting)"
proof unfold_locales
  show "\<exists>f1. flash_write F f offs data = (f1, Inr ()) \<and> update_state (lifecycle f1) \<noteq> SwapTesting"
    if "update_state (lifecycle f) \<noteq> SwapTesting" and "offs + length data \<le> unat ACTIVE_BYTES" for f offs data
    using write_stores [OF that] write_keeps that(1) by fastforce
  show "\<exists>f1. flash_mark F f = (f1, Inr ())" if "update_state (lifecycle f) \<noteq> SwapTesting" for f
    using mark_accepted [OF that] by blast
qed

lemma stores_chunks:
  assumes "update_state (lifecycle f) \<noteq> SwapTesting" and "length pre + length (concat cs) \<le> unat ACTIVE_BYTES"
    and "dfu f = pre @ rest"
  shows "dfu (flash_writes F f (length pre) cs) = pre @ concat cs @ drop (length (concat cs)) rest \<and>
    lifecycle (flash_writes F f (length pre) cs) = lifecycle f"
  using assms
proof (induction cs arbitrary: f pre rest)
  case Nil
  then show ?case by simp
next
  case (Cons c cs)
  obtain f1 where w: "flash_write F f (length pre) c = (f1, Inr ())" "dfu f1 = copy_at (dfu f) (length pre) c"
    using write_stores [OF Cons.prems(1), of "length pre" c] Cons.prems(2) by auto
  then have f1: "dfu f1 = (pre @ c) @ drop (length c) rest" "lifecycle f1 = lifecycle f"
    using Cons.prems(3) write_keeps by (simp_all add: copy_at_def)
  from Cons.IH [of f1 "pre @ c", OF _ _ f1(1)] Cons.prems(1,2) w(1) f1(2) show ?case
    by (simp add: add.commute)
qed

lemma installs:
  assumes "update_state (lifecycle f) \<noteq> SwapTesting" and "length (concat cs) \<le> unat ACTIVE_BYTES"
    and "\<And>rest. version_of (concat cs @ rest) = new"
  shows "dfu (fst (flash_mark F (flash_writes F f 0 cs))) = concat cs @ drop (length (concat cs)) (dfu f) \<and>
    lifecycle (fst (flash_mark F (flash_writes F f 0 cs))) =
      (lifecycle f)\<lparr>staged_version := Some new, update_state := SwapPending\<rparr>"
proof -
  have ws: "dfu (flash_writes F f 0 cs) = concat cs @ drop (length (concat cs)) (dfu f)"
      "lifecycle (flash_writes F f 0 cs) = lifecycle f"
    using stores_chunks [of f "[]" cs] assms(1,2) by simp_all
  with mark_accepted [of "flash_writes F f 0 cs"] assms(1,3) show ?thesis by auto
qed

end

text \<open>
  Both contracts can be met: here is an updater that does nothing but keep the lifecycle of \<open>core/src/flash.rs\<close> and the
  bytes of the DFU partition. It stands for no code; the properties are stated for every updater that
  keeps to the contract, and this one is where the examples run.
\<close>

record dfu_partition =
  dfu_image :: bytes
  machine :: update_machine

definition lifecycle_updater :: "(bytes \<Rightarrow> u32) \<Rightarrow> (dfu_partition, boot_mark, string) firmware_updater" where
  "lifecycle_updater version_of =
     \<lparr>fu_get_state = (\<lambda>s. (s, Inr (mark_of (update_state (machine s))))),
      fu_prepare_update = (\<lambda>s. (s\<lparr>dfu_image := replicate (length (dfu_image s)) 0xFF\<rparr>, Inr ())),
      fu_write_firmware = (\<lambda>s offs data.
        if unat DFU_BYTES < offs + length data then (s, Inl ''out of bounds'')
        else (s\<lparr>dfu_image := copy_at (dfu_image s) offs data\<rparr>, Inr ())),
      fu_mark_updated = (\<lambda>s.
        case stage_firmware (machine s) (version_of (dfu_image s)) ACTIVE_BYTES of
          (m, Inl e) \<Rightarrow> (s, Inl e)
        | (m, Inr _) \<Rightarrow>
            (case mark_updated m of
               (m1, Inl e) \<Rightarrow> (s, Inl e)
             | (m1, Inr _) \<Rightarrow> (s\<lparr>machine := m1\<rparr>, Inr ()))),
      fu_mark_booted = (\<lambda>s. case mark_booted (machine s) of (m, r) \<Rightarrow> (s\<lparr>machine := m\<rparr>, r)),
      fu_mark_dfu = (\<lambda>s. (s\<lparr>machine := mark_dfu (machine s)\<rparr>, Inr ()))\<rparr>"

definition lifecycle_flasher :: "(bytes \<Rightarrow> u32) \<Rightarrow> (dfu_partition, string) flasher" where
  "lifecycle_flasher version_of = updater_flasher (lifecycle_updater version_of)"

lemmas flasher_calls = lifecycle_flasher_def lifecycle_updater_def

lemma stage_then_mark:
  assumes "stage_firmware m v n = (m1, Inr ())" and "mark_updated m1 = (m2, Inr ())"
  shows "staged m m2"
  using assms unfolding staged_def by (intro exI [of _ v] exI [of _ n]) (simp add: run.simps(2))

interpretation dfu: working_updater "lifecycle_flasher version_of" machine dfu_image version_of for version_of
proof unfold_locales
  fix f f1 offs data r
  assume "flash_write (lifecycle_flasher version_of) f offs data = (f1, r)"
  then show "machine f1 = machine f" by (auto simp: flasher_calls split: if_splits)
next
  fix f f1
  assume "flash_mark (lifecycle_flasher version_of) f = (f1, Inr ())"
  then show "staged (machine f) (machine f1)"
    by (auto simp: flasher_calls split: prod.splits sum.splits intro: stage_then_mark)
next
  fix f f1 e
  assume "flash_mark (lifecycle_flasher version_of) f = (f1, Inl e)"
  then show "machine f1 = machine f"
    by (auto simp: flasher_calls split: prod.splits sum.splits)
next
  fix s :: dfu_partition and offs and data :: bytes
  assume "update_state (machine s) \<noteq> SwapTesting" and "offs + length data \<le> unat ACTIVE_BYTES"
  then show "\<exists>s1. flash_write (lifecycle_flasher version_of) s offs data = (s1, Inr ()) \<and>
      dfu_image s1 = copy_at (dfu_image s) offs data"
    by (simp add: flasher_calls ACTIVE_BYTES_def DFU_BYTES_def)
next
  fix s :: dfu_partition
  assume "update_state (machine s) \<noteq> SwapTesting"
  then show "\<exists>s1. flash_mark (lifecycle_flasher version_of) s = (s1, Inr ()) \<and> dfu_image s1 = dfu_image s \<and>
      machine s1 = (machine s)\<lparr>staged_version := Some (version_of (dfu_image s)), update_state := SwapPending\<rparr>"
    by (simp add: flasher_calls stage_firmware_def mark_updated_def can_fit_in_active_def)
qed

subsection \<open>Power cycles\<close>

text \<open>
  What happens after a boot: the power is cut before an update was marked, or the OTA task runs
  with the version that boots, as \<open>main\<close> spawned it, for some number of reset requests.
\<close>

inductive ota_phase :: "('w, 'a) network \<Rightarrow> ('f, 'fe) flasher \<Rightarrow> 'h hasher \<Rightarrow> device \<Rightarrow> ('f \<Rightarrow> update_machine) \<Rightarrow>
    boot_step list \<Rightarrow> 'f \<Rightarrow> 'f \<Rightarrow> bool"
  for N F H d lifecycle where
  power_cut: "lifecycle f2 = lifecycle f1 \<Longrightarrow> ota_phase N F H d lifecycle steps f1 f2"
| checks: "Spawn_Ota b \<in> set steps \<Longrightarrow>
    ota_task N F H (d\<lparr>running_version := active_version (lifecycle f1)\<rparr>) b n w f1 = Some (w2, f2, reset, codes) \<Longrightarrow>
    ota_phase N F H d lifecycle steps f1 f2"

text \<open>The states that are reached at the resets, each with the version confirmed last.\<close>

inductive device_run :: "('w, 'a) network \<Rightarrow> ('f, 'fe) flasher \<Rightarrow> 'h hasher \<Rightarrow> device \<Rightarrow> ('f \<Rightarrow> update_machine) \<Rightarrow>
    u32 \<Rightarrow> 'f \<Rightarrow> u32 \<Rightarrow> bool"
  for N F H d lifecycle v where
  factory: "lifecycle f = machine_new v \<Longrightarrow> device_run N F H d lifecycle v f v"
| cycle: "device_run N F H d lifecycle v f c \<Longrightarrow>
    boot_cycle env (lifecycle f) = Some (lifecycle f1, a, steps) \<Longrightarrow>
    ota_phase N F H d lifecycle steps f1 f2 \<Longrightarrow>
    device_run N F H d lifecycle v f2
      (if Mark_Image_Booted True \<in> set steps then active_version (lifecycle f1) else c)"

lemma staged_confirm:
  assumes "confirm_inv (m, c)" and "staged m m1"
  shows "confirm_inv (m1, c)"
  using assms
  by (auto simp: staged_def run.simps(2) Let_def confirm_inv_def machine_ok_def update_ops split: if_splits)

lemma boot_confirm:
  assumes "confirm_inv (m, c)" and "boot_cycle env m = Some (m1, a, steps)"
  shows "confirm_inv (m1, if Mark_Image_Booted True \<in> set steps then active_version m1 else c)"
  using assms
  by (cases "update_state m")
    (auto simp: confirm_inv_def machine_ok_def boot_cycle_def on_reset_def app_main_steps mark_of_def
      mark_booted_def Let_def split: if_splits)

lemma boot_not_stuck:
  assumes "confirm_inv (m, c)"
  shows "boot_cycle env m \<noteq> None"
  using assms
  by (cases "update_state m")
    (auto simp: confirm_inv_def machine_ok_def boot_cycle_def on_reset_def Let_def)

lemma phase_confirm:
  assumes "updater F lifecycle" and "ota_phase N F H d lifecycle steps f1 f2"
    and "confirm_inv (lifecycle f1, c)"
  shows "confirm_inv (lifecycle f2, c)"
  using assms(2)
proof cases
  case power_cut
  with assms(3) show ?thesis by simp
next
  case (checks b n w w2 reset codes)
  with updater.task_stages [OF assms(1)] staged_confirm [OF assms(3)] assms(3) show ?thesis
    unfolding ota_task_def by (cases reset) fastforce+
qed

lemma device_confirm:
  assumes "updater F lifecycle" and "device_run N F H d lifecycle v f c"
  shows "confirm_inv (lifecycle f, c)"
  using assms(2)
proof induction
  case (factory f)
  then show ?case by (simp add: confirm_inv_def machine_ok_def machine_new_def)
next
  case (cycle f c env f1 a steps f2)
  from boot_confirm [OF cycle.IH cycle.hyps(2)] show ?case by (rule phase_confirm [OF assms(1) cycle.hyps(3)])
qed

text \<open>An environment in which a swapped image gets as far as being confirmed.\<close>

definition confirms :: "boot_env \<Rightarrow> bool" where
  "confirms env \<longleftrightarrow> \<not> broken_build env \<and> hardware_ok env \<and> confirm_ok env"

lemma unconfirmed_boot:
  assumes "\<not> confirms env" and "confirm_inv (m, c)" and "boot_cycle env m = Some (m1, a, steps)"
  shows "m1 = (case update_state m of
      SwapPending \<Rightarrow> m\<lparr>staged_version := None, previous_version := Some c,
        active_version := the (staged_version m), update_state := SwapTesting\<rparr>
    | SwapTesting \<Rightarrow> m\<lparr>previous_version := None, staged_version := Some (active_version m),
        active_version := c, update_state := Revert\<rparr>
    | _ \<Rightarrow> m) \<and> a \<noteq> EnterUsbBoot \<and> confirm_inv (m1, c)"
proof -
  have "m1 = (case update_state m of
      SwapPending \<Rightarrow> m\<lparr>staged_version := None, previous_version := Some c,
        active_version := the (staged_version m), update_state := SwapTesting\<rparr>
    | SwapTesting \<Rightarrow> m\<lparr>previous_version := None, staged_version := Some (active_version m),
        active_version := c, update_state := Revert\<rparr>
    | _ \<Rightarrow> m) \<and> a \<noteq> EnterUsbBoot \<and> Mark_Image_Booted True \<notin> set steps"
    using assms
    by (cases "update_state m")
      (auto simp: confirms_def hardware_ok_def confirm_inv_def machine_ok_def boot_cycle_def on_reset_def app_main_steps
        mark_of_def Let_def split: if_splits)
  with boot_confirm [OF assms(2,3)] show ?thesis by simp
qed

subsection \<open>Properties\<close>

text \<open>
  C3: the device always comes back to an image that was confirmed. Take any flasher that keeps to
  the contract of the firmware updater, any network and server, and any history of power cycles,
  in which the power may be cut between any two steps before an update is marked, boards pass or
  fail their self-test, confirmations fail, and update checks run. Then at every reset the
  bootloader has a way to boot, never into USB; outside a trial the device runs the version that
  was confirmed last; and two boots in which no image gets confirmed are enough to run it again.
\<close>

theorem device_recovers:
  assumes "updater F lifecycle" and "device_run N F H d lifecycle v f c"
    and "\<not> confirms env1" and "\<not> confirms env2"
  shows "\<exists>m1 a1 steps1 m2 a2 steps2. boot_cycle env1 (lifecycle f) = Some (m1, a1, steps1) \<and>
    boot_cycle env2 m1 = Some (m2, a2, steps2) \<and> a1 \<noteq> EnterUsbBoot \<and> a2 \<noteq> EnterUsbBoot \<and>
    active_version m2 = c \<and>
    (if update_state (lifecycle f) = SwapTesting then active_version m1 = c
     else active_version (lifecycle f) = c)"
proof -
  note inv = device_confirm [OF assms(1,2)]
  obtain m1 a1 steps1 where 1: "boot_cycle env1 (lifecycle f) = Some (m1, a1, steps1)"
    using boot_not_stuck [OF inv, of env1] by (metis not_Some_eq surj_pair)
  note u1 = unconfirmed_boot [OF assms(3) inv 1]
  then have inv1: "confirm_inv (m1, c)" by blast
  obtain m2 a2 steps2 where 2: "boot_cycle env2 m1 = Some (m2, a2, steps2)"
    using boot_not_stuck [OF inv1, of env2] by (metis not_Some_eq surj_pair)
  note u2 = unconfirmed_boot [OF assms(4) inv1 2]
  have "active_version m2 = c"
    using u1 u2 inv by (auto simp: confirm_inv_def split: update_state.splits if_splits)
  moreover have "if update_state (lifecycle f) = SwapTesting then active_version m1 = c
     else active_version (lifecycle f) = c"
    using u1 inv by (auto simp: confirm_inv_def)
  ultimately show ?thesis using 1 2 u1 u2 by blast
qed

definition fresh_board :: dfu_partition where
  "fresh_board = \<lparr>dfu_image = replicate 8 0, machine = machine_new 4\<rparr>"

definition spare_secrets :: device where
  "spare_secrets = \<lparr>ota_url = ascii ''http://ota.local'', ota_project = ascii ''door'', ota_user = [],
     ota_password = [], running_version = 0\<rparr>"

theorem device_recovers_witness:
  "updater (lifecycle_flasher (\<lambda>_. 5)) machine \<and> \<not> confirms failing_relay \<and>
   (\<exists>f c. device_run (wire_network :: (bytes, ipv4) network) (lifecycle_flasher (\<lambda>_. 5))
        \<lparr>hash_new = [], hash_update = (@), hash_finalize = id\<rparr> spare_secrets machine 4 f c \<and>
      dfu_image f = [1, 2] \<and> c = 4 \<and>
      (\<exists>m1 a1 steps1 m2 a2 steps2. boot_cycle failing_relay (machine f) = Some (m1, a1, steps1) \<and>
        boot_cycle failing_relay m1 = Some (m2, a2, steps2) \<and> a1 \<noteq> EnterUsbBoot \<and> a2 \<noteq> EnterUsbBoot \<and>
        active_version m2 = c \<and>
        (if update_state (machine f) = SwapTesting then active_version m1 = c
         else active_version (machine f) = c)))"
proof -
  let ?H = "\<lparr>hash_new = [], hash_update = (@), hash_finalize = id\<rparr> :: bytes hasher"
  let ?run = "device_run (wire_network :: (bytes, ipv4) network) (lifecycle_flasher (\<lambda>_. 5)) ?H spare_secrets machine 4"
  have F: "updater (lifecycle_flasher (\<lambda>_. 5)) machine" by (rule dfu.updater_axioms)
  have no: "\<not> confirms failing_relay" by (simp add: confirms_def hardware_ok_def failing_relay_def)
  have m: "machine fresh_board = machine_new 4" by (simp add: fresh_board_def)
  then have "?run fresh_board 4" by (rule factory)
  moreover have "boot_cycle failing_relay (machine fresh_board) =
      Some (machine fresh_board, BootActive, app_main (failing_relay\<lparr>mark := Some Other_Mark\<rparr>))"
    unfolding m by (simp add: boot_cycle_def on_reset_def machine_new_def mark_of_def app_main_steps Let_def)
  ultimately have "?run (fresh_board\<lparr>dfu_image := [1, 2]\<rparr>)
      (if Mark_Image_Booted True \<in> set (app_main (failing_relay\<lparr>mark := Some Other_Mark\<rparr>))
       then active_version (machine fresh_board) else 4)"
    by (rule cycle) (simp add: power_cut)
  then have "?run (fresh_board\<lparr>dfu_image := [1, 2]\<rparr>) 4"
    by (simp add: app_main_steps failing_relay_def)
  from device_recovers [OF F this no no] F no this show ?thesis
    by (intro conjI exI [of _ "fresh_board\<lparr>dfu_image := [1, 2]\<rparr>"] exI [of _ "4 :: u32"]) simp_all
qed

end
