(* ===== verification/Tasks.thy ===== *)
theory Tasks
  imports Telemetry Sensor Actuator
begin

text \<open>
  The tasks of the door together: the reed task, the telemetry task, the actuator task and the
  wake-up of the OTA task run interleaved, and communicate through the statics
  \<open>DOOR_CMD_CHANNEL\<close> (\<open>actuator.rs\<close>), \<open>DOOR_STATE_SIGNAL\<close> (\<open>sensor.rs\<close>) and
  \<open>RESET_REQUEST_SIGNAL\<close> (\<open>telemetry.rs\<close>). The channel and the signals are types of
  \<open>embassy_sync\<close>, which is not in the repository: they are parameters, and what the tasks rely on
  is the contract \<open>task_links\<close>. An event is one turn of one task, up to its next wait. A turn whose
  wait is not over is not possible in that state. The turn of the actuator for a pulse spans
  the pulse, but it touches nothing that is shared after it has received its command.
\<close>

subsection \<open>Channels and signals\<close>

record ('q, 'm) channel =
  ch_new :: 'q
  ch_send :: "'q \<Rightarrow> 'm \<Rightarrow> 'q option"           \<comment> \<open>\<open>None\<close>: \<open>send\<close> waits\<close>
  ch_receive :: "'q \<Rightarrow> ('m \<times> 'q) option"       \<comment> \<open>\<open>None\<close>: \<open>receive\<close> waits\<close>

record ('s, 'v) signal_cell =
  sg_new :: 's
  sg_put :: "'s \<Rightarrow> 'v \<Rightarrow> 's"
  sg_take :: "'s \<Rightarrow> 'v option \<times> 's"           \<comment> \<open>\<open>None\<close>: \<open>wait\<close> waits\<close>

locale fifo_channel =
  fixes C :: "('q, 'm) channel"
    and queued :: "'q \<Rightarrow> 'm list"
    and capacity :: nat
  assumes new_empty: "queued (ch_new C) = []"
    and send_full: "ch_send C q m = None \<longleftrightarrow> capacity \<le> length (queued q)"
    and send_appends: "ch_send C q m = Some q1 \<Longrightarrow> queued q1 = queued q @ [m]"
    and receive_empty: "ch_receive C q = None \<longleftrightarrow> queued q = []"
    and receive_front: "ch_receive C q = Some (m, q1) \<Longrightarrow> queued q = m # queued q1"
begin

lemma send_room: "ch_send C q m = Some q1 \<Longrightarrow> length (queued q1) \<le> capacity"
  using send_full [of q m] send_appends [of q m q1] by simp

end

locale latest_signal =
  fixes S :: "('s, 'v) signal_cell"
    and held :: "'s \<Rightarrow> 'v option"
  assumes new_clear: "held (sg_new S) = None"
    and put_latest: "held (sg_put S s v) = Some v"
    and take_clears: "sg_take S s = (x, s1) \<Longrightarrow> x = held s \<and> held s1 = None"

text \<open>The three links of the tasks.\<close>

record ('q, 's, 'r) links =
  commands :: "('q, door_command) channel"
  door_signal :: "('s, door_state) signal_cell"
  reset_signal :: "('r, unit) signal_cell"

subsection \<open>The tasks\<close>

record ('q, 's, 'r) tasks =
  t_reed :: reed_debouncer
  t_door :: 's
  t_current :: "door_state option"
  t_online :: bool
  t_commands :: 'q
  t_actuator :: actuator
  t_reset :: 'r

definition tasks_start :: "('q, 's, 'r) links \<Rightarrow> bool \<Rightarrow> ('q, 's, 'r) tasks" where
  "tasks_start L level =
     (let (d, initial) = sensor_start level
      in \<lparr>t_reed = d, t_door = sg_put (door_signal L) (sg_new (door_signal L)) initial,
          t_current = None, t_online = False, t_commands = ch_new (commands L),
          t_actuator = actuator_start, t_reset = sg_new (reset_signal L)\<rparr>)"

datatype task_event =
    Reed_Sampled bool u64
  | Session_Opened bool              \<comment> \<open>the outcome of the publication of the state\<close>
  | Message bool bytes bytes bool    \<comment> \<open>retained, topic, payload, and the outcome of a publication\<close>
  | State_Taken bool                 \<comment> \<open>the outcome of the publication of the state\<close>
  | Session_Lost
  | Command_Taken u64 u64            \<comment> \<open>the clock when it is received, and when the turn ends\<close>
  | Reset_Taken

datatype task_effect =
  Told telemetry_action | Drove turn "relay_action list \<times> turn_result" | Check_Started

text \<open>What the telemetry task hands to the other tasks; \<open>None\<close> when it has to wait for room.\<close>

fun hand_over :: "('q, 's, 'r) links \<Rightarrow> 'q \<times> 'r \<Rightarrow> telemetry_action list \<Rightarrow> ('q \<times> 'r) option" where
  "hand_over L (q, r) [] = Some (q, r)"
| "hand_over L (q, r) (Send_Command c # acts) =
     (case ch_send (commands L) q c of None \<Rightarrow> None | Some q1 \<Rightarrow> hand_over L (q1, r) acts)"
| "hand_over L (q, r) (Signal_Update_Check # acts) = hand_over L (q, sg_put (reset_signal L) r ()) acts"
| "hand_over L (q, r) (_ # acts) = hand_over L (q, r) acts"

text \<open>A turn of the session loop.\<close>

definition session_event :: "('q, 's, 'r) links \<Rightarrow> u32 \<Rightarrow> ('q, 's, 'r) tasks \<Rightarrow> mqtt_event \<Rightarrow> bool \<Rightarrow>
    (('q, 's, 'r) tasks \<times> task_effect list) option" where
  "session_event L version st e published =
     (if \<not> t_online st then None
      else case session_turn version (t_current st) e published of
        (current, acts, going) \<Rightarrow>
          (case hand_over L (t_commands st, t_reset st) acts of
             None \<Rightarrow> None
           | Some (q, r) \<Rightarrow>
               Some (st\<lparr>t_current := current, t_online := going, t_commands := q, t_reset := r\<rparr>,
                 map Told acts)))"

fun task_step :: "('q, 's, 'r) links \<Rightarrow> u32 \<Rightarrow> ('q, 's, 'r) tasks \<Rightarrow> task_event \<Rightarrow>
    (('q, 's, 'r) tasks \<times> task_effect list) option" where
  "task_step L version st (Reed_Sampled closed now) =
     (case sensor_turn (t_reed st) (closed, now) of
        (d, None, _) \<Rightarrow> Some (st\<lparr>t_reed := d\<rparr>, [])
      | (d, Some s, _) \<Rightarrow> Some (st\<lparr>t_reed := d, t_door := sg_put (door_signal L) (t_door st) s\<rparr>, []))"
| "task_step L version st (Session_Opened published) =
     (if t_online st then None
      else case sg_take (door_signal L) (t_door st) of
        (taken, sig) \<Rightarrow>
          (case session_open taken (t_current st) published of
             (current, acts) \<Rightarrow>
               Some (st\<lparr>t_door := sig, t_current := current, t_online := True\<rparr>, map Told acts)))"
| "task_step L version st (Message retained topic payload published) =
     session_event L version st (Received retained topic payload) published"
| "task_step L version st (State_Taken published) =
     (case sg_take (door_signal L) (t_door st) of
        (None, _) \<Rightarrow> None
      | (Some s, sig) \<Rightarrow> session_event L version (st\<lparr>t_door := sig\<rparr>) (State_Changed s) published)"
| "task_step L version st Session_Lost = session_event L version st Receive_Failed True"
| "task_step L version st (Command_Taken now after) =
     (case ch_receive (commands L) (t_commands st) of
        None \<Rightarrow> None
      | Some (c, q) \<Rightarrow>
          (let e = \<lparr>turn_cmd = c, turn_now = now, turn_after = after\<rparr>;
               (a, out) = actuator_turn (t_actuator st) e
           in Some (st\<lparr>t_commands := q, t_actuator := a\<rparr>, [Drove e out])))"
| "task_step L version st Reset_Taken =
     (case sg_take (reset_signal L) (t_reset st) of
        (None, _) \<Rightarrow> None
      | (Some _, sig) \<Rightarrow> Some (st\<lparr>t_reset := sig\<rparr>, [Check_Started]))"

text \<open>The reachable states, with the events that led there and their effects.\<close>

inductive tasks_run :: "('q, 's, 'r) links \<Rightarrow> u32 \<Rightarrow> bool \<Rightarrow> ('q, 's, 'r) tasks \<Rightarrow> task_event list \<Rightarrow>
    task_effect list \<Rightarrow> bool"
  for L version level where
  started: "tasks_run L version level (tasks_start L level) [] []"
| stepped: "tasks_run L version level st es effs \<Longrightarrow> task_step L version st e = Some (st1, new) \<Longrightarrow>
    tasks_run L version level st1 (es @ [e]) (effs @ new)"

subsection \<open>What is observed of a run\<close>

definition is_live :: "bytes \<Rightarrow> task_event \<Rightarrow> bool" where
  "is_live wanted e = (case e of Message retained topic _ _ \<Rightarrow> \<not> retained \<and> topic = wanted | _ \<Rightarrow> False)"

text \<open>How many messages on a topic have been received that were not retained.\<close>

definition live_messages :: "bytes \<Rightarrow> task_event list \<Rightarrow> nat" where
  "live_messages topic es = length (filter (is_live topic) es)"

fun drive :: "task_effect \<Rightarrow> (turn \<times> relay_action list \<times> turn_result) option" where
  "drive (Drove e out) = Some (e, out)"
| "drive _ = None"

text \<open>The turns of the actuator, and their outcomes.\<close>

definition turns :: "task_effect list \<Rightarrow> turn list" where
  "turns effs = map fst (List.map_filter drive effs)"

definition turn_outputs :: "task_effect list \<Rightarrow> (relay_action list \<times> turn_result) list" where
  "turn_outputs effs = map snd (List.map_filter drive effs)"

definition check_starts :: "task_effect list \<Rightarrow> nat" where
  "check_starts effs = length (filter (\<lambda>e. e = Check_Started) effs)"

fun report :: "task_effect \<Rightarrow> (bytes \<times> bool) option" where
  "report (Told (Publish topic payload published)) =
     (if topic = TOPIC_ONCHANGE then Some (payload, published) else None)"
| "report _ = None"

text \<open>The last attempt to publish on the state topic: the payload, and whether it was sent.\<close>

fun newer :: "task_effect \<Rightarrow> (bytes \<times> bool) option \<Rightarrow> (bytes \<times> bool) option" where
  "newer e r = (case report e of Some p \<Rightarrow> Some p | None \<Rightarrow> r)"

definition last_report :: "task_effect list \<Rightarrow> (bytes \<times> bool) option" where
  "last_report effs = fold newer effs None"

lemma fold_newer: "fold newer es r = (case fold newer es None of Some p \<Rightarrow> Some p | None \<Rightarrow> r)"
  by (induction es rule: rev_induct) (simp_all split: option.split)

lemma last_report_append: "last_report (xs @ ys) = (case last_report ys of Some p \<Rightarrow> Some p | None \<Rightarrow> last_report xs)"
  unfolding last_report_def fold_append comp_apply by (rule fold_newer)

text \<open>The samples of the reed pin.\<close>

fun sample :: "task_event \<Rightarrow> (bool \<times> u64) option" where
  "sample (Reed_Sampled closed now) = Some (closed, now)"
| "sample _ = None"

definition samples :: "task_event list \<Rightarrow> (bool \<times> u64) list" where
  "samples es = List.map_filter sample es"

lemma observed_append [simp]:
  "turns (xs @ ys) = turns xs @ turns ys" "turn_outputs (xs @ ys) = turn_outputs xs @ turn_outputs ys"
  "check_starts (xs @ ys) = check_starts xs + check_starts ys"
  "live_messages t (es @ [e]) = live_messages t es + (if is_live t e then 1 else 0)"
  by (simp_all add: turns_def turn_outputs_def check_starts_def live_messages_def map_filter_def)

lemma observed_simps [simp]:
  "turns [] = []" "turn_outputs [] = []" "check_starts [] = 0" "live_messages t [] = 0" "last_report [] = None"
  "turns (Drove e out # effs) = e # turns effs" "turn_outputs (Drove e out # effs) = out # turn_outputs effs"
  "check_starts (Check_Started # effs) = Suc (check_starts effs)"
  by (simp_all add: turns_def turn_outputs_def check_starts_def live_messages_def map_filter_def last_report_def)

lemma observed_told [simp]:
  "turns (map Told acts) = []" "turn_outputs (map Told acts) = []" "check_starts (map Told acts) = 0"
  by (induction acts) (simp_all add: turns_def turn_outputs_def check_starts_def map_filter_def)

lemma observed_other [simp]:
  "turns [Told a] = []" "turn_outputs [Told a] = []" "check_starts [Told a] = 0"
  "turns [Check_Started] = []" "turn_outputs [Check_Started] = []" "check_starts [Drove e out] = 0"
  by (simp_all add: turns_def turn_outputs_def check_starts_def map_filter_def)

subsection \<open>One turn of the session\<close>

lemma topics_differ [simp]:
  "TOPIC_TRIGGER \<noteq> TOPIC_RESET" "TOPIC_RESET \<noteq> TOPIC_TRIGGER" "TOPIC_STATUS_RESPONSE \<noteq> TOPIC_ONCHANGE"
  by (simp_all add: TOPIC_TRIGGER_def TOPIC_RESET_def TOPIC_STATUS_RESPONSE_def TOPIC_ONCHANGE_def ascii_def)

lemma hand_over_message:
  "hand_over L (q, r) (answer v c (Received retained topic payload) published) =
     (if is_live TOPIC_TRIGGER (Message retained topic payload b)
      then map_option (\<lambda>q1. (q1, r)) (ch_send (commands L) q Trigger)
      else if is_live TOPIC_RESET (Message retained topic payload b)
      then Some (q, sg_put (reset_signal L) r ())
      else Some (q, r))"
  by (auto simp: answer_def is_live_def split: option.split sum.split)

lemma hand_over_other [simp]:
  "hand_over L (q, r) (answer v c (State_Changed s) published) = Some (q, r)"
  "hand_over L (q, r) (answer v c Receive_Failed published) = Some (q, r)"
  by (simp_all add: answer_def)

lemma last_report_told:
  "last_report (map Told (answer v c e published)) =
     (case e of State_Changed s \<Rightarrow> Some (onchange_text s, published) | _ \<Rightarrow> None)"
  by (cases e) (simp_all add: answer_def last_report_def split: option.split sum.split)

lemma session_event_message:
  assumes "session_event L version st (Received retained topic payload) published = Some (st1, new)"
  shows "\<exists>going q r. t_online st \<and> new = map Told (answer version (t_current st) (Received retained topic payload) published) \<and>
    hand_over L (t_commands st, t_reset st) (answer version (t_current st) (Received retained topic payload) published) =
      Some (q, r) \<and>
    st1 = st\<lparr>t_online := going, t_commands := q, t_reset := r\<rparr>"
  using assms by (auto simp: session_event_def session_turn_answer split: if_splits option.splits)

lemma session_event_state:
  "session_event L version st (State_Changed s) published =
     (if t_online st
      then Some (st\<lparr>t_current := Some s\<rparr>, [Told (Publish TOPIC_ONCHANGE (onchange_text s) published)]) else None)"
  by (simp add: session_event_def session_turn_answer)
    (simp add: answer_def is_response_def TOPIC_ONCHANGE_def TOPIC_STATUS_RESPONSE_def ascii_def)

lemma session_event_lost:
  "session_event L version st Receive_Failed published =
     (if t_online st then Some (st\<lparr>t_online := False\<rparr>, []) else None)"
  by (simp add: session_event_def session_turn_answer) (simp add: answer_def)

text \<open>The turns, one case each.\<close>

lemma task_step_cases [consumes 1, case_names reed opened message state lost command reset]:
  assumes "task_step L version st e = Some (st1, new)"
  obtains closed now d change w where "e = Reed_Sampled closed now"
      "sensor_turn (t_reed st) (closed, now) = (d, change, w)" "new = []"
      "st1 = st\<lparr>t_reed := d,
        t_door := (case change of None \<Rightarrow> t_door st | Some s \<Rightarrow> sg_put (door_signal L) (t_door st) s)\<rparr>"
  | taken sig current acts published where "e = Session_Opened published" "\<not> t_online st"
      "sg_take (door_signal L) (t_door st) = (taken, sig)"
      "session_open taken (t_current st) published = (current, acts)" "new = map Told acts"
      "st1 = st\<lparr>t_door := sig, t_current := current, t_online := True\<rparr>"
  | retained topic payload published going q r where "e = Message retained topic payload published" "t_online st"
      "new = map Told (answer version (t_current st) (Received retained topic payload) published)"
      "hand_over L (t_commands st, t_reset st) (answer version (t_current st) (Received retained topic payload) published) =
        Some (q, r)"
      "st1 = st\<lparr>t_online := going, t_commands := q, t_reset := r\<rparr>"
  | s sig published where "e = State_Taken published" "t_online st" "sg_take (door_signal L) (t_door st) = (Some s, sig)"
      "new = [Told (Publish TOPIC_ONCHANGE (onchange_text s) published)]"
      "st1 = st\<lparr>t_door := sig, t_current := Some s\<rparr>"
  | "e = Session_Lost" "t_online st" "new = []" "st1 = st\<lparr>t_online := False\<rparr>"
  | now after c q a out where "e = Command_Taken now after"
      "ch_receive (commands L) (t_commands st) = Some (c, q)"
      "actuator_turn (t_actuator st) \<lparr>turn_cmd = c, turn_now = now, turn_after = after\<rparr> = (a, out)"
      "new = [Drove \<lparr>turn_cmd = c, turn_now = now, turn_after = after\<rparr> out]"
      "st1 = st\<lparr>t_commands := q, t_actuator := a\<rparr>"
  | u sig where "e = Reset_Taken" "sg_take (reset_signal L) (t_reset st) = (Some u, sig)"
      "new = [Check_Started]" "st1 = st\<lparr>t_reset := sig\<rparr>"
proof (cases e)
  case (Reed_Sampled closed now)
  with assms show ?thesis
    by (cases "sensor_turn (t_reed st) (closed, now)") (auto intro: that(1) split: option.splits)
next
  case (Session_Opened published)
  with assms show ?thesis by (auto intro: that(2) split: if_splits prod.splits)
next
  case (Message retained topic payload published)
  with assms session_event_message [of L version st retained topic payload published st1 new] show ?thesis
    by (auto intro: that(3))
next
  case (State_Taken published)
  with assms show ?thesis
    by (auto simp: session_event_state intro: that(4) split: option.splits prod.splits if_splits)
next
  case Session_Lost
  with assms show ?thesis by (auto simp: session_event_lost intro: that(5) split: if_splits)
next
  case (Command_Taken now after)
  with assms show ?thesis by (auto simp: Let_def intro: that(6) split: option.splits prod.splits)
next
  case Reset_Taken
  with assms show ?thesis by (auto intro: that(7) split: option.splits prod.splits)
qed

text \<open>Only the opening of a session and a change of the state report it, so a report that failed stays failed.\<close>

lemma failed_report_stays:
  assumes "task_step L version st e = Some (st1, new)" and "last_report effs = Some (payload, False)"
    and "\<forall>sent. e \<noteq> Session_Opened sent \<and> e \<noteq> State_Taken sent"
  shows "last_report (effs @ new) = Some (payload, False)"
  using assms(1)
proof (cases rule: task_step_cases)
  case (message retained topic body published going q r)
  with assms(2) show ?thesis by (simp add: last_report_append last_report_told)
qed (use assms(2,3) in \<open>simp_all add: last_report_append last_report_def\<close>)

subsection \<open>The invariants of the tasks\<close>

text \<open>Every command is a trigger message that was received, in order, and waits or was taken.\<close>

definition commands_inv :: "('q \<Rightarrow> door_command list) \<Rightarrow> ('q, 's, 'r) tasks \<Rightarrow> task_event list \<Rightarrow>
    task_effect list \<Rightarrow> bool" where
  "commands_inv queued st es effs \<longleftrightarrow>
     map turn_cmd (turns effs) @ queued (t_commands st) =
       replicate (live_messages TOPIC_TRIGGER es) Trigger \<and>
     length (queued (t_commands st)) \<le> 4"

definition actuator_inv :: "('q, 's, 'r) tasks \<Rightarrow> task_effect list \<Rightarrow> bool" where
  "actuator_inv st effs \<longleftrightarrow>
     run actuator_turn actuator_start (turns effs) = (t_actuator st, turn_outputs effs)"

text \<open>Requests for an update check may be merged, and are never made up.\<close>

definition reset_inv :: "('r \<Rightarrow> unit option) \<Rightarrow> ('q, 's, 'r) tasks \<Rightarrow> task_event list \<Rightarrow>
    task_effect list \<Rightarrow> bool" where
  "reset_inv asked st es effs \<longleftrightarrow>
     check_starts effs + (if asked (t_reset st) = None then 0 else 1) \<le> live_messages TOPIC_RESET es"

text \<open>The telemetry task knows the committed state, or it waits in the signal; online, what it
  knows is what it last tried to publish.\<close>

definition door_inv :: "('s \<Rightarrow> door_state option) \<Rightarrow> ('q, 's, 'r) tasks \<Rightarrow> task_effect list \<Rightarrow> bool" where
  "door_inv held st effs \<longleftrightarrow>
     (case held (t_door st) of
        Some s \<Rightarrow> s = committed (t_reed st)
      | None \<Rightarrow> t_current st = Some (committed (t_reed st))) \<and>
     (t_online st \<longrightarrow>
        (case t_current st of Some d \<Rightarrow> map_option fst (last_report effs) = Some (onchange_text d) | None \<Rightarrow> False))"

locale task_links =
  commands: fifo_channel "commands L" queued 4 +
  door: latest_signal "door_signal L" held +
  resets: latest_signal "reset_signal L" asked
  for L :: "('q, 's, 'r) links"
    and queued :: "'q \<Rightarrow> door_command list"
    and held :: "'s \<Rightarrow> door_state option"
    and asked :: "'r \<Rightarrow> unit option"
begin

lemma commands_step:
  assumes "task_step L version st e = Some (st1, new)" and "commands_inv queued st es effs"
  shows "commands_inv queued st1 (es @ [e]) (effs @ new)"
  using assms(1)
proof (cases rule: task_step_cases)
  case (message retained topic payload published going q r)
  show ?thesis
  proof (cases "is_live TOPIC_TRIGGER e")
    case True
    with message have send: "ch_send (commands L) (t_commands st) Trigger = Some q"
      by (auto simp: hand_over_message [where b = published])
    with assms(2) True message commands.send_room [OF send] commands.send_appends [OF send] show ?thesis
      by (simp add: commands_inv_def flip: append_assoc replicate_append_same)
  next
    case False
    with message have "q = t_commands st"
      by (auto simp: hand_over_message [where b = published] split: if_splits)
    with assms(2) False message show ?thesis by (simp add: commands_inv_def)
  qed
next
  case (command now after c q a out)
  with assms(2) commands.receive_front [OF command(2)] show ?thesis
    by (simp add: commands_inv_def is_live_def)
qed (use assms(2) in \<open>simp_all add: commands_inv_def is_live_def\<close>)

lemma actuator_step:
  assumes "task_step L version st e = Some (st1, new)" and "actuator_inv st effs"
  shows "actuator_inv st1 (effs @ new)"
  using assms(1)
proof (cases rule: task_step_cases)
  case (command now after c q a out)
  with assms(2) show ?thesis
    by (simp add: actuator_inv_def prod_eq_iff)
qed (use assms(2) in \<open>simp_all add: actuator_inv_def\<close>)

lemma reset_step:
  assumes "task_step L version st e = Some (st1, new)" and "reset_inv asked st es effs"
  shows "reset_inv asked st1 (es @ [e]) (effs @ new)"
  using assms(1)
proof (cases rule: task_step_cases)
  case (message retained topic payload published going q r)
  with assms(2) show ?thesis
    by (auto simp: reset_inv_def hand_over_message [where b = published] split: if_splits)
next
  case (reset u sig)
  with assms(2) resets.take_clears [OF reset(2)] show ?thesis
    by (auto simp: reset_inv_def is_live_def split: if_splits)
qed (use assms(2) in \<open>simp_all add: reset_inv_def is_live_def\<close>)

lemma door_step:
  assumes "task_step L version st e = Some (st1, new)" and "door_inv held st effs"
  shows "door_inv held st1 (effs @ new)"
  using assms(1)
proof (cases rule: task_step_cases)
  case (reed closed now d change w)
  then have "d = fst (debounce_step (t_reed st) (closed, now))"
      "change = snd (debounce_step (t_reed st) (closed, now))"
    using sensor_turn_simps [of "t_reed st" "(closed, now)"] by simp_all
  with assms(2) reed debounce_emits [of "t_reed st" "(closed, now)"] show ?thesis
    by (simp add: door_inv_def last_report_append door.put_latest split: option.splits if_splits del: debounce_step.simps)
next
  case (opened taken sig current acts published)
  let ?c = "committed (t_reed st)"
  have taken: "taken = held (t_door st)" "held sig = None" using door.take_clears [OF opened(3)] by simp_all
  then have "current = Some ?c" and "acts = [Publish TOPIC_ONCHANGE (onchange_text ?c) published]"
    using opened(4) assms(2)
    by (auto simp: door_inv_def session_open_def publish_state_text split: option.splits)
  then show ?thesis
    using opened taken(2) by (simp add: door_inv_def last_report_append) (simp add: last_report_def)
next
  case (message retained topic payload published going q r)
  with assms(2) show ?thesis
    by (auto simp: door_inv_def last_report_append last_report_told split: option.splits)
next
  case (state s sig published)
  with assms(2) door.take_clears [OF state(3)] show ?thesis
    by (auto simp: door_inv_def last_report_append last_report_def split: option.splits)
qed (use assms(2) in \<open>auto simp: door_inv_def last_report_append last_report_def split: option.splits\<close>)

lemma reed_step:
  assumes "task_step L version st e = Some (st1, new)"
  shows "t_reed st1 = final debounce_step (t_reed st) (List.map_filter sample [e])"
  using assms
proof (cases rule: task_step_cases)
  case (reed closed now d change w)
  then show ?thesis
    using sensor_turn_simps(1) [of "t_reed st" "(closed, now)"] by (simp add: map_filter_def)
qed (simp_all add: map_filter_def)

lemma run_reed:
  "tasks_run L version level st es effs \<Longrightarrow>
     t_reed st = final debounce_step (debouncer_new (reed_level level)) (samples es)"
proof (induction rule: tasks_run.induct)
  case started
  show ?case by (simp add: tasks_start_def sensor_start_def samples_def map_filter_def reed_level_def)
next
  case (stepped st es effs e st1 new)
  then show ?case
    using reed_step [OF stepped.hyps(2)] by (simp add: samples_def map_filter_def)
qed

lemma run_invariants:
  assumes "tasks_run L version level st es effs"
  shows "commands_inv queued st es effs" and "actuator_inv st effs" and "reset_inv asked st es effs"
    and "door_inv held st effs"
  using assms
proof (induction)
  case started
  {
    case 1
    show ?case by (simp add: commands_inv_def tasks_start_def sensor_start_def commands.new_empty)
  next
    case 2
    show ?case by (simp add: actuator_inv_def tasks_start_def sensor_start_def)
  next
    case 3
    show ?case by (simp add: reset_inv_def tasks_start_def sensor_start_def resets.new_clear)
  next
    case 4
    show ?case
      by (simp add: door_inv_def tasks_start_def sensor_start_def door.put_latest debouncer_new_def)
  }
next
  case (stepped st es effs e st1 new)
  {
    case 1
    show ?case by (rule commands_step [OF stepped.hyps(2) stepped.IH(1)])
  next
    case 2
    show ?case by (rule actuator_step [OF stepped.hyps(2) stepped.IH(2)])
  next
    case 3
    show ?case by (rule reset_step [OF stepped.hyps(2) stepped.IH(3)])
  next
    case 4
    show ?case by (rule door_step [OF stepped.hyps(2) stepped.IH(4)])
  }
qed

end

subsection \<open>Running the tasks\<close>

text \<open>The relation is executed by this function: it stops at the first event that is not possible.\<close>

fun play :: "('q, 's, 'r) links \<Rightarrow> u32 \<Rightarrow> ('q, 's, 'r) tasks \<Rightarrow> task_event list \<Rightarrow>
    (('q, 's, 'r) tasks \<times> task_effect list) option" where
  "play L version st [] = Some (st, [])"
| "play L version st (e # es) =
     (case task_step L version st e of
        None \<Rightarrow> None
      | Some (st1, new) \<Rightarrow> map_option (\<lambda>(st2, effs). (st2, new @ effs)) (play L version st1 es))"

lemma play_runs:
  assumes "tasks_run L version level st es effs" and "play L version st es1 = Some (st1, effs1)"
  shows "tasks_run L version level st1 (es @ es1) (effs @ effs1)"
  using assms
proof (induction es1 arbitrary: st es effs effs1)
  case Nil
  then show ?case by simp
next
  case (Cons e es1)
  then obtain st2 new effs2 where "task_step L version st e = Some (st2, new)"
      "play L version st2 es1 = Some (st1, effs2)" "effs1 = new @ effs2"
    by (auto split: option.splits)
  with Cons.IH [OF stepped [OF Cons.prems(1)]] show ?case by fastforce
qed

text \<open>The contract of the links holds of a bounded list and of an option.\<close>

definition list_channel :: "nat \<Rightarrow> ('m list, 'm) channel" where
  "list_channel n =
     \<lparr>ch_new = [], ch_send = (\<lambda>q m. if length q < n then Some (q @ [m]) else None),
      ch_receive = (\<lambda>q. case q of [] \<Rightarrow> None | m # q1 \<Rightarrow> Some (m, q1))\<rparr>"

definition option_signal :: "('v option, 'v) signal_cell" where
  "option_signal = \<lparr>sg_new = None, sg_put = (\<lambda>_ v. Some v), sg_take = (\<lambda>s. (s, None))\<rparr>"

definition list_links :: "(door_command list, door_state option, unit option) links" where
  "list_links =
     \<lparr>commands = list_channel 4, door_signal = option_signal, reset_signal = option_signal\<rparr>"

interpretation lists: task_links list_links "\<lambda>q. q" "\<lambda>s. s" "\<lambda>r. r"
  by unfold_locales
    (auto simp: list_links_def list_channel_def option_signal_def split: if_splits list.splits)

lemma pulser_writes:
  "concat (map fst (outputs pulser_turn p es)) =
     concat (replicate (length (pulse_times es (outputs pulser_turn p es))) [AssertHigh, DeassertLow])"
proof (induction es arbitrary: p)
  case Nil
  show ?case by simp
next
  case (Cons e es)
  then show ?case by (simp add: pulser_turn_def)
qed

lemma pulse_count: "length (pulse_times es outs) \<le> length es"
  unfolding pulse_times_def by (simp add: le_trans [OF length_filter_le])

subsection \<open>Properties\<close>

text \<open>
  C5: only a trigger message drives the relay, in any interleaving of the tasks. The commands the
  actuator has taken and those that wait, four at most, are the trigger messages received
  that were not retained: none is lost, made up or doubled. Each pulse is the answer to one of
  them, as one high and one low; pulses start at least a pulse plus a cooldown apart; and between
  the turns the relay is low. And no update check is started that was not asked for.
\<close>

theorem pulses_answer_triggers:
  assumes "task_links L queued held asked" and "tasks_run L version level st es effs"
    and "legal_run turn_legal pulser_turn pulser_start (turns effs)"
  shows "let pulses = pulse_times (turns effs) (turn_outputs effs) in
    map turn_cmd (turns effs) @ queued (t_commands st) =
      replicate (live_messages TOPIC_TRIGGER es) Trigger \<and>
    length (queued (t_commands st)) \<le> 4 \<and> length pulses \<le> live_messages TOPIC_TRIGGER es \<and>
    concat (map fst (turn_outputs effs)) = concat (replicate (length pulses) [AssertHigh, DeassertLow]) \<and>
    spaced (unat RELAY_PULSE_MS + unat RELAY_COOLDOWN_MS) pulses \<and> \<not> relay_high (t_actuator st) \<and>
    check_starts effs \<le> live_messages TOPIC_RESET es"
proof -
  note I = task_links.run_invariants [OF assms(1,2)]
  let ?pulses = "pulse_times (turns effs) (turn_outputs effs)"
  have a: "final actuator_turn actuator_start (turns effs) = t_actuator st"
      "outputs actuator_turn actuator_start (turns effs) = turn_outputs effs"
    using I(2) by (simp_all add: actuator_inv_def)
  note sim = pulse_task.sim_run [OF pulser_rel_start assms(3), unfolded a]
  have cmds: "map turn_cmd (turns effs) @ queued (t_commands st) =
      replicate (live_messages TOPIC_TRIGGER es) Trigger" "length (queued (t_commands st)) \<le> 4"
    using I(1) by (simp_all add: commands_inv_def)
  have "length (turns effs) \<le> live_messages TOPIC_TRIGGER es"
    using arg_cong [OF cmds(1), of length] by simp
  then have "length ?pulses \<le> live_messages TOPIC_TRIGGER es"
    using pulse_count le_trans by blast
  moreover have "concat (map fst (turn_outputs effs)) = concat (replicate (length ?pulses) [AssertHigh, DeassertLow])"
    using sim pulser_writes [of pulser_start "turns effs"] by simp
  moreover have "spaced PERIOD ?pulses" using sim pulser_spaced [of pulser_start "turns effs"] by simp
  moreover have "\<not> relay_high (t_actuator st)" using sim by (simp add: pulser_rel_def)
  moreover have "check_starts effs \<le> live_messages TOPIC_RESET es" using I(3) by (simp add: reset_inv_def)
  ultimately show ?thesis using cmds by (simp add: Let_def PERIOD_def)
qed

definition sample_events :: "task_event list" where
  "sample_events =
     [Session_Opened True, Message True TOPIC_TRIGGER [] True, Message False TOPIC_TRIGGER [] True,
      Message False TOPIC_TRIGGER [] True, Reed_Sampled False 10, Command_Taken 100 700,
      Reed_Sampled False 60, Command_Taken 701 701, Message False TOPIC_RESET [] True, Reset_Taken]"

lemma sample_play:
  "map_option (\<lambda>(st, effs). (turns effs, map snd (turn_outputs effs), check_starts effs, t_online st, t_door st))
     (play list_links 7 (tasks_start list_links True) sample_events) =
   Some ([\<lparr>turn_cmd = Trigger, turn_now = 100, turn_after = 700\<rparr>,
       \<lparr>turn_cmd = Trigger, turn_now = 701, turn_after = 701\<rparr>],
     [Pulsed, Rejected (Cooldown 1999)], 1, True, Some Open)"
  by code_simp

lemma sample_run:
  "\<exists>st effs. tasks_run list_links 7 True st sample_events effs \<and>
     turns effs = [\<lparr>turn_cmd = Trigger, turn_now = 100, turn_after = 700\<rparr>,
       \<lparr>turn_cmd = Trigger, turn_now = 701, turn_after = 701\<rparr>] \<and>
     map snd (turn_outputs effs) = [Pulsed, Rejected (Cooldown 1999)] \<and> check_starts effs = 1 \<and>
     t_online st \<and> t_door st = Some Open"
  using sample_play play_runs [OF started, of list_links 7 True sample_events] by fastforce

lemma sample_turns_in_order:
  "legal_run turn_legal pulser_turn pulser_start
     [\<lparr>turn_cmd = Trigger, turn_now = 100, turn_after = 700\<rparr>,
      \<lparr>turn_cmd = Trigger, turn_now = 701, turn_after = 701\<rparr>]"
  by (simp add: turn_legal_def pulser_turn_def pulser_start_def ready_def time_ok_def door_consts)

theorem pulses_answer_triggers_witness:
  "\<exists>st effs. tasks_run list_links 7 True st sample_events effs \<and>
     legal_run turn_legal pulser_turn pulser_start (turns effs) \<and>
     pulse_times (turns effs) (turn_outputs effs) = [100] \<and> check_starts effs = 1 \<and>
     (let pulses = pulse_times (turns effs) (turn_outputs effs) in
      map turn_cmd (turns effs) @ t_commands st =
        replicate (live_messages TOPIC_TRIGGER sample_events) Trigger \<and>
      length (t_commands st) \<le> 4 \<and> length pulses \<le> live_messages TOPIC_TRIGGER sample_events \<and>
      concat (map fst (turn_outputs effs)) = concat (replicate (length pulses) [AssertHigh, DeassertLow]) \<and>
      spaced (unat RELAY_PULSE_MS + unat RELAY_COOLDOWN_MS) pulses \<and> \<not> relay_high (t_actuator st) \<and>
      check_starts effs \<le> live_messages TOPIC_RESET sample_events)"
proof -
  obtain st effs where R: "tasks_run list_links 7 True st sample_events effs"
      "turns effs = [\<lparr>turn_cmd = Trigger, turn_now = 100, turn_after = 700\<rparr>,
        \<lparr>turn_cmd = Trigger, turn_now = 701, turn_after = 701\<rparr>]"
      "map snd (turn_outputs effs) = [Pulsed, Rejected (Cooldown 1999)]" "check_starts effs = 1"
    using sample_run by metis
  from R(3) have "pulse_times (turns effs) (turn_outputs effs) = [100]"
    unfolding R(2) by (auto simp: map_eq_Cons_conv)
  moreover have legal: "legal_run turn_legal pulser_turn pulser_start (turns effs)"
    unfolding R(2) by (rule sample_turns_in_order)
  ultimately show ?thesis
    using pulses_answer_triggers [OF lists.task_links_axioms R(1) legal] R(1,4) by blast
qed

text \<open>
  C15: the reports follow the door. In any interleaving of the tasks, the state committed by the
  debouncer from all samples of the reed pin so far either waits in the door signal or is what
  the telemetry task knows. Without a session, the next one to open tries to publish exactly that state. While a
  session is open, the committed state is what the task last tried to publish on the state topic, and
  the topic has it unless that very publication failed; or the state waits in the signal, and then a turn of
  the session is possible that tries to publish it. So every committed state gets one attempt, however the tasks are
  scheduled and however often the session breaks; a failed attempt is not repeated before the
  next change or session (\<open>failed_report_stays\<close>).
\<close>

theorem reports_follow_door:
  assumes "task_links L queued held asked" and "tasks_run L version level st es effs"
  shows "let door = committed (final debounce_step (debouncer_new (reed_level level)) (samples es));
      attempt = (\<lambda>sent. [Told (Publish TOPIC_ONCHANGE (onchange_text door) sent)]) in
    (case held (t_door st) of Some s \<Rightarrow> s = door | None \<Rightarrow> t_current st = Some door) \<and>
    (if \<not> t_online st then \<forall>sent. \<exists>st1. task_step L version st (Session_Opened sent) = Some (st1, attempt sent)
     else if held (t_door st) = None then \<exists>sent. last_report effs = Some (onchange_text door, sent)
     else \<forall>sent. \<exists>st1. task_step L version st (State_Taken sent) = Some (st1, attempt sent))"
proof -
  note I = task_links.run_invariants(4) [OF assms, unfolded task_links.run_reed [OF assms] door_inv_def]
  let ?door = "committed (final debounce_step (debouncer_new (reed_level level)) (samples es))"
  obtain taken sig where take: "sg_take (door_signal L) (t_door st) = (taken, sig)" by (metis surj_pair)
  moreover have "taken = held (t_door st)"
    using task_links.axioms(2) [OF assms(1)] latest_signal.take_clears [OF _ take] by blast
  moreover have "task_step L version st (State_Taken sent) = Some (st\<lparr>t_door := sig, t_current := Some ?door\<rparr>,
      [Told (Publish TOPIC_ONCHANGE (onchange_text ?door) sent)])"
    if "t_online st" "taken = Some ?door" for sent
    using that take by (simp add: session_event_state)
  moreover have "task_step L version st (Session_Opened sent) =
      Some (st\<lparr>t_door := sig, t_current := Some ?door, t_online := True\<rparr>,
        [Told (Publish TOPIC_ONCHANGE (onchange_text ?door) sent)])"
    if "\<not> t_online st" "(case taken of Some s \<Rightarrow> s = ?door | None \<Rightarrow> t_current st = Some ?door)" for sent
    using that take by (auto simp: session_open_def publish_state_text split: option.splits)
  ultimately show ?thesis
    using I by (cases "held (t_door st)") (auto simp: Let_def)
qed

text \<open>The publication of the opening fails in this run: the session goes on, and the topic still has what it had.\<close>

definition failed_events :: "task_event list" where
  "failed_events = [Session_Opened True, Reed_Sampled False 10, Reed_Sampled False 60, State_Taken False]"

lemma failed_play:
  "map_option (\<lambda>(st, effs). (t_online st, t_door st, last_report effs))
     (play list_links 7 (tasks_start list_links True) failed_events) =
   Some (True, None, Some (onchange_text Open, False))"
  by code_simp

theorem reports_follow_door_witness:
  "(\<exists>st effs. tasks_run list_links 7 True st failed_events effs \<and> t_online st \<and> t_door st = None \<and>
     t_current st = Some Open \<and> last_report effs = Some (onchange_text Open, False)) \<and>
   (\<exists>st effs. tasks_run list_links 7 True st sample_events effs \<and> t_online st \<and> t_door st = Some Open \<and>
     (\<forall>sent. \<exists>st1. task_step list_links 7 st (State_Taken sent) =
       Some (st1, [Told (Publish TOPIC_ONCHANGE (onchange_text Open) sent)])))"
proof
  obtain st effs where R: "tasks_run list_links 7 True st failed_events effs" "t_online st" "t_door st = None"
      "last_report effs = Some (onchange_text Open, False)"
    using failed_play play_runs [OF started, of list_links 7 True failed_events] by fastforce
  have "committed (final debounce_step (debouncer_new (reed_level True)) (samples failed_events)) = Open" by code_simp
  with reports_follow_door [OF lists.task_links_axioms R(1)] R show "\<exists>st effs. tasks_run list_links 7 True st failed_events effs \<and>
      t_online st \<and> t_door st = None \<and> t_current st = Some Open \<and> last_report effs = Some (onchange_text Open, False)"
    by (auto simp: Let_def)
next
  obtain st effs where R: "tasks_run list_links 7 True st sample_events effs" "t_online st" "t_door st = Some Open"
    using sample_run by blast
  have "committed (final debounce_step (debouncer_new (reed_level True)) (samples sample_events)) = Open" by code_simp
  with reports_follow_door [OF lists.task_links_axioms R(1)] R show "\<exists>st effs. tasks_run list_links 7 True st sample_events effs \<and>
      t_online st \<and> t_door st = Some Open \<and> (\<forall>sent. \<exists>st1. task_step list_links 7 st (State_Taken sent) =
        Some (st1, [Told (Publish TOPIC_ONCHANGE (onchange_text Open) sent)]))"
    by (auto simp: Let_def)
qed

end
