(* ===== verification/Build_Scripts.thy ===== *)
theory Build_Scripts
  imports Memory_X Boot
begin

text \<open>
  The build scripts of the two images, \<open>app/build.rs\<close> and the \<open>main\<close> of \<open>bootloader/build.rs\<close>. The
  state is the file system, a map from paths to contents (ASCII text and blobs alike as strings),
  and the directives printed for Cargo. A script answers with a panic or with \<open>()\<close>. What the
  operating system does is a parameter: the environment variables, which paths can be written, and
  for the download command, per URL, whether it runs, what it writes and whether it succeeds. \<open>chk\<close> is as in \<open>Memory_X\<close>.
\<close>

datatype script_panic =
    No_Variable string | Io_Error string | Bad_Version | Missing_Secrets | Curl_Not_Run | Download_Failed
  | Invalid_Map build_panic

record os =
  variable :: "string \<Rightarrow> string option"
  writable :: "string \<Rightarrow> bool"
  curl :: "string \<Rightarrow> (string option \<times> bool) option"

record host =
  files :: "string \<Rightarrow> string option"
  printed :: "bytes list"

type_synonym script = "host \<Rightarrow> host \<times> (script_panic + unit)"

definition and_do :: "script \<Rightarrow> script \<Rightarrow> script" where
  "and_do a b h = (case a h of (h1, Inl e) \<Rightarrow> (h1, Inl e) | (h1, Inr _) \<Rightarrow> b h1)"

definition say :: "bytes \<Rightarrow> script" where
  "say l h = (h\<lparr>printed := printed h @ [l]\<rparr>, Inr ())"

definition say_all :: "string list \<Rightarrow> script" where
  "say_all ls h = (h\<lparr>printed := printed h @ map ascii ls\<rparr>, Inr ())"

definition path_join :: "string \<Rightarrow> string \<Rightarrow> string" where
  "path_join dir name = dir @ ''/'' @ name"

definition copy_file :: "os \<Rightarrow> string \<Rightarrow> string \<Rightarrow> script" where
  "copy_file S src dst h =
     (case files h src of
        None \<Rightarrow> (h, Inl (Io_Error src))
      | Some c \<Rightarrow>
          if writable S dst then (h\<lparr>files := (files h)(dst \<mapsto> c)\<rparr>, Inr ())
          else (h, Inl (Io_Error dst)))"

text \<open>\<open>let _ = fs::remove_file(..)\<close>: a failure is ignored.\<close>

definition remove_file :: "os \<Rightarrow> string \<Rightarrow> host \<Rightarrow> host" where
  "remove_file S p h = (if writable S p then h\<lparr>files := (files h)(p := None)\<rparr> else h)"

definition rename_file :: "os \<Rightarrow> string \<Rightarrow> string \<Rightarrow> script" where
  "rename_file S src dst h =
     (case files h src of
        None \<Rightarrow> (h, Inl (Io_Error src))
      | Some c \<Rightarrow>
          if writable S dst then (h\<lparr>files := (files h)(src := None, dst \<mapsto> c)\<rparr>, Inr ())
          else (h, Inl (Io_Error dst)))"

subsection \<open>The application\<close>

text \<open>The memory map goes into \<open>OUT_DIR\<close>; both scripts do this.\<close>

definition setup_memory_x :: "os \<Rightarrow> script" where
  "setup_memory_x S h =
     (case variable S ''OUT_DIR'' of
        None \<Rightarrow> (h, Inl (No_Variable ''OUT_DIR''))
      | Some out \<Rightarrow>
          and_do (copy_file S ''memory.x'' (path_join out ''memory.x''))
            (say_all [''cargo:rustc-link-search='' @ out, ''cargo:rerun-if-changed=memory.x'']) h)"

definition emit_linker_args :: script where
  "emit_linker_args =
     say_all [''cargo:rustc-link-arg-bins=--nmagic'', ''cargo:rustc-link-arg-bins=-Tlink.x'',
       ''cargo:rustc-link-arg-bins=-Tdefmt.x'']"

text \<open>\<open>str::parse::<u32>\<close>.\<close>

definition parse_u32_str :: "bytes \<Rightarrow> u32 option" where
  "parse_u32_str s =
     (let ds = (if s \<noteq> [] \<and> hd s = 0x2B then tl s else s)
      in if ds = [] \<or> \<not> list_all is_ascii_digit ds then None else checked_number 0 ds)"

definition VERSION_VARIABLE :: bytes where
  "VERSION_VARIABLE = ascii ''cargo:rustc-env=GARAGEDOOR_BUILD_VERSION=''"

definition emit_version :: "os \<Rightarrow> string \<Rightarrow> script" where
  "emit_version S manifest_dir =
     (let version_path = path_join manifest_dir ''../VERSION'' in
      and_do (say (ascii (''cargo:rerun-if-changed='' @ version_path))) (\<lambda>h.
        case files h version_path of
          None \<Rightarrow> (h, Inl (Io_Error version_path))
        | Some raw \<Rightarrow>
            (case parse_u32_str (ascii (trim raw)) of
               None \<Rightarrow> (h, Inl Bad_Version)
             | Some version \<Rightarrow> say (VERSION_VARIABLE @ decimal (unat version)) h)))"

definition check_secrets :: "os \<Rightarrow> string \<Rightarrow> script" where
  "check_secrets S manifest_dir h =
     (let secrets_path = path_join manifest_dir ''src/secrets.rs'' in
      if files h secrets_path = None then (h, Inl Missing_Secrets)
      else say (ascii (''cargo:rerun-if-changed='' @ secrets_path)) h)"

definition fetch_blob :: "os \<Rightarrow> string \<Rightarrow> string \<Rightarrow> string \<Rightarrow> script" where
  "fetch_blob S dest tmp_dest url h =
     (case curl S url of
        None \<Rightarrow> (h, Inl Curl_Not_Run)
      | Some (out, ok) \<Rightarrow>
          (let h1 = (case out of None \<Rightarrow> h | Some c \<Rightarrow> h\<lparr>files := (files h)(tmp_dest \<mapsto> c)\<rparr>) in
           if \<not> ok then (remove_file S tmp_dest h1, Inl Download_Failed)
           else rename_file S tmp_dest dest h1))"

definition download_blob_if_missing :: "os \<Rightarrow> string \<Rightarrow> string \<Rightarrow> string \<Rightarrow> script" where
  "download_blob_if_missing S firmware_dir name url =
     (let dest = path_join firmware_dir name;
          tmp_dest = path_join firmware_dir (name @ ''.tmp'')
      in and_do (say (ascii (''cargo:rerun-if-changed='' @ dest))) (\<lambda>h.
           case files h dest of
             Some c \<Rightarrow>
               if c \<noteq> [] then (h, Inr ())
               else fetch_blob S dest tmp_dest url (remove_file S dest h)
           | None \<Rightarrow> fetch_blob S dest tmp_dest url h))"

definition BLOB_BASE :: string where
  "BLOB_BASE =
     ''https://raw.githubusercontent.com/embassy-rs/embassy/3cd51e6d8eb6aff8b0d64d9e56a75a538bcfc65a/cyw43-firmware/''"

definition BLOBS :: "string list" where
  "BLOBS = [''43439A0.bin'', ''43439A0_clm.bin'', ''nvram_rp2040.bin'']"

primrec download_all :: "os \<Rightarrow> string \<Rightarrow> string list \<Rightarrow> script" where
  "download_all S dir [] = (\<lambda>h. (h, Inr ()))"
| "download_all S dir (name # names) =
     and_do (download_blob_if_missing S dir name (BLOB_BASE @ name)) (download_all S dir names)"

text \<open>The directory is created first, which fails where it cannot be written.\<close>

definition fetch_firmware_blobs :: "os \<Rightarrow> string \<Rightarrow> script" where
  "fetch_firmware_blobs S manifest_dir h =
     (let firmware_dir = path_join manifest_dir ''firmware'' in
      if \<not> writable S firmware_dir then (h, Inl (Io_Error firmware_dir))
      else download_all S firmware_dir BLOBS h)"

definition app_build :: "os \<Rightarrow> script" where
  "app_build S =
     and_do (setup_memory_x S) (and_do emit_linker_args (\<lambda>h.
       case variable S ''CARGO_MANIFEST_DIR'' of
         None \<Rightarrow> (h, Inl (No_Variable ''CARGO_MANIFEST_DIR''))
       | Some manifest_dir \<Rightarrow>
           and_do (emit_version S manifest_dir) (and_do (check_secrets S manifest_dir)
             (and_do (fetch_firmware_blobs S manifest_dir)
               (say_all [''cargo:rerun-if-changed=build.rs'']))) h))"

subsection \<open>The bootloader\<close>

definition bootloader_build :: "bool \<Rightarrow> os \<Rightarrow> script" where
  "bootloader_build chk S h =
     (case files h ''memory.x'' of
        None \<Rightarrow> (h, Inl (Io_Error ''memory.x''))
      | Some memory \<Rightarrow>
          (case validate chk memory of
             Inl e \<Rightarrow> (h, Inl (Invalid_Map e))
           | Inr _ \<Rightarrow>
               and_do (setup_memory_x S)
                 (say_all [''cargo:rustc-link-arg-bins=--nmagic'', ''cargo:rustc-link-arg-bins=-Tlink.x'',
                    ''cargo:rustc-link-arg-bins=-Tlink-rp.x'', ''cargo:rustc-link-arg-bins=-Tdefmt.x'',
                    ''cargo:rerun-if-changed=build.rs'']) h))"

subsection \<open>What a script leaves alone\<close>

definition keeps :: "(string \<Rightarrow> bool) \<Rightarrow> script \<Rightarrow> bool" where
  "keeps P s \<longleftrightarrow> (\<forall>h p. P p \<longrightarrow> files (fst (s h)) p = files h p)"

lemma keeps_and_do [intro]: "keeps P a \<Longrightarrow> keeps P b \<Longrightarrow> keeps P (and_do a b)"
  by (auto simp: keeps_def and_do_def split: prod.split sum.split) (metis fst_conv)+

lemma keeps_say [intro!]: "keeps P (say l)" "keeps P (say_all ls)"
  by (simp_all add: keeps_def say_def say_all_def)

lemma keepsD: "keeps P s \<Longrightarrow> s h = (h1, r) \<Longrightarrow> P p \<Longrightarrow> files h1 p = files h p"
  unfolding keeps_def by (metis fst_conv)

text \<open>The copy of the memory map is the only file that ends in an x.\<close>

definition not_map :: "string \<Rightarrow> bool" where
  "not_map p \<longleftrightarrow> last p \<noteq> CHR ''x''"

lemma keeps_setup: "keeps not_map (setup_memory_x S)"
proof -
  have "keeps not_map (copy_file S src (path_join out ''memory.x''))" for src out
    by (auto simp: keeps_def copy_file_def not_map_def path_join_def split: option.split)
  then show ?thesis
    by (auto simp: setup_memory_x_def keeps_def and_do_def say_all_def split: option.split prod.split sum.split)
      (metis fst_conv)+
qed

lemma keeps_version: "keeps P (emit_version S dir)"
  by (auto simp: emit_version_def keeps_def and_do_def say_def Let_def split: option.split)

lemma keeps_secrets: "keeps P (check_secrets S dir)"
  by (auto simp: check_secrets_def keeps_def say_def Let_def)

lemma app_build_cases:
  assumes "app_build S h = (h1, r)"
  shows "case variable S ''CARGO_MANIFEST_DIR'' of
      None \<Rightarrow> r \<noteq> Inr () \<and> (\<forall>p. not_map p \<longrightarrow> files h1 p = files h p)
    | Some dir \<Rightarrow> r \<noteq> Inr () \<and> (\<forall>p. not_map p \<longrightarrow> files h1 p = files h p) \<or>
        (\<exists>h2 h3 h4 h5 r5. (\<forall>p. not_map p \<longrightarrow> files h2 p = files h p) \<and>
          emit_version S dir h2 = (h3, Inr ()) \<and> check_secrets S dir h3 = (h4, Inr ()) \<and>
          fetch_firmware_blobs S dir h4 = (h5, r5) \<and> files h1 = files h5 \<and> (r = Inr () \<longleftrightarrow> r5 = Inr ()) \<and>
          (\<exists>ls. printed h1 = printed h5 @ ls))"
proof -
  obtain ha ra where a: "setup_memory_x S h = (ha, ra)" by (metis surj_pair)
  have ka: "\<forall>p. not_map p \<longrightarrow> files ha p = files h p" using keepsD [OF keeps_setup a] by blast
  show ?thesis
  proof (cases "ra = Inr () \<and> variable S ''CARGO_MANIFEST_DIR'' \<noteq> None")
    case False
    with assms a ka show ?thesis
      by (cases ra) (auto simp: app_build_def and_do_def emit_linker_args_def say_all_def split: option.splits)
  next
    case True
    then obtain dir where dir: "variable S ''CARGO_MANIFEST_DIR'' = Some dir" by blast
    let ?h2 = "fst (emit_linker_args ha)"
    have k2: "\<forall>p. not_map p \<longrightarrow> files ?h2 p = files h p" using ka by (simp add: emit_linker_args_def say_all_def)
    obtain h3 r3 where v: "emit_version S dir ?h2 = (h3, r3)" by (metis surj_pair)
    obtain h4 r4 where s: "check_secrets S dir h3 = (h4, r4)" by (metis surj_pair)
    obtain h5 r5 where f: "fetch_firmware_blobs S dir h4 = (h5, r5)" by (metis surj_pair)
    have k3: "files h3 p = files ?h2 p" for p using keepsD [OF keeps_version [of "\<lambda>_. True"] v] by simp
    have k4: "files h4 p = files h3 p" for p using keepsD [OF keeps_secrets [of "\<lambda>_. True"] s] by simp
    have run: "and_do (emit_version S dir) (and_do (check_secrets S dir)
        (and_do (fetch_firmware_blobs S dir) (say_all [''cargo:rerun-if-changed=build.rs'']))) ?h2 = (h1, r)"
      using assms a True dir by (simp add: app_build_def and_do_def [abs_def] emit_linker_args_def say_all_def)
    consider (no_version) "r3 \<noteq> Inr ()" | (no_secrets) "r3 = Inr ()" "r4 \<noteq> Inr ()" | (go) "r3 = Inr ()" "r4 = Inr ()"
      by blast
    then show ?thesis
    proof cases
      case no_version
      then obtain e where "r3 = Inl e" by (cases r3) auto
      with run v have "h1 = h3" "r \<noteq> Inr ()" by (auto simp: and_do_def)
      with k2 k3 dir show ?thesis by simp
    next
      case no_secrets
      then obtain e where "r4 = Inl e" by (cases r4) auto
      with run v s no_secrets have "h1 = h4" "r \<noteq> Inr ()" by (auto simp: and_do_def)
      with k2 k3 k4 dir show ?thesis by simp
    next
      case go
      have "files h1 = files h5 \<and> (r = Inr () \<longleftrightarrow> r5 = Inr ()) \<and> (\<exists>ls. printed h1 = printed h5 @ ls)"
        using run v s go f by (cases r5) (auto simp: and_do_def say_all_def)
      then show ?thesis using v s f go k2 dir by auto
    qed
  qed
qed

subsection \<open>Downloads\<close>

text \<open>The bytes of a blob are those it had, those of a download that succeeded, or, when the
  command succeeds without writing, those that lay in the temporary file.\<close>

definition blob_sound :: "os \<Rightarrow> string \<Rightarrow> string \<Rightarrow> host \<Rightarrow> host \<Rightarrow> bool" where
  "blob_sound S dir name h h1 \<longleftrightarrow>
     (case files h1 (path_join dir name) of
        None \<Rightarrow> True
      | Some c \<Rightarrow>
          files h (path_join dir name) = Some c \<or> curl S (BLOB_BASE @ name) = Some (Some c, True) \<or>
          curl S (BLOB_BASE @ name) = Some (None, True) \<and>
            files h (path_join dir (name @ ''.tmp'')) = Some c)"

text \<open>A blob that is there after its download: one that was there before, and was not empty, or what the command wrote.\<close>

definition fetched :: "os \<Rightarrow> string \<Rightarrow> string \<Rightarrow> host \<Rightarrow> bool" where
  "fetched S dir name h1 \<longleftrightarrow>
     (case files h1 (path_join dir name) of
        None \<Rightarrow> False
      | Some c \<Rightarrow> c \<noteq> [] \<or> curl S (BLOB_BASE @ name) = Some (Some c, True) \<or> curl S (BLOB_BASE @ name) = Some (None, True))"

lemma fetched_cong:
  "files h1 (path_join dir name) = files h2 (path_join dir name) \<Longrightarrow> fetched S dir name h1 = fetched S dir name h2"
  by (simp add: fetched_def)

lemma download_result:
  assumes "download_blob_if_missing S dir name (BLOB_BASE @ name) h = (h1, r)"
  shows "blob_sound S dir name h h1 \<and> (r = Inr () \<longrightarrow> fetched S dir name h1) \<and>
    (\<forall>p. p \<noteq> path_join dir name \<and> p \<noteq> path_join dir (name @ ''.tmp'') \<longrightarrow> files h1 p = files h p)"
proof -
  have tmp: "path_join dir (name @ ''.tmp'') \<noteq> path_join dir name" by (simp add: path_join_def)
  show ?thesis
    using assms tmp
    by (auto simp: download_blob_if_missing_def fetch_blob_def blob_sound_def fetched_def and_do_def say_def Let_def
        rename_file_def remove_file_def split: option.splits if_splits)
qed

text \<open>The names of the blobs and their temporary files are all different.\<close>

definition apart :: "string list \<Rightarrow> bool" where
  "apart names \<longleftrightarrow> distinct (names @ map (\<lambda>n. n @ ''.tmp'') names)"

lemma blobs_apart: "apart BLOBS"
  by (simp add: apart_def BLOBS_def)

lemma blob_sound_cong:
  "files h1 (path_join dir name) = files h2 (path_join dir name) \<Longrightarrow>
   blob_sound S dir name h h1 = blob_sound S dir name h h2"
  "files h (path_join dir name) = files h2 (path_join dir name) \<Longrightarrow>
   files h (path_join dir (name @ ''.tmp'')) = files h2 (path_join dir (name @ ''.tmp'')) \<Longrightarrow>
   blob_sound S dir name h h1 = blob_sound S dir name h2 h1"
  by (simp_all add: blob_sound_def split: option.split)

lemma blob_sound_refl: "blob_sound S dir name h h"
  by (simp add: blob_sound_def split: option.split)

text \<open>A path that is neither a blob nor a temporary file of one.\<close>

definition foreign :: "string \<Rightarrow> string list \<Rightarrow> string \<Rightarrow> bool" where
  "foreign dir names p \<longleftrightarrow>
     list_all (\<lambda>name. p \<noteq> path_join dir name \<and> p \<noteq> path_join dir (name @ ''.tmp'')) names"

lemma apart_Cons:
  assumes "apart (name # names)"
  shows "apart names" and "foreign dir names (path_join dir name)"
    and "n \<in> set names \<Longrightarrow> foreign dir [name] (path_join dir n) \<and> foreign dir [name] (path_join dir (n @ ''.tmp''))"
  using assms by (auto simp: apart_def foreign_def path_join_def list_all_iff)

lemma download_all_result:
  assumes "download_all S dir names h = (h1, r)" and "apart names"
  shows "list_all (\<lambda>name. blob_sound S dir name h h1) names"
    and "r = Inr () \<Longrightarrow> list_all (\<lambda>name. fetched S dir name h1) names"
    and "foreign dir names p \<Longrightarrow> files h1 p = files h p"
  using assms
proof (induction names arbitrary: h p)
  case Nil
  {
    case 1
    show ?case by simp
  next
    case 2
    show ?case by simp
  next
    case 3
    then show ?case by simp
  }
next
  case (Cons name names)
  show "list_all (\<lambda>name. blob_sound S dir name h h1) (name # names)"
    and "r = Inr () \<Longrightarrow> list_all (\<lambda>name. fetched S dir name h1) (name # names)"
    and "foreign dir (name # names) p \<Longrightarrow> files h1 p = files h p"
    if run: "download_all S dir (name # names) h = (h1, r)" and ap: "apart (name # names)" for h p
  proof -
    obtain h2 r2 where d: "download_blob_if_missing S dir name (BLOB_BASE @ name) h = (h2, r2)" by (metis surj_pair)
    note D = download_result [OF d] and A = apart_Cons [OF ap]
    have D3: "files h2 q = files h q" if "foreign dir [name] q" for q using D that by (simp add: foreign_def)
    have sound2: "blob_sound S dir n h h3 = blob_sound S dir n h2 h3" if "n \<in> set names" for n h3
      using A(3) [OF that] D3 by (intro blob_sound_cong(2)) simp_all
    have "list_all (\<lambda>name. blob_sound S dir name h h1) (name # names) \<and>
        (r = Inr () \<longrightarrow> list_all (\<lambda>name. fetched S dir name h1) (name # names)) \<and>
        (foreign dir (name # names) p \<longrightarrow> files h1 p = files h p)"
    proof (cases r2)
      case (Inl e)
      then have "h1 = h2" "r \<noteq> Inr ()" using run d by (auto simp: and_do_def)
      then show ?thesis
        using D D3 [of p] sound2 by (simp add: list_all_iff foreign_def blob_sound_refl)
    next
      case (Inr x)
      then have rest: "download_all S dir names h2 = (h1, r)" using run d by (simp add: and_do_def)
      note IH = Cons.IH(1) [OF rest A(1)] Cons.IH(2) [OF _ rest A(1)] Cons.IH(3) [OF _ rest A(1)]
      have kept: "files h1 (path_join dir name) = files h2 (path_join dir name)" by (rule IH(3) [OF A(2)])
      have "blob_sound S dir name h h1" using D blob_sound_cong(1) [OF kept] by simp
      moreover have "list_all (\<lambda>n. blob_sound S dir n h h1) names"
        using IH(1) sound2 by (simp add: list_all_iff)
      moreover have "foreign dir (name # names) p \<longrightarrow> files h1 p = files h p"
        using IH(3) [of p] D3 [of p] by (simp add: foreign_def)
      ultimately show ?thesis using IH(2) D fetched_cong [OF kept, of S] Inr by simp
    qed
    then show "list_all (\<lambda>name. blob_sound S dir name h h1) (name # names)"
      and "r = Inr () \<Longrightarrow> list_all (\<lambda>name. fetched S dir name h1) (name # names)"
      and "foreign dir (name # names) p \<Longrightarrow> files h1 p = files h p" by blast+
  qed
qed

lemma blobs_fetched:
  assumes "fetch_firmware_blobs S dir h = (h1, r)"
  shows "list_all (\<lambda>name. blob_sound S (path_join dir ''firmware'') name h h1) BLOBS"
    and "r = Inr () \<Longrightarrow> list_all (\<lambda>name. fetched S (path_join dir ''firmware'') name h1) BLOBS"
    and "foreign (path_join dir ''firmware'') BLOBS p \<Longrightarrow> files h1 p = files h p"
proof -
  have "list_all (\<lambda>name. blob_sound S (path_join dir ''firmware'') name h h1) BLOBS \<and>
    (r = Inr () \<longrightarrow> list_all (\<lambda>name. fetched S (path_join dir ''firmware'') name h1) BLOBS) \<and>
    (foreign (path_join dir ''firmware'') BLOBS p \<longrightarrow> files h1 p = files h p)"
  proof (cases "writable S (path_join dir ''firmware'')")
    case False
    with assms show ?thesis by (auto simp: fetch_firmware_blobs_def list_all_iff blob_sound_refl)
  next
    case True
    with assms have "download_all S (path_join dir ''firmware'') BLOBS h = (h1, r)"
      by (simp add: fetch_firmware_blobs_def)
    from download_all_result [OF this blobs_apart] show ?thesis by blast
  qed
  then show "list_all (\<lambda>name. blob_sound S (path_join dir ''firmware'') name h h1) BLOBS"
    and "r = Inr () \<Longrightarrow> list_all (\<lambda>name. fetched S (path_join dir ''firmware'') name h1) BLOBS"
    and "foreign (path_join dir ''firmware'') BLOBS p \<Longrightarrow> files h1 p = files h p" by blast+
qed

text \<open>What was printed stays printed.\<close>

definition grows :: "script \<Rightarrow> bool" where
  "grows s \<longleftrightarrow> (\<forall>h. set (printed h) \<subseteq> set (printed (fst (s h))))"

lemma growsD: "grows s \<Longrightarrow> s h = (h1, r) \<Longrightarrow> set (printed h) \<subseteq> set (printed h1)"
  unfolding grows_def by (drule spec [of _ h]) simp

lemma grows_and_do: "grows a \<Longrightarrow> grows b \<Longrightarrow> grows (and_do a b)"
  unfolding grows_def
proof
  fix h
  assume ab: "\<forall>h. set (printed h) \<subseteq> set (printed (fst (a h)))" "\<forall>h. set (printed h) \<subseteq> set (printed (fst (b h)))"
  obtain h1 r where "a h = (h1, r)" by (metis surj_pair)
  with ab spec [OF ab(1), of h] spec [OF ab(2), of h1]
  show "set (printed h) \<subseteq> set (printed (fst (and_do a b h)))"
    by (cases r) (simp_all add: and_do_def order_trans)
qed

lemma and_do_say: "and_do (say l) f h = f (h\<lparr>printed := printed h @ [l]\<rparr>)"
  by (simp add: and_do_def say_def)

lemma grows_say: "grows (say l)"
  by (auto simp: grows_def say_def)

lemma printed_fetch [simp]: "printed (fst (fetch_blob S dest tmp_dest url h)) = printed h"
  by (auto simp: fetch_blob_def Let_def remove_file_def rename_file_def split: option.split)

lemma grows_download: "grows (download_blob_if_missing S dir name url)"
  unfolding download_blob_if_missing_def Let_def
  by (rule grows_and_do [OF grows_say]) (simp add: grows_def remove_file_def split: option.split)

lemma grows_download_all: "grows (download_all S dir names)"
proof (induction names)
  case Nil
  show ?case by (simp add: grows_def)
next
  case (Cons name names)
  then show ?case by (simp add: grows_and_do [OF grows_download])
qed

lemma grows_fetch: "grows (fetch_firmware_blobs S dir)"
  using grows_download_all by (auto simp: fetch_firmware_blobs_def Let_def grows_def)

lemma grows_secrets: "grows (check_secrets S dir)"
  by (auto simp: check_secrets_def Let_def grows_def say_def)

lemma version_emitted:
  assumes "emit_version S dir h = (h1, Inr ())"
  shows "\<exists>raw v. files h (path_join dir ''../VERSION'') = Some raw \<and> parse_u32_str (ascii (trim raw)) = Some v \<and>
    VERSION_VARIABLE @ decimal (unat v) \<in> set (printed h1)"
proof (cases "files h (path_join dir ''../VERSION'')")
  case None
  with assms show ?thesis by (simp add: emit_version_def Let_def and_do_say)
next
  case (Some raw)
  show ?thesis
  proof (cases "parse_u32_str (ascii (trim raw))")
    case None
    with assms Some show ?thesis by (simp add: emit_version_def Let_def and_do_say)
  next
    case v: (Some v)
    with assms Some have "h1 = fst (say (VERSION_VARIABLE @ decimal (unat v))
        (h\<lparr>printed := printed h @ [ascii (''cargo:rerun-if-changed='' @ path_join dir ''../VERSION'')]\<rparr>))"
      by (simp add: emit_version_def Let_def and_do_say)
    then have "VERSION_VARIABLE @ decimal (unat v) \<in> set (printed h1)" by (simp add: say_def)
    with Some v show ?thesis by blast
  qed
qed

lemma paths_foreign:
  "not_map (path_join dir ''../VERSION'')" "not_map (path_join dir ''src/secrets.rs'')"
  "foreign (path_join dir ''firmware'') BLOBS (path_join dir ''src/secrets.rs'')"
  by (simp_all add: not_map_def path_join_def foreign_def BLOBS_def)

lemma blob_not_map:
  "name \<in> set BLOBS \<Longrightarrow> not_map (path_join dir name) \<and> not_map (path_join dir (name @ ''.tmp''))"
  by (auto simp: not_map_def path_join_def BLOBS_def)

text \<open>The bootloader is only built with a memory map that passed its check, and that map is what the
  linker gets.\<close>

lemma bootloader_build_checks:
  assumes "bootloader_build chk S h = (h1, Inr ())"
  shows "\<exists>memory out. files h ''memory.x'' = Some memory \<and> validate chk memory = Inr () \<and>
    variable S ''OUT_DIR'' = Some out \<and> files h1 (path_join out ''memory.x'') = Some memory"
  using assms
  by (auto simp: bootloader_build_def setup_memory_x_def and_do_def copy_file_def say_all_def
      split: option.splits sum.splits if_splits)

text \<open>A build that got as far as the downloads.\<close>

lemma late_build:
  assumes "\<forall>p. not_map p \<longrightarrow> files h2 p = files h p"
    and "emit_version S dir h2 = (h3, Inr ())" and "check_secrets S dir h3 = (h4, Inr ())"
    and "fetch_firmware_blobs S dir h4 = (h5, r5)" and "files h1 = files h5"
    and "printed h1 = printed h5 @ ls"
  shows "name \<in> set BLOBS \<Longrightarrow> blob_sound S (path_join dir ''firmware'') name h h1"
    and "files h1 (path_join dir ''src/secrets.rs'') \<noteq> None"
    and "\<exists>raw v. files h (path_join dir ''../VERSION'') = Some raw \<and>
      parse_u32_str (ascii (trim raw)) = Some v \<and> VERSION_VARIABLE @ decimal (unat v) \<in> set (printed h1)"
proof -
  let ?fw = "path_join dir ''firmware''"
  have h3: "files h3 p = files h2 p" for p using keepsD [OF keeps_version [of "\<lambda>_. True"] assms(2)] by simp
  then have h4: "files h4 p = files h2 p" for p using keepsD [OF keeps_secrets [of "\<lambda>_. True"] assms(3)] by simp
  show "blob_sound S ?fw name h h1" if "name \<in> set BLOBS"
  proof -
    have "blob_sound S ?fw name h4 h5" using blobs_fetched(1) [OF assms(4)] that by (simp add: list_all_iff)
    then have "blob_sound S ?fw name h4 h1" using blob_sound_cong(1) [of h1 ?fw name h5 S h4] assms(5) by simp
    then show ?thesis
      using blob_sound_cong(2) [of h ?fw name h4 S h1] blob_not_map [OF that] h4 assms(1) by simp
  qed
  have "files h4 (path_join dir ''src/secrets.rs'') \<noteq> None"
    using assms(3) h3 h4 by (auto simp: check_secrets_def Let_def split: if_splits)
  then show "files h1 (path_join dir ''src/secrets.rs'') \<noteq> None"
    using blobs_fetched(3) [OF assms(4) paths_foreign(3)] assms(5) by simp
  obtain raw v where v: "files h2 (path_join dir ''../VERSION'') = Some raw"
      "parse_u32_str (ascii (trim raw)) = Some v" "VERSION_VARIABLE @ decimal (unat v) \<in> set (printed h3)"
    using version_emitted [OF assms(2)] by blast
  then have "VERSION_VARIABLE @ decimal (unat v) \<in> set (printed h1)"
    using growsD [OF grows_fetch assms(4)] growsD [OF grows_secrets assms(3)] assms(6) by auto
  then show "\<exists>raw v. files h (path_join dir ''../VERSION'') = Some raw \<and>
      parse_u32_str (ascii (trim raw)) = Some v \<and> VERSION_VARIABLE @ decimal (unat v) \<in> set (printed h1)"
    using v(1,2) assms(1) paths_foreign(1) [of dir] by auto
qed

text \<open>No radio blob is a partial download: each is absent, empty (which the script takes for absent) or the published
  file.\<close>

definition whole_blobs :: "(string \<Rightarrow> string) \<Rightarrow> string \<Rightarrow> host \<Rightarrow> bool" where
  "whole_blobs published dir h \<longleftrightarrow>
     list_all (\<lambda>name.
       case files h (path_join (path_join dir ''firmware'') name) of
         None \<Rightarrow> True
       | Some c \<Rightarrow> c = [] \<or> c = published (BLOB_BASE @ name)) BLOBS"

text \<open>The documented behaviour of \<open>curl -sSfL -o\<close>: when it succeeds it has written the whole file.\<close>

locale whole_downloads =
  fixes S :: os and published :: "string \<Rightarrow> string"
  assumes downloads_whole: "curl S url = Some (out, True) \<Longrightarrow> out = Some (published url)"
begin

lemma sound_whole:
  assumes "list_all (\<lambda>name. blob_sound S (path_join dir ''firmware'') name h h1) BLOBS" and "whole_blobs published dir h"
  shows "whole_blobs published dir h1"
  using assms
  by (fastforce simp: whole_blobs_def list_all_iff blob_sound_def dest: downloads_whole split: option.splits)

lemma fetched_whole:
  assumes "whole_blobs published dir h1" and "name \<in> set BLOBS" and "fetched S (path_join dir ''firmware'') name h1"
  shows "files h1 (path_join (path_join dir ''firmware'') name) = Some (published (BLOB_BASE @ name))"
  using assms by (fastforce simp: fetched_def whole_blobs_def list_all_iff dest: downloads_whole split: option.splits)

end

text \<open>A host on which every URL is published as its own text and a download brings all of it.\<close>

definition example_os :: os where
  "example_os = \<lparr>variable = [''OUT_DIR'' \<mapsto> ''o'', ''CARGO_MANIFEST_DIR'' \<mapsto> ''m''], writable = (\<lambda>p. True),
     curl = (\<lambda>url. Some (Some url, True))\<rparr>"

definition example_host :: host where
  "example_host = \<lparr>files = [''memory.x'' \<mapsto> ''MEMORY'', ''m/../VERSION'' \<mapsto> ''17 '', ''m/src/secrets.rs'' \<mapsto> ''x'',
     ''m/firmware/43439A0.bin'' \<mapsto> BLOB_BASE @ ''43439A0.bin'', ''m/firmware/nvram_rp2040.bin'' \<mapsto> '''',
     ''m/firmware/nvram_rp2040.bin.tmp'' \<mapsto> ''par''], printed = []\<rparr>"

interpretation published_urls: whole_downloads example_os "\<lambda>url. url"
  by unfold_locales (simp add: example_os_def)

subsection \<open>Properties\<close>

text \<open>
  C40: what a build of the application leaves behind, when the download command keeps its contract
  (\<open>whole_downloads\<close>: a success means that the whole published file was written) and no partial blob
  was there before. Whether the build succeeds or fails at any point, no blob is then a partial
  download, whatever lay in the temporary files and whatever the failed downloads wrote. The image
  reports the version of the VERSION file: a build that succeeds has read a 32-bit number there,
  has passed it on, and the firmware's own parser turns what was passed on into that number; the
  credentials are there and each of the three radio blobs is exactly the published file.
\<close>

theorem app_build_result:
  assumes "whole_downloads S published" and "variable S ''CARGO_MANIFEST_DIR'' = Some dir"
    and "whole_blobs published dir h" and "app_build S h = (h1, r)"
  shows "whole_blobs published dir h1 \<and>
    (if r = Inr () then
       (\<exists>raw v. files h (path_join dir ''../VERSION'') = Some raw \<and> parse_u32_str (ascii (trim raw)) = Some v \<and>
         VERSION_VARIABLE @ decimal (unat v) \<in> set (printed h1) \<and> parse_u32 (decimal (unat v)) = Some v) \<and>
       files h1 (path_join dir ''src/secrets.rs'') \<noteq> None \<and>
       list_all (\<lambda>name. files h1 (path_join (path_join dir ''firmware'') name) = Some (published (BLOB_BASE @ name))) BLOBS
     else True)"
proof -
  let ?fw = "path_join dir ''firmware''"
  from app_build_cases [OF assms(4)] assms(2) consider (early) "r \<noteq> Inr ()" "\<forall>p. not_map p \<longrightarrow> files h1 p = files h p"
    | (late) h2 h3 h4 h5 r5 ls where "\<forall>p. not_map p \<longrightarrow> files h2 p = files h p"
        "emit_version S dir h2 = (h3, Inr ())" "check_secrets S dir h3 = (h4, Inr ())"
        "fetch_firmware_blobs S dir h4 = (h5, r5)" "files h1 = files h5" "r = Inr () \<longleftrightarrow> r5 = Inr ()"
        "printed h1 = printed h5 @ ls"
    by auto
  then show ?thesis
  proof cases
    case early
    then show ?thesis using assms(3) blob_not_map by (auto simp: whole_blobs_def list_all_iff)
  next
    case late
    note L = late_build [OF late(1-5,7)]
    have whole: "whole_blobs published dir h1"
      using L(1) whole_downloads.sound_whole [OF assms(1) _ assms(3)] by (simp add: list_all_iff)
    have "files h1 (path_join ?fw name) = Some (published (BLOB_BASE @ name))" if "r = Inr ()" and "name \<in> set BLOBS" for name
    proof (rule whole_downloads.fetched_whole [OF assms(1) whole that(2)])
      show "fetched S ?fw name h1"
        using blobs_fetched(2) [OF late(4)] late(5,6) that fetched_cong [of h1 ?fw name h5 S] by (simp add: list_all_iff)
    qed
    then show ?thesis using whole L(2,3) parse_u32_decimal by (auto simp: list_all_iff)
  qed
qed

lemma example_version: "parse_u32_str (ascii (trim ''17 '')) = Some 17"
proof -
  have "ascii (trim ''17 '') = [0x31, 0x37]" by (simp add: trim_def is_space_def ascii_def)
  then show ?thesis
    by (simp add: parse_u32_str_def is_ascii_digit_def checked_mul_def checked_add_def)
qed

theorem app_build_result_witness:
  "case app_build example_os example_host of (h1, r) \<Rightarrow>
     r = Inr () \<and> whole_blobs (\<lambda>url. url) ''m'' h1 \<and>
     list_all (\<lambda>name. files h1 (''m/firmware/'' @ name) = Some (BLOB_BASE @ name)) BLOBS"
proof -
  have "snd (app_build example_os example_host) = Inr ()"
    by (simp add: app_build_def setup_memory_x_def emit_linker_args_def emit_version_def check_secrets_def
        fetch_firmware_blobs_def BLOBS_def download_blob_if_missing_def fetch_blob_def rename_file_def remove_file_def
        copy_file_def and_do_def say_def say_all_def path_join_def example_os_def example_host_def Let_def example_version)
  then obtain h1 where run: "app_build example_os example_host = (h1, Inr ())" by (metis snd_conv surj_pair)
  have dir: "variable example_os ''CARGO_MANIFEST_DIR'' = Some ''m''" by (simp add: example_os_def)
  have before: "whole_blobs (\<lambda>url. url) ''m'' example_host"
    by (simp add: whole_blobs_def BLOBS_def path_join_def example_host_def)
  show ?thesis
    using app_build_result [OF published_urls.whole_downloads_axioms dir before run] run
    by (simp add: path_join_def)
qed

end
