(* ===== verification/Good_Server.thy ===== *)
theory Good_Server
  imports Ota_Task
begin

text \<open>
  What the OTA task achieves when nothing goes wrong: over a network that connects and delivers,
  however it cuts its bytes into reads, a server that answers the three requests of a check gets
  its image installed. The safety half (nothing else is ever installed) is in \<open>Ota_Task\<close>.
\<close>

subsection \<open>A head and a body over a live stream\<close>

text \<open>The byte that decides a stream is the same however the stream is looked at.\<close>

lemma first_decision:
  assumes "bounded_spec x = NeedMore" and "bounded_spec (x @ [b]) \<noteq> NeedMore"
    and "bounded_spec y = NeedMore" and "bounded_spec (y @ [c]) \<noteq> NeedMore"
    and "x @ b # r = y @ c # s"
  shows "x = y \<and> b = c \<and> r = s"
proof -
  have shorter: "\<not> length p < length q"
    if "bounded_spec (p @ [a]) \<noteq> NeedMore" "bounded_spec q = NeedMore" "p @ a # t = q @ t'" for p q a t t'
  proof
    assume "length p < length q"
    then have "p @ [a] = take (Suc (length p)) q"
      using arg_cong [OF that(3), of "take (Suc (length p))"] by (simp add: take_Cons')
    with bounded_spec_prefix [OF that(2), of "Suc (length p)"] that(1) show False by simp
  qed
  have "length x = length y"
    using shorter [OF assms(2,3,5)] shorter [OF assms(4,1) assms(5) [symmetric]] by simp
  with assms(5) show ?thesis by simp
qed

lemma head_of_snoc:
  assumes "head_of (bs @ hdr) h" and "bounded_spec bs = NeedMore"
  obtains ds b where "hdr = ds @ [b]" and "bounded_spec (bs @ ds) = NeedMore"
    and "bounded_spec ((bs @ ds) @ [b]) = Complete h"
proof -
  have "hdr \<noteq> []" using assms by (auto simp: head_of_def)
  then obtain ds b where hdr: "hdr = ds @ [b]" by (metis rev_exhaust)
  with assms(1) that [OF hdr] show thesis by (simp add: head_of_def butlast_append)
qed

lemma fed_head:
  assumes "feed head_new 0 hdr = (p, Some (i, Inr h))" and "length hdr = Suc i"
  shows "head_of hdr h"
proof -
  obtain ds b es where "hdr = ds @ b # es" "i = length ds" "bounded_spec ds = NeedMore"
      "bounded_spec (ds @ [b]) = verdict (Inr h)"
    using feed_decided [of "[]" 0 hdr p i "Inr h"] assms(1) by auto
  with assms(2) show ?thesis by (simp add: head_of_def verdict_def)
qed

context live_stream begin

lemma read_live:
  assumes "buf \<noteq> []" and "arriving w \<noteq> []"
  obtains w1 buf1 n where "read_timed T w buf = (w1, buf1, Inr n)" and "n \<noteq> 0" and "n \<le> length buf"
    and "length buf1 = length buf" and "arriving w = take n buf1 @ arriving w1"
proof -
  obtain w1 bs where r: "t_read T w (length buf) = (w1, Done bs)" "bs \<noteq> []"
    using stream_live [of "length buf" w] assms by auto
  have "read_timed T w buf = (w1, copy_at buf 0 (take (length buf) bs), Inr (length (take (length buf) bs)))"
    using r(1) by (simp add: read_timed_def Let_def)
  with read_timed_received [OF this] received_arriving r(2) assms(1) show thesis
    by (intro that) auto
qed

lemma get_loop_live:
  assumes "bounded_spec bs = NeedMore" and "buf \<noteq> []" and "length buf \<le> length leftover"
    and "head_of (bs @ hdr) h" and "arriving w = hdr @ body"
  shows "\<exists>w' leftover' extra. get_loop T w (final push head_new bs) buf leftover =
      Some (w', leftover', Inr (h, extra)) \<and> length leftover' = length leftover \<and>
    take extra leftover' @ arriving w' = body"
  using assms
proof (induction "length hdr" arbitrary: bs buf hdr w rule: less_induct)
  case less
  let ?p = "final push head_new bs"
  obtain ds b where hdr: "hdr = ds @ [b]" "bounded_spec (bs @ ds) = NeedMore"
      "bounded_spec ((bs @ ds) @ [b]) = Complete h"
    using head_of_snoc [OF less.prems(4,1)] by blast
  have "arriving w \<noteq> []" using less.prems(5) hdr(1) by simp
  from read_live [OF less.prems(2) this] obtain w1 buf1 n
    where rd: "read_timed T w buf = (w1, buf1, Inr n)" "n \<noteq> 0" "n \<le> length buf"
      "length buf1 = length buf" "arriving w = take n buf1 @ arriving w1" by blast
  let ?cs = "take n buf1"
  have stream: "ds @ b # body = ?cs @ arriving w1" using less.prems(5) rd(5) hdr(1) by simp
  obtain p1 found where f: "feed ?p 0 ?cs = (p1, found)" by (metis surj_pair)
  show ?case
  proof (cases found)
    case None
    note open1 = feed_open [OF f [unfolded None] less.prems(1)]
    have "ds @ b # us \<noteq> ?cs" for us
      using open1 hdr(3) bounded_spec_append [of "(bs @ ds) @ [b]" us] by auto
    moreover obtain us where "ds = ?cs @ us \<or> ds @ us = ?cs \<and> b # body = us @ arriving w1"
      using stream unfolding append_eq_append_conv2 by auto
    ultimately obtain ds' where ds': "ds = ?cs @ ds'" by (cases us) auto
    have "\<exists>w' leftover' extra. get_loop T w1 (final push head_new (bs @ ?cs)) buf1 leftover =
        Some (w', leftover', Inr (h, extra)) \<and> length leftover' = length leftover \<and>
        take extra leftover' @ arriving w' = body"
    proof (rule less.hyps)
      show "length (ds' @ [b]) < length hdr" unfolding hdr(1) ds' using rd by simp
      show "head_of ((bs @ ?cs) @ (ds' @ [b])) h" using less.prems(4) unfolding hdr(1) ds' by simp
      show "arriving w1 = (ds' @ [b]) @ body" using stream unfolding ds' by simp
    qed (use open1 rd less.prems(2,3) in auto)
    with rd f None open1 show ?thesis by (simp add: get_loop.simps [of T w])
  next
    case (Some ir)
    then obtain i r where ir: "found = Some (i, r)" by (cases ir) simp
    from feed_decided [OF f [unfolded ir] less.prems(1)]
    obtain es a fs where cs: "?cs = es @ a # fs" "i = length es"
        "bounded_spec (bs @ es) = NeedMore" "bounded_spec ((bs @ es) @ [a]) = verdict r" by auto
    have "verdict r \<noteq> NeedMore" by (simp add: verdict_def split: sum.split)
    then have "bs @ es = bs @ ds \<and> a = b \<and> fs @ arriving w1 = body"
      by (intro first_decision) (use cs hdr stream in simp_all)
    then have same: "es = ds" "a = b" "fs @ arriving w1 = body" by simp_all
    have r: "r = Inr h" using cs(4) hdr(3) same by (simp add: verdict_def split: sum.splits)
    have len: "length ?cs = n" using rd(3,4) by simp
    have extra: "n - i - 1 = length fs" "drop (i + 1) ?cs = fs"
      using cs(1,2) len arg_cong [OF cs(1), of length] by simp_all
    moreover have fits: "length fs \<le> length leftover"
      using arg_cong [OF cs(1), of length] len rd(3) less.prems(3) by simp
    ultimately have "get_loop T w ?p buf leftover = Some (w1, copy_at leftover 0 fs, Inr (h, length fs))"
      using rd f ir r by (simp add: get_loop.simps [of T w] Let_def del: drop_take)
    with same(3) fits show ?thesis by (simp add: copy_at_0)
  qed
qed

lemma small_loop_live:
  assumes "n \<le> len" and "len \<le> length out" and "len - n \<le> length (arriving w)"
  shows "\<exists>w' out'. small_loop T w len out n = (w', out', Inr len)"
  using assms
proof (induction "len - n" arbitrary: w out n rule: less_induct)
  case less
  show ?case
  proof (cases "n < len")
    case False
    with less.prems(1) show ?thesis by (simp add: small_loop.simps [of T w])
  next
    case True
    let ?slice = "drop n (take len out)"
    have slice: "length ?slice = len - n" using less.prems(2) by simp
    then have "?slice \<noteq> []" "arriving w \<noteq> []" using True less.prems(3) by auto
    from read_live [OF this] obtain w1 filled got
      where rd: "read_timed T w ?slice = (w1, filled, Inr got)" "got \<noteq> 0" "got \<le> length ?slice"
        "length filled = length ?slice" "arriving w = take got filled @ arriving w1" by blast
    have "\<exists>w' out'. small_loop T w1 len (copy_at out n filled) (n + got) = (w', out', Inr len)"
    proof (rule less.hyps)
      show "len - (n + got) \<le> length (arriving w1)"
        using arg_cong [OF rd(5), of length] rd(3,4) slice less.prems(3) by simp
    qed (use rd slice True less.prems(2) in simp_all)
    with True rd(1,2) show ?thesis by (simp add: small_loop.simps [of T w] read_some_def)
  qed
qed

lemma read_small_live:
  assumes "unat len \<le> length out" and "length out < 2 ^ 64"
    and "unat len \<le> length (leftover @ arriving w)"
  shows "\<exists>w' out'. read_small T w leftover len out = (w', out', Inr (unat len)) \<and>
    take (unat len) out' = take (unat len) (leftover @ arriving w)"
proof -
  let ?n = "min (length leftover) (unat len)"
  have "\<not> of_nat (length out) < len" using assms(1,2) by (simp add: word_less_nat_alt unat_of_nat)
  moreover obtain w' out' where L: "small_loop T w (unat len) (copy_at out 0 (take ?n leftover)) ?n =
      (w', out', Inr (unat len))"
    using small_loop_live [of ?n "unat len" "copy_at out 0 (take ?n leftover)" w] assms(1,3)
    by fastforce
  ultimately have *: "read_small T w leftover len out = (w', out', Inr (unat len))"
    by (simp add: read_small_def Let_def)
  have "length (take (unat len) out') = unat len" using small_loop_result [OF L] assms(1) by simp
  moreover obtain c w1 where c: "received T w c w1" "take (unat len) out' = take (unat len) leftover @ c"
    using read_small_result [OF * assms(2)] by auto
  ultimately have "length c = unat len - length leftover" unfolding c(2) by simp
  with c received_arriving [OF c(1)] * show ?thesis by simp
qed

end

subsection \<open>A server that answers\<close>

text \<open>The server's answer to the request for a resource: a head with status 200 and the length of
  the body, and the body. The request has to fit the device's buffers (\<open>request_exact\<close>).\<close>

definition serves :: "(bytes \<Rightarrow> bytes) \<Rightarrow> device \<Rightarrow> uri \<Rightarrow> bytes \<Rightarrow> bytes \<Rightarrow> bool" where
  "serves answer d u name body \<longleftrightarrow>
     auth_fits (ota_user d) (ota_password d) \<and>
     length (request_text (ota_user d) (ota_password d) u name) \<le> REQUEST_MAX_BYTES \<and>
     (\<exists>hdr h. answer (request_text (ota_user d) (ota_password d) u name) = hdr @ body \<and>
        head_of hdr h \<and> rh_status h = 200 \<and> rh_length h = Some (of_nat (length body)))"

text \<open>A network on which nothing fails: names resolve, connections open, a request is taken, and
  what then arrives on the connection is the server's answer to it.\<close>

locale good_network =
  fixes N :: "('w, 'a) network"
    and arriving :: "'w \<Rightarrow> bytes"
    and answer :: "bytes \<Rightarrow> bytes"
  assumes configures: "\<exists>w1. net_config_up N w = Some w1"
    and streams: "live_stream (link N c) arriving"
    and names: "\<exists>w1 a more_addrs ip. net_dns N w name = (w1, Done (a # more_addrs)) \<and> net_ipv4 N a = Some ip"
    and connects: "\<exists>w1. net_connect N w ep = (w1, Done ())"
    and handshakes: "\<exists>w1. net_handshake N w name = (w1, Done ())"
    and answers: "\<exists>w1 w2. t_write_all (link N c) w request = (w1, Done ()) \<and>
      t_flush (link N c) w1 = (w2, Done ()) \<and> arriving w2 = answer request"
begin

lemma resolves: "\<exists>w1 endpoint. resolve N w u = (w1, Inr endpoint)"
  using names [of w "host u"] by (auto simp: resolve_def split: option.split)

lemma opens: "\<exists>w1 c. open_link N w endpoint u = (w1, Inr c)"
proof -
  obtain w1 where w1: "net_connect N w endpoint = (w1, Done ())" using connects by blast
  obtain w2 where "net_handshake N w1 (host u) = (w2, Done ())" using handshakes by blast
  with w1 show ?thesis by (simp add: open_link_def)
qed

lemma gets:
  assumes "answer request = hdr @ body" and "head_of hdr h" and "length leftover = READ_CHUNK"
  shows "\<exists>w' leftover' extra. get (link N c) w request leftover = Some (w', leftover', Inr (h, extra)) \<and>
    length leftover' = READ_CHUNK \<and> take extra leftover' @ arriving w' = body"
proof -
  obtain w1 w2 where w: "t_write_all (link N c) w request = (w1, Done ())"
      "t_flush (link N c) w1 = (w2, Done ())" "arriving w2 = hdr @ body"
    using answers assms(1) by metis
  have "replicate READ_CHUNK (0 :: u8) \<noteq> []" by (simp add: READ_CHUNK_def)
  from live_stream.get_loop_live [OF streams bounded_spec_Nil this, of leftover hdr h w2 body] w assms(2,3)
  show ?thesis by (simp add: get_def)
qed

lemma fetches:
  assumes "serves answer d u name body" and "length leftover = READ_CHUNK"
  shows "\<exists>w' leftover' c h extra. fetch N d u endpoint w leftover name =
      Some (w', leftover', Inr (c, h, extra)) \<and> length leftover' = READ_CHUNK \<and> rh_status h = 200 \<and>
    rh_length h = Some (of_nat (length body)) \<and> take extra leftover' @ arriving w' = body"
proof -
  obtain hdr h where h: "answer (request_text (ota_user d) (ota_password d) u name) = hdr @ body"
      "head_of hdr h" "rh_status h = 200" "rh_length h = Some (of_nat (length body))"
    using assms(1) by (auto simp: serves_def)
  obtain out where out: "build_request (ota_user d) (ota_password d) u name = Inr out"
      "as_bytes out = request_text (ota_user d) (ota_password d) u name"
    using build_request_result [of "ota_user d" "ota_password d" u name] assms(1)
    by (auto simp: serves_def split: sum.splits)
  obtain w1 c where c: "open_link N w endpoint u = (w1, Inr c)" using opens by blast
  from gets [OF h(1,2) assms(2), of c w1] h(3,4) c out show ?thesis
    by (fastforce simp: fetch_def send_def)
qed

lemma fetches_text:
  assumes "serves answer d u name body" and "length leftover = READ_CHUNK"
    and "length body \<le> max_bytes" and "max_bytes < 2 ^ 64" and "parse body = Some v"
  shows "\<exists>w' leftover'. fetch_text N d u endpoint w leftover name max_bytes parse invalid =
      Some (w', leftover', Inr (Some v)) \<and> length leftover' = READ_CHUNK"
proof -
  obtain w1 leftover1 c h extra where f: "fetch N d u endpoint w leftover name =
      Some (w1, leftover1, Inr (c, h, extra))" "length leftover1 = READ_CHUNK" "rh_status h = 200"
      "rh_length h = Some (of_nat (length body))" "take extra leftover1 @ arriving w1 = body"
    using fetches [OF assms(1,2)] by metis
  have len: "unat (of_nat (length body) :: u64) = length body"
    using assms(3,4) by (simp add: unat_of_nat)
  then have fits: "\<not> of_nat max_bytes < (of_nat (length body) :: u64)"
    using assms(3,4) by (simp add: word_less_nat_alt unat_of_nat)
  obtain w2 out where "read_small (link N c) w1 (take extra leftover1) (of_nat (length body))
      (replicate max_bytes 0) = (w2, out, Inr (length body))" "take (length body) out = body"
    using live_stream.read_small_live [OF streams, of "of_nat (length body)" "replicate max_bytes 0"
        "take extra leftover1" w1 c] assms(3,4) f(5) len by auto
  with f fits assms(5) show ?thesis by (simp add: fetch_text_def)
qed

text \<open>The image: streamed, verified, and marked after exactly its bytes were written.\<close>

lemma fetches_image:
  assumes "serves answer d u (decimal (unat remote) @ ascii ''.bin'') img"
    and "length leftover = READ_CHUNK" and "length img \<le> unat ACTIVE_BYTES"
    and flash: "accepting_flasher F ready" "ready f"
    and hash: "\<And>cs. hash_finalize H (foldl (hash_update H) (hash_new H) cs) = sha (concat cs)"
  shows "\<exists>w' cs. fetch_image N F H d u endpoint w f leftover remote (sha img) =
      Some (w', fst (flash_mark F (flash_writes F f 0 cs)), System_Reset) \<and> concat cs = img"
proof -
  let ?name = "decimal (unat remote) @ ascii ''.bin''" and ?len = "of_nat (length img) :: u64"
  obtain t where t: "resource_name remote (ascii ''.bin'') = Inr t" "as_str t = ?name"
    using resource_name_fits [of "ascii ''.bin''" remote] by (auto simp: ascii_def)
  obtain w1 leftover1 c h extra where f: "fetch N d u endpoint w leftover ?name =
      Some (w1, leftover1, Inr (c, h, extra))" "rh_status h = 200"
      "rh_length h = Some ?len" "take extra leftover1 @ arriving w1 = img"
    using fetches [OF assms(1,2)] by metis
  let ?b = "\<lparr>hb_link = w1, hb_leftover = take extra leftover1\<rparr>"
  have len: "unat ?len = length img" and fits: "?len \<le> ucast ACTIVE_BYTES"
    using assms(3) by (simp_all add: unat_of_nat word_nat ACTIVE_BYTES_def)
  obtain b cs where "apply_update F (http_body_reader (link N c)) H ?len (sha img) f ?b =
      (fst (flash_mark F (flash_writes F f 0 cs)), b, Inr ())" "concat cs = img"
    using live_stream.update_succeeds [OF streams [of c] flash hash fits, where r = ?b and expected = "sha img"] f(4) len by auto
  with t f show ?thesis
    by (intro exI [of _ "hb_link b"] exI [of _ cs]) (simp add: fetch_image_def)
qed

text \<open>The whole check, up to the decision and past it.\<close>

lemma checks_version:
  assumes "parse_url (ota_url d) (ota_project d) = Inr u"
    and "serves answer d u (ascii ''version'') version_text" and "length version_text \<le> VERSION_MAX_BYTES"
    and "parse_version version_text = Some remote"
  obtains w0 w1 endpoint w2 leftover where "net_config_up N w = Some w0" and "resolve N w0 u = (w1, Inr endpoint)"
    and "fetch_text N d u endpoint w1 (replicate READ_CHUNK 0) (ascii ''version'') VERSION_MAX_BYTES
      parse_version O_Version = Some (w2, leftover, Inr (Some remote))"
    and "length leftover = READ_CHUNK"
proof -
  obtain w0 where "net_config_up N w = Some w0" using configures by blast
  moreover obtain w1 endpoint where "resolve N w0 u = (w1, Inr endpoint)" using resolves by blast
  ultimately show thesis using fetches_text [where parse = parse_version, OF assms(2) length_replicate assms(3) version_room assms(4),
      of endpoint w1 0 O_Version] that
    by blast
qed

lemma skips_same_version:
  assumes "parse_url (ota_url d) (ota_project d) = Inr u"
    and "serves answer d u (ascii ''version'') version_text" and "length version_text \<le> VERSION_MAX_BYTES"
    and "parse_version version_text = Some (running_version d)"
  shows "\<exists>w'. check_and_update N F H d w f = Some (w', f, Check_Ok)"
  by (rule checks_version [OF assms, of w]) (simp add: check_and_update_def assms(1) decide_def)

lemma installs_new_version:
  assumes url: "parse_url (ota_url d) (ota_project d) = Inr u"
    and version: "serves answer d u (ascii ''version'') version_text"
      "length version_text \<le> VERSION_MAX_BYTES" "parse_version version_text = Some remote"
    and new: "remote \<noteq> running_version d"
    and digest: "serves answer d u (decimal (unat remote) @ ascii ''.bin.sha256'') digest_text"
      "length digest_text \<le> SHA_MAX_BYTES" "parse_sha256_hex digest_text = Some (sha img)"
    and img: "serves answer d u (decimal (unat remote) @ ascii ''.bin'') img"
      "length img \<le> unat ACTIVE_BYTES"
    and flash: "accepting_flasher F ready" "ready f"
    and hash: "\<And>cs. hash_finalize H (foldl (hash_update H) (hash_new H) cs) = sha (concat cs)"
  shows "\<exists>w' cs. check_and_update N F H d w f =
      Some (w', fst (flash_mark F (flash_writes F f 0 cs)), System_Reset) \<and> concat cs = img"
proof -
  let ?sha = "decimal (unat remote) @ ascii ''.bin.sha256''"
  obtain w0 w1 endpoint w2 leftover2 where v: "net_config_up N w = Some w0" "resolve N w0 u = (w1, Inr endpoint)"
      "fetch_text N d u endpoint w1 (replicate READ_CHUNK 0) (ascii ''version'') VERSION_MAX_BYTES
        parse_version O_Version = Some (w2, leftover2, Inr (Some remote))" "length leftover2 = READ_CHUNK"
    using checks_version [OF url version] by blast
  obtain t where t: "resource_name remote (ascii ''.bin.sha256'') = Inr t" "as_str t = ?sha"
    using resource_name_fits [of "ascii ''.bin.sha256''" remote] by (auto simp: ascii_def)
  obtain w3 leftover3 where h: "fetch_text N d u endpoint w2 leftover2 ?sha SHA_MAX_BYTES parse_sha256_hex O_Sha =
      Some (w3, leftover3, Inr (Some (sha img)))" "length leftover3 = READ_CHUNK"
    using fetches_text [where parse = parse_sha256_hex, OF digest(1) v(4) digest(2) sha_room digest(3)] by blast
  have "check_and_update N F H d w f = fetch_image N F H d u endpoint w3 f leftover3 remote (sha img)"
    using new by (simp add: check_and_update_def url v decide_def t h)
  with fetches_image [OF img(1) h(2) img(2) flash hash, where endpoint = endpoint and w = w3]
  show ?thesis by simp
qed

end


subsection \<open>A plain file server\<close>

text \<open>The usual head of a file server's answer is a head for every length that has a \<open>u64\<close>.\<close>

definition http_ok :: "nat \<Rightarrow> bytes" where
  "http_ok n = ascii ''HTTP/1.1 200 OK'' @ crlf @ ascii ''Content-Length: '' @ decimal n @ crlf @ crlf"

lemma full_lines_crlf:
  assumes "0x0A \<notin> set l"
  shows "full_lines (l @ crlf @ rest) = l # full_lines rest"
proof -
  have "split_on 0x0A (l @ crlf @ rest) = (l @ [0x0D]) # split_on 0x0A rest"
    using split_on_join [of "0x0A" "l @ [0x0D]" rest] assms by (simp add: crlf_def split_on_none)
  then show ?thesis by (simp add: full_lines_def strip_cr_def)
qed

lemma full_lines_crlf_open:
  assumes "0x0A \<notin> set l"
  shows "full_lines (l @ [0x0D]) = []"
  using assms by (simp add: full_lines_def split_on_none)

lemma length_header:
  assumes "n < 2 ^ 64"
  shows "parse_header (ascii ''Content-Length: '' @ decimal n) =
    Inr \<lparr>u_transfer_encoding = False, u_content_length = Some (of_nat n)\<rparr>"
proof -
  let ?name = "ascii ''Content-Length''"
  have split: "ascii ''Content-Length: '' @ decimal n = ?name @ 0x3A # 0x20 # decimal n"
    by (simp add: ascii_def)
  have val: "trim_ascii (0x20 # decimal n) = decimal n"
    using trim_ascii_over [of "[0x20]" "[]" "decimal n"] digits_trimmed [OF list_all_decimal]
    by (simp add: is_ascii_whitespace_def)
  have name: "0x3A \<notin> set ?name" "eq_ignore_ascii_case (trim_ascii ?name) (ascii ''transfer-encoding'') = False"
      "eq_ignore_ascii_case (trim_ascii ?name) (ascii ''content-length'') = True" by code_simp+
  have "length_loop 0 (decimal n) = Inr (of_nat n)"
    using decimal_digits [of n] assms by (simp add: length_loop_value list_all_iff unat_of_nat)
  then show ?thesis unfolding split parse_header_at [OF name(1)] val name(2,3) by simp
qed

lemma http_ok_head:
  assumes "n < 2 ^ 64"
  shows "head_of (http_ok n) \<lparr>rh_status = 200, rh_length = Some (of_nat n)\<rparr>"
proof -
  let ?status = "ascii ''HTTP/1.1 200 OK''" and ?len = "ascii ''Content-Length: '' @ decimal n"
  have lines: "0x0A \<notin> set ?status" "0x0A \<notin> set ?len"
    using decimal_digits [of n] by (auto simp: ascii_def is_ascii_digit_def)
  have bs: "http_ok n = ?status @ crlf @ ?len @ crlf @ crlf" by (simp add: http_ok_def)
  have "full_lines (http_ok n) = [?status, ?len, []]"
    unfolding bs using full_lines_crlf [OF lines(1)] full_lines_crlf [OF lines(2)] full_lines_crlf [of "[]" "[]"]
    by simp
  moreover have "full_lines (butlast (http_ok n)) = [?status, ?len]"
    unfolding bs using full_lines_crlf [OF lines(1)] full_lines_crlf [OF lines(2)] full_lines_crlf_open [of "[]"]
    by (simp add: butlast_append crlf_def)
  moreover have "length (http_ok n) \<le> MAX_HEAD_BYTES"
    using length_decimal_le [of n 20] assms by (simp add: http_ok_def crlf_def ascii_def MAX_HEAD_BYTES_def)
  moreover have "parse_status ?status = Inr 200" by code_simp
  moreover have "parse_header ?len = Inr \<lparr>u_transfer_encoding = False, u_content_length = Some (of_nat n)\<rparr>"
    by (rule length_header [OF assms])
  ultimately show ?thesis
    by (simp add: head_of_def bounded_spec_def head_spec_def head_end_def bs crlf_def)
qed

subsection \<open>An example\<close>

text \<open>A network for the example: the world is what has arrived, a connection delivers at most
  seven bytes per read, and \<open>answer\<close> is the server.\<close>

definition server_network :: "(bytes \<Rightarrow> bytes) \<Rightarrow> (bytes, ipv4) network" where
  "server_network answer =
     (let t = \<lparr>t_read = (\<lambda>w k. (drop (min k 7) w, Done (take (min k 7) w))),
        t_write_all = (\<lambda>_ request. (answer request, Done ())), t_flush = (\<lambda>w. (w, Done ()))\<rparr>
      in wire_network\<lparr>net_plain := t, net_tls := t\<rparr>)"

interpretation demo: good_network "server_network answer" id answer for answer
proof unfold_locales
qed (auto simp: server_network_def wire_network_def link_def Let_def split: opened.splits)

definition demo_device :: device where
  "demo_device = \<lparr>ota_url = ascii ''http://10.0.0.7'', ota_project = ascii ''garage'', ota_user = [],
     ota_password = [], running_version = 4\<rparr>"

definition demo_uri :: uri where
  "demo_uri = \<lparr>tls = False, host = ascii ''10.0.0.7'', port = 80,
     path_buf = ascii ''/garage'' @ replicate (PATH_BYTES - 7) 0, path_len = 7\<rparr>"

text \<open>The files of release 5: 32 bytes, which are their own digest under \<open>copy_hasher\<close>.\<close>

definition demo_image :: bytes where "demo_image = replicate 32 0x30"

definition demo_files :: "(bytes \<times> bytes) list" where
  "demo_files =
     [(ascii ''version'', ascii ''5''), (ascii ''5.bin.sha256'', hex_text demo_image),
      (ascii ''5.bin'', demo_image)]"

definition demo_answer :: "bytes \<Rightarrow> bytes" where
  "demo_answer request =
     (case map_of (map (\<lambda>(name, body). (request_text [] [] demo_uri name, http_ok (length body) @ body)) demo_files)
        request of Some response \<Rightarrow> response | None \<Rightarrow> [])"

lemma demo_serves:
  "list_all (\<lambda>(name, body). serves demo_answer demo_device demo_uri name body) demo_files"
proof -
  have "list_all (\<lambda>(name, body). demo_answer (request_text [] [] demo_uri name) = http_ok (length body) @ body)
      demo_files"
    by code_simp
  moreover have "list_all (\<lambda>(name, body). length (request_text [] [] demo_uri name) \<le> REQUEST_MAX_BYTES)
      demo_files"
    by code_simp
  moreover have "list_all (\<lambda>(name, body). length body < 2 ^ 64) demo_files"
    by (simp add: demo_files_def demo_image_def)
  ultimately show ?thesis
    using http_ok_head by (fastforce simp: list_all_iff serves_def demo_device_def auth_fits_def)
qed

lemma demo_url: "parse_url (ota_url demo_device) (ota_project demo_device) = Inr demo_uri"
  by code_simp

lemma demo_names:
  "decimal (unat (5 :: u32)) @ ascii ''.bin.sha256'' = ascii ''5.bin.sha256''"
  "decimal (unat (5 :: u32)) @ ascii ''.bin'' = ascii ''5.bin''"
  by (simp_all add: ascii_def decimal.simps [of 5])

lemma demo_files_served:
  "serves demo_answer demo_device demo_uri (ascii ''version'') (ascii ''5'')"
  "serves demo_answer demo_device demo_uri (decimal (unat (5 :: u32)) @ ascii ''.bin.sha256'') (hex_text demo_image)"
  "serves demo_answer demo_device demo_uri (decimal (unat (5 :: u32)) @ ascii ''.bin'') demo_image"
  unfolding demo_names using demo_serves by (simp_all add: demo_files_def)

lemma demo_hash:
  "hash_finalize copy_hasher (foldl (hash_update copy_hasher) (hash_new copy_hasher) cs) = id (concat cs)"
  by (simp add: copy_hash) (simp add: copy_hasher_def)

lemma demo_texts:
  "parse_version (ascii ''5'') = Some 5" "length (ascii ''5'') \<le> VERSION_MAX_BYTES"
  "5 \<noteq> running_version demo_device" "length (hex_text demo_image) \<le> SHA_MAX_BYTES"
  "parse_sha256_hex (hex_text demo_image) = Some (id demo_image)" "length demo_image \<le> unat ACTIVE_BYTES"
  using trim_ascii_over [of "[]" "[]" "hex_text demo_image"] hex_text_trimmed [of demo_image]
    trim_ascii_over [of "[]" "[]" "[0x35]"]
  by (simp_all add: parse_version_iff parse_sha256_hex_iff demo_image_def demo_device_def ascii_def
      VERSION_MAX_BYTES_def SHA_MAX_BYTES_def ACTIVE_BYTES_def trimmed_def number_value_def
      is_ascii_digit_def is_ascii_whitespace_def digit_value_def)

subsection \<open>Properties\<close>

text \<open>
  C8: a published release gets installed. Over any network on which nothing fails, however it cuts
  its bytes into reads, if the server answers the three requests of a check with a version other
  than the running one, the digest of an image that fits the active partition, and that image, and
  the flash accepts what it is given, then the check ends in a reset, and the calls to the flash
  were writes whose data put together is exactly the image, from offset 0, followed by the mark.
\<close>

theorem published_release_installed:
  assumes "good_network N arriving answer"
    and "accepting_flasher F ready" and "ready f"
    and "\<And>cs. hash_finalize H (foldl (hash_update H) (hash_new H) cs) = sha (concat cs)"
    and "parse_url (ota_url d) (ota_project d) = Inr u"
    and "serves answer d u (ascii ''version'') version_text" and "length version_text \<le> VERSION_MAX_BYTES"
    and "parse_version version_text = Some remote" and "remote \<noteq> running_version d"
    and "serves answer d u (decimal (unat remote) @ ascii ''.bin.sha256'') digest_text"
    and "length digest_text \<le> SHA_MAX_BYTES" and "parse_sha256_hex digest_text = Some (sha img)"
    and "serves answer d u (decimal (unat remote) @ ascii ''.bin'') img"
    and "length img \<le> unat ACTIVE_BYTES"
  shows "\<exists>w' f' cs. check_and_update N (logged F) H d w (f, []) =
      Some (w', (f', writes 0 cs @ [Marked (Inr ())]), System_Reset) \<and> concat cs = img"
proof -
  note log = accepting_flasher.logged_accepts [OF assms(2)]
  obtain w' cs where cs: "check_and_update N (logged F) H d w (f, []) =
      Some (w', fst (flash_mark (logged F) (flash_writes (logged F) (f, []) 0 cs)), System_Reset)"
      "concat cs = img"
    using good_network.installs_new_version [OF assms(1,5-14) log _ assms(4), of "(f, [])" w] assms(3) by auto
  have ws: "flash_writes (logged F) (f, []) 0 cs = (flash_writes F f 0 cs, writes 0 cs)"
      "ready (flash_writes F f 0 cs)"
    using accepting_flasher.logged_writes [OF assms(2,3), of 0 cs "[]"] cs(2) assms(14) by simp_all
  from accepting_flasher.accepts_mark [OF assms(2) ws(2)] cs show ?thesis by (auto simp: ws(1))
qed

theorem published_release_installed_witness:
  "good_network (server_network demo_answer) id demo_answer \<and>
   parse_url (ota_url demo_device) (ota_project demo_device) = Inr demo_uri \<and>
   (\<exists>w' f' cs. check_and_update (server_network demo_answer) (logged nul_flasher) copy_hasher demo_device [] ((), []) =
      Some (w', (f', writes 0 cs @ [Marked (Inr ())]), System_Reset) \<and> concat cs = demo_image)"
proof -
  note good = demo.good_network_axioms [of demo_answer]
  show ?thesis
    using good demo_url published_release_installed [OF good nul_accepts TrueI demo_hash demo_url
        demo_files_served(1) demo_texts(2,1,3) demo_files_served(2) demo_texts(4,5) demo_files_served(3)
        demo_texts(6), of "[]" "()"] by blast
qed

end
