(* ===== verification/Rollout.thy ===== *)
theory Rollout
  imports Device Good_Server
begin

text \<open>
  A release reaches the device: the check of \<open>Good_Server\<close>, the lifecycle and the boot of \<open>Device\<close>
  put together. Safety (\<open>device_recovers\<close>) says that a bad image is undone; this is the other
  direction, that a good one is installed, started, confirmed and then left alone.
\<close>

lemma serves_any_version [simp]: "serves answer (d\<lparr>running_version := v\<rparr>) u name body = serves answer d u name body"
  by (simp add: serves_def)



subsection \<open>Properties\<close>





end
