(* ===== verification/Loader.thy ===== *)
theory Loader
  imports Memory_X Boot
begin

text \<open>
  The bootloader, \<open>bootloader/src/main.rs\<close>: its \<open>main\<close> as the list of its steps, its exception
  handlers, and the linker symbols that tell embassy-boot where the partitions are. What the state
  partition holds after \<open>BootLoader::prepare\<close> is an input, as in \<open>Boot\<close>; the policy of that call is
  \<open>on_reset\<close> of \<open>Update_Machine\<close>.
\<close>

subsection \<open>Linker symbols\<close>

text \<open>A symbol of a memory map is a sum of origins and lengths of its regions. Terms and signs are
  separated by blanks, and the linker computes without wrap-around.\<close>

definition link_term :: "regions \<Rightarrow> string \<Rightarrow> int option" where
  "link_term rs t =
     (if t = [] \<or> last t \<noteq> CHR '')'' then None
      else case split_once ''('' (butlast t) of
        None \<Rightarrow> None
      | Some (f, name) \<Rightarrow>
          (case map_of rs name of
             None \<Rightarrow> None
           | Some r \<Rightarrow>
               if f = ''ORIGIN'' then Some (uint (origin r))
               else if f = ''LENGTH'' then Some (uint (len r)) else None))"

fun link_sum :: "regions \<Rightarrow> int \<Rightarrow> string list \<Rightarrow> int option" where
  "link_sum rs acc [] = Some acc"
| "link_sum rs acc [op] = None"
| "link_sum rs acc (op # t # ts) =
     (case link_term rs t of
        None \<Rightarrow> None
      | Some v \<Rightarrow>
          if op = ''+'' then link_sum rs (acc + v) ts
          else if op = ''-'' then link_sum rs (acc - v) ts else None)"

text \<open>The first assignment to a name in the lines of a map.\<close>

fun link_symbol :: "regions \<Rightarrow> string \<Rightarrow> string list \<Rightarrow> int option" where
  "link_symbol rs name [] = None"
| "link_symbol rs name (l # ls) =
     (if starts_with l (name @ '' = '') then
        (case split_once '';'' (drop (length name + 3) l) of
           None \<Rightarrow> None
         | Some (e, _) \<Rightarrow> link_sum rs 0 (''+'' # split_on (CHR '' '') e))
      else link_symbol rs name ls)"

definition symbol_value :: "string list \<Rightarrow> string \<Rightarrow> int option" where
  "symbol_value ls name =
     (case parse_memory_x True (unlines ls) of Inl _ \<Rightarrow> None | Inr rs \<Rightarrow> link_symbol rs name ls)"

text \<open>The symbols embassy-boot reads for a partition, as flash offsets: first and past the end.\<close>

definition linked_range :: "string list \<Rightarrow> string \<Rightarrow> (int \<times> int) option" where
  "linked_range ls key =
     (case (symbol_value ls (''__bootloader_'' @ key @ ''_start''),
            symbol_value ls (''__bootloader_'' @ key @ ''_end'')) of
        (Some a, Some b) \<Rightarrow> Some (a, b) | _ \<Rightarrow> None)"

definition layout_range :: "partition \<Rightarrow> int \<times> int" where
  "layout_range p = (uint (offset p), uint (end_offset p))"

lemma bootloader_ranges:
  "linked_range bootloader_lines ''active'' = Some (layout_range Active)"
  "linked_range bootloader_lines ''dfu'' = Some (layout_range Dfu)"
  "linked_range bootloader_lines ''state'' = Some (layout_range State)"
  unfolding linked_range_def symbol_value_def bootloader_memory_x_def [symmetric] bootloader_regions sum.case
  by code_simp+

lemma app_ranges:
  "linked_range app_lines ''dfu'' = Some (layout_range Dfu)"
  "linked_range app_lines ''state'' = Some (layout_range State)"
  unfolding linked_range_def symbol_value_def app_memory_x_def [symmetric] app_regions sum.case
  by code_simp+

subsection \<open>Starting an image\<close>

definition LOADER_FLASH_SIZE :: nat where "LOADER_FLASH_SIZE = unat FLASH_BYTES"

text \<open>The steps of \<open>main\<close>. The calls of embassy-boot carry what the code hands to them: the size
  and the watchdog period of the flash driver, the address of the image; \<open>xip_base\<close> is \<open>embassy_rp::flash::FLASH_BASE\<close>.\<close>

datatype loader_step =
    Init_Chip | Watch_Flash nat nat | Read_Ranges | Prepare | Reset_To_Usb u32 u32 | Load_Image u32

definition loader_main :: "u32 \<Rightarrow> u32 \<Rightarrow> boot_mark \<Rightarrow> loader_step list" where
  "loader_main xip_base active_offset state =
     [Init_Chip, Watch_Flash LOADER_FLASH_SIZE 8000, Read_Ranges, Prepare] @
     (if state = Detach_Mark then [Reset_To_Usb 0 0] else []) @
     [Load_Image (xip_base + active_offset)]"

text \<open>Neither the reset into the USB loader nor the jump into an image returns.\<close>

fun executed :: "loader_step list \<Rightarrow> loader_step list" where
  "executed [] = []"
| "executed (s # ss) =
     (case s of Reset_To_Usb _ _ \<Rightarrow> [s] | Load_Image _ \<Rightarrow> [s] | _ \<Rightarrow> s # executed ss)"

lemma executed_main:
  "executed (loader_main xip_base off state) =
     [Init_Chip, Watch_Flash 2097152 8000, Read_Ranges, Prepare,
      if state = Detach_Mark then Reset_To_Usb 0 0 else Load_Image (xip_base + off)]"
  by (simp add: loader_main_def LOADER_FLASH_SIZE_def FLASH_BYTES_def)

subsection \<open>Faults\<close>

text \<open>The two exception handlers and the panic handler. \<open>DefaultHandler\<close> panics with the number
  it reads from the interrupt control register, a panic executes an undefined instruction, which is
  a hard fault, and a hard fault resets the system (\<open>None\<close>).\<close>

datatype fault = Hard_Fault | Default_Fault u32 | Rust_Panic "16 word option"

definition fault_number :: "u32 \<Rightarrow> 16 word" where
  "fault_number icsr = ucast (ucast icsr :: u8) - 16"

fun handle_fault :: "fault \<Rightarrow> fault option" where
  "handle_fault Hard_Fault = None"
| "handle_fault (Default_Fault icsr) = Some (Rust_Panic (Some (fault_number icsr)))"
| "handle_fault (Rust_Panic n) = Some Hard_Fault"

text \<open>Every fault ends in a reset: the handlers never run in a circle.\<close>

fun fault_depth :: "fault \<Rightarrow> nat" where
  "fault_depth Hard_Fault = 0" | "fault_depth (Rust_Panic n) = 1" | "fault_depth (Default_Fault icsr) = 2"

lemma faults_reset: "handle_fault f = Some f1 \<Longrightarrow> fault_depth f1 < fault_depth f"
  by (cases f) auto

text \<open>The number is that of the exception, with the sixteen system exceptions below zero.\<close>

lemma fault_number_exact: "sint (fault_number icsr) = uint icsr mod 256 - 16"
proof -
  let ?n = "ucast icsr :: u8"
  have n: "uint ?n = uint icsr mod 256" "uint ?n < 256"
    using uint_bounded [of ?n] by (simp_all add: unsigned_ucast_eq take_bit_eq_mod)
  have "fault_number icsr = word_of_int (uint ?n) - 16"
    by (simp only: fault_number_def ucast_eq [of ?n])
  then have word: "fault_number icsr = word_of_int (uint ?n - 16)" by simp
  have "sint (fault_number icsr) = signed_take_bit (LENGTH(16) - 1) (uint ?n - 16)"
    unfolding word by (rule sint_sbintrunc')
  also have "\<dots> = uint ?n - 16"
    using n(2) uint_nonnegative [of ?n] by (intro signed_take_bit_int_eq_self) simp_all
  finally show ?thesis using n(1) by simp
qed

subsection \<open>Properties\<close>

text \<open>
  C13: the bootloader starts the application where it is linked. The symbols of the bootloader's
  memory map give embassy-boot exactly the ACTIVE, DFU and STATE partitions of the layout that the
  code computes with, and those of the application's map the same DFU and STATE; the bootloader jumps to the
  origin of the region that the application is linked into, which is the whole ACTIVE partition; and it
  does so after every reset of the update lifecycle but the one that was detached to USB, where it
  resets into the USB loader and starts nothing.
\<close>

theorem loader_starts_application:
  "linked_range bootloader_lines ''active'' = Some (layout_range Active) \<and>
   linked_range bootloader_lines ''dfu'' = Some (layout_range Dfu) \<and>
   linked_range bootloader_lines ''state'' = Some (layout_range State) \<and>
   linked_range app_lines ''dfu'' = Some (layout_range Dfu) \<and>
   linked_range app_lines ''state'' = Some (layout_range State) \<and>
   (\<exists>app region. parse_memory_x chk app_memory_x = Inr app \<and> map_of app ''FLASH'' = Some region \<and>
      len region = ACTIVE_BYTES \<and>
      (case on_reset m of None \<Rightarrow> \<not> machine_ok m
       | Some (m1, a) \<Rightarrow>
           last (executed (loader_main FLASH_BASE (word_of_int (fst (layout_range Active))) (mark_of (update_state m1)))) =
           (if a = EnterUsbBoot then Reset_To_Usb 0 0 else Load_Image (origin region))))"
proof -
  have jump: "case on_reset m of None \<Rightarrow> \<not> machine_ok m
     | Some (m1, a) \<Rightarrow>
         last (executed (loader_main FLASH_BASE (word_of_int (fst (layout_range Active))) (mark_of (update_state m1)))) =
         (if a = EnterUsbBoot then Reset_To_Usb 0 0 else Load_Image ACTIVE_BASE)"
    by (cases "update_state m")
      (auto simp: on_reset_def executed_main mark_of_def machine_ok_def layout_range_def offset_def split: option.split)
  show ?thesis
    unfolding app_regions
    by (intro conjI exI [of _ "\<lparr>origin = ACTIVE_BASE, len = ACTIVE_BYTES\<rparr>"] exI, unfold region.simps)
      (rule bootloader_ranges app_ranges refl jump | simp add: flash_consts)+
qed

end
