(* ===== verification/Radio.thy ===== *)
theory Radio
  imports Build_Scripts
begin

text \<open>
  Bringing up the radio, \<open>app/src/radio.rs\<close>, and the heap of the TLS path, \<open>app/src/heap.rs\<close>. Both
  hand hardware and memory to external drivers, so what can be said of them is what they hand over
  and in which order: the list of their calls, as \<open>main\<close> in \<open>Boot\<close>.
\<close>

subsection \<open>The radio\<close>

text \<open>The blobs that \<open>init\<close> includes into the image, by their names in the firmware directory.\<close>

definition FW_BLOB :: string where "FW_BLOB = ''43439A0.bin''"
definition CLM_BLOB :: string where "CLM_BLOB = ''43439A0_clm.bin''"
definition NVRAM_BLOB :: string where "NVRAM_BLOB = ''nvram_rp2040.bin''"

datatype radio_step =
    Power_Pin bool | Chip_Select bool | Open_Spi | New_Driver string string | Spawn_Driver
  | Control_Init string | Power_Performance | Seed_Random | New_Stack nat | Spawn_Net | Share_Control

definition init_net_stack :: "radio_step list" where
  "init_net_stack = [Seed_Random, New_Stack 4, Spawn_Net]"

definition radio_init :: "radio_step list" where
  "radio_init =
     [Power_Pin False, Chip_Select True, Open_Spi, New_Driver FW_BLOB NVRAM_BLOB, Spawn_Driver,
      Control_Init CLM_BLOB, Power_Performance] @ init_net_stack @ [Share_Control]"

text \<open>The calls on the control handle are answered by the driver's task, and wait forever without it;
  a stack moves packets only once its own task runs.\<close>

definition needs_driver :: "radio_step \<Rightarrow> bool" where
  "needs_driver s \<longleftrightarrow> s = Power_Performance \<or> (\<exists>b. s = Control_Init b)"

fun answered :: "bool \<Rightarrow> radio_step list \<Rightarrow> bool" where
  "answered running [] = True"
| "answered running (s # ss) \<longleftrightarrow> (if needs_driver s then running else True) \<and> answered (running \<or> s = Spawn_Driver) ss"

lemma radio_init_answered: "answered False radio_init \<and> last radio_init = Share_Control \<and> Spawn_Net \<in> set radio_init"
  by (simp add: radio_init_def init_net_stack_def needs_driver_def)

text \<open>What a step takes from the image, and that the build script has fetched all of it.\<close>

primrec step_blobs :: "radio_step \<Rightarrow> string list" where
  "step_blobs (Power_Pin b) = []" | "step_blobs (Chip_Select b) = []" | "step_blobs Open_Spi = []"
| "step_blobs (New_Driver fw nvram) = [fw, nvram]" | "step_blobs Spawn_Driver = []"
| "step_blobs (Control_Init clm) = [clm]" | "step_blobs Power_Performance = []"
| "step_blobs Seed_Random = []" | "step_blobs (New_Stack n) = []" | "step_blobs Spawn_Net = []"
| "step_blobs Share_Control = []"

lemma included_blobs: "set (concat (map step_blobs radio_init)) = set BLOBS"
  by (auto simp: radio_init_def init_net_stack_def FW_BLOB_def CLM_BLOB_def NVRAM_BLOB_def BLOBS_def)

lemma included_blobs_fetched:
  assumes "fetch_firmware_blobs S dir h = (h1, Inr ())" and "name \<in> set (concat (map step_blobs radio_init))"
  shows "files h1 (path_join (path_join dir ''firmware'') name) \<noteq> None"
  using blobs_fetched(2) [OF assms(1) refl] assms(2) unfolding included_blobs list_all_iff fetched_def
  by (fastforce split: option.splits)

subsection \<open>The heap\<close>

definition HEAP_SIZE :: nat where "HEAP_SIZE = 48 * 1024"

text \<open>The allocator is given one region, the static backing store at \<open>start\<close>, once.\<close>

definition heap_init :: "nat \<Rightarrow> nat \<times> nat" where
  "heap_init start = (start, HEAP_SIZE)"

text \<open>\<open>main\<close> initialises it before anything else, and in particular before the OTA task exists.\<close>

lemma heap_first: "hd (app_main env) = Init_Heap \<and> Init_Heap \<notin> set (tl (app_main env))"
  by (auto simp: app_main_steps)

end
