(* ===== verification/Connectivity.thy ===== *)
theory Connectivity
  imports Tasks Wifi_Supervisor
begin

text \<open>
  The two tasks that keep the device connected, interleaved: the telemetry task (\<open>telemetry.rs\<close>) and
  the Wi-Fi supervisor (\<open>wifi.rs\<close>), which share \<open>WIFI_REJOIN_SIGNAL\<close>. Here the supervisor's loop is cut
  at its waits, because a request may be raised while it is anywhere in a turn; that the pieces
  make up the turn of \<open>Wifi_Supervisor\<close> is proved first. The signal is a parameter with the contract
  \<open>latest_signal\<close>.
\<close>

subsection \<open>The supervisor between its waits\<close>

text \<open>Where the supervisor waits: for the join call, for a lease (at which attempt), on the active
  link; or it is about to look at the watchdog. After a reset nothing runs any more.\<close>

datatype wifi_phase = Joining | Leasing u32 | Watching | Checking | Halted

datatype wifi_event =
  Join_Ended "join_error + unit" | Lease_Acquired u64 | Lease_Timed_Out | Rejoin_Taken | Link_Dropped | Checked u64

fun wifi_step :: "wifi_phase \<times> supervisor \<Rightarrow> wifi_event \<Rightarrow>
    ((wifi_phase \<times> supervisor) \<times> wifi_action list) option" where
  "wifi_step (Joining, s) (Join_Ended r) =
     Some (case r of
        Inr _ \<Rightarrow> ((Leasing 1, s), [Signal_Beacon Connecting])
      | Inl _ \<Rightarrow> ((Checking, s), [Signal_Beacon Connecting, Signal_Beacon (Error 1)]))"
| "wifi_step (Leasing n, s) (Lease_Acquired now) =
     Some ((Watching, \<lparr>backoff = INITIAL_BACKOFF_MS, no_ip = note_ip (no_ip s) now\<rparr>), [Signal_Beacon Connected])"
| "wifi_step (Leasing n, s) Lease_Timed_Out =
     Some (if DHCP_ATTEMPTS \<le> n then ((Checking, s), [Signal_Beacon (Error 3)]) else ((Leasing (n + 1), s), []))"
| "wifi_step (Leasing n, s) Rejoin_Taken = Some ((Checking, s), [Signal_Beacon (Error 2)])"
| "wifi_step (Watching, s) Link_Dropped = Some ((Checking, s), [Signal_Beacon (Error 2)])"
| "wifi_step (Watching, s) Rejoin_Taken = Some ((Checking, s), [Signal_Beacon (Error 2)])"
| "wifi_step (Checking, s) (Checked now) =
     Some (if reboot_due (no_ip s) now then ((Halted, s), [Sys_Reset])
           else ((Joining, s\<lparr>backoff := next_backoff_ms (backoff s)\<rparr>), [Wait_Ms (backoff s)]))"
| "wifi_step _ _ = None"

fun wifi_steps :: "wifi_phase \<times> supervisor \<Rightarrow> wifi_event list \<Rightarrow>
    ((wifi_phase \<times> supervisor) \<times> wifi_action list) option" where
  "wifi_steps st [] = Some (st, [])"
| "wifi_steps st (e # es) =
     (case wifi_step st e of
        None \<Rightarrow> None
      | Some (st1, acts) \<Rightarrow>
          (case wifi_steps st1 es of None \<Rightarrow> None | Some (st2, acts2) \<Rightarrow> Some (st2, acts @ acts2)))"

text \<open>The events of one turn, from what it is given in \<open>Wifi_Supervisor\<close>.\<close>

primrec lease_events :: "nat \<Rightarrow> u32 \<Rightarrow> wifi_turn \<Rightarrow> wifi_event list" where
  "lease_events 0 n t = []"
| "lease_events (Suc k) n t =
     (case lease t n of
        Lease_Up \<Rightarrow> [Lease_Acquired (lease_ms t), case link_ended t of Link_Down \<Rightarrow> Link_Dropped | Link_Rejoin \<Rightarrow> Rejoin_Taken]
      | Rejoin_Requested \<Rightarrow> [Rejoin_Taken]
      | Lease_Timeout \<Rightarrow> Lease_Timed_Out # lease_events k (n + 1) t)"

definition turn_events :: "wifi_turn \<Rightarrow> wifi_event list" where
  "turn_events t =
     Join_Ended (joined t) # (if joined t = Inr () then lease_events 3 1 t else []) @ [Checked (check_ms t)]"

lemma wifi_steps_append:
  "wifi_steps st (es @ es') =
     (case wifi_steps st es of
        None \<Rightarrow> None
      | Some (st1, acts) \<Rightarrow>
          (case wifi_steps st1 es' of None \<Rightarrow> None | Some (st2, acts2) \<Rightarrow> Some (st2, acts @ acts2)))"
  by (induction es arbitrary: st) (simp_all split: option.split prod.split)

lemma lease_events_3: "lease_events 3 n t = lease_events (Suc (Suc (Suc 0))) n t"
  by (simp only: numeral_3_eq_3)

lemma lease_steps:
  "wifi_steps (Leasing 1, s) (lease_events 3 1 t) =
     Some (case dhcp_loop (lease t) 0 of
        Some code \<Rightarrow> ((Checking, s), [Signal_Beacon (Error code)])
      | None \<Rightarrow> ((Checking, \<lparr>backoff = INITIAL_BACKOFF_MS, no_ip = note_ip (no_ip s) (lease_ms t)\<rparr>),
          [Signal_Beacon Connected, Signal_Beacon (Error 2)]))"
  by (cases "lease t 1"; cases "lease t 2"; cases "lease t 3"; cases "link_ended t")
    (simp_all add: lease_events_3 dhcp_waits DHCP_ATTEMPTS_def word_le_nat_alt)

lemma turn_steps:
  "wifi_steps (Joining, s) (turn_events t) =
     Some ((if reboot_due (no_ip (noted t s)) (check_ms t) then Halted else Joining, fst (supervisor_turn s t)),
       snd (supervisor_turn s t))"
  by (cases "joined t"; cases "dhcp_loop (lease t) 0")
    (simp_all add: turn_events_def wifi_steps_append lease_steps supervisor_turn_noted noted_def leased_def beacons_def)

subsection \<open>Both tasks\<close>

record 's net =
  n_wifi :: "wifi_phase \<times> supervisor"
  n_rejoin :: 's
  n_mqtt :: telemetry

datatype net_event = Wifi_Event wifi_event | Mqtt_Turn telemetry_input

datatype net_effect = Radio wifi_action | Mqtt telemetry_action | Link_Given_Up

definition net_start :: "('s, unit) signal_cell \<Rightarrow> 's net" where
  "net_start S = \<lparr>n_wifi = (Joining, supervisor_new), n_rejoin = sg_new S, n_mqtt = telemetry_new\<rparr>"

fun raise_requests :: "('s, unit) signal_cell \<Rightarrow> 's \<Rightarrow> telemetry_action list \<Rightarrow> 's" where
  "raise_requests S r [] = r"
| "raise_requests S r (a # acts) = raise_requests S (if a = Request_Rejoin then sg_put S r () else r) acts"

text \<open>One event. Taking a request needs one to be there; after a reset there are no events.\<close>

definition net_step :: "('s, unit) signal_cell \<Rightarrow> u32 \<Rightarrow> 's net \<Rightarrow> net_event \<Rightarrow> ('s net \<times> net_effect list) option" where
  "net_step S version st e =
     (if fst (n_wifi st) = Halted then None
      else case e of
        Mqtt_Turn t \<Rightarrow>
          (case telemetry_turn version (n_mqtt st) t of
             (m, acts) \<Rightarrow> Some (st\<lparr>n_mqtt := m, n_rejoin := raise_requests S (n_rejoin st) acts\<rparr>, map Mqtt acts))
      | Wifi_Event Rejoin_Taken \<Rightarrow>
          (case sg_take S (n_rejoin st) of
             (None, _) \<Rightarrow> None
           | (Some _, r) \<Rightarrow>
               (case wifi_step (n_wifi st) Rejoin_Taken of
                  None \<Rightarrow> None
                | Some (w, acts) \<Rightarrow> Some (st\<lparr>n_wifi := w, n_rejoin := r\<rparr>, Link_Given_Up # map Radio acts)))
      | Wifi_Event we \<Rightarrow>
          (case wifi_step (n_wifi st) we of
             None \<Rightarrow> None
           | Some (w, acts) \<Rightarrow> Some (st\<lparr>n_wifi := w\<rparr>, map Radio acts)))"

inductive net_run :: "('s, unit) signal_cell \<Rightarrow> u32 \<Rightarrow> 's net \<Rightarrow> net_event list \<Rightarrow> net_effect list \<Rightarrow> bool"
  for S version where
  net_started: "net_run S version (net_start S) [] []"
| net_stepped: "net_run S version st es effs \<Longrightarrow> net_step S version st e = Some (st1, new) \<Longrightarrow>
    net_run S version st1 (es @ [e]) (effs @ new)"

subsection \<open>What is observed of a run\<close>

text \<open>The requests raised and the links given up for one, and whether the last of these is a request.\<close>

definition requests_raised :: "net_effect list \<Rightarrow> nat" where
  "requests_raised effs = length (filter ((=) (Mqtt Request_Rejoin)) effs)"

definition links_given_up :: "net_effect list \<Rightarrow> nat" where
  "links_given_up effs = length (filter ((=) Link_Given_Up) effs)"

fun concerns :: "net_effect \<Rightarrow> bool \<Rightarrow> bool" where
  "concerns (Mqtt Request_Rejoin) b = True"
| "concerns Link_Given_Up b = False"
| "concerns _ b = b"

definition request_open :: "net_effect list \<Rightarrow> bool" where
  "request_open effs = fold concerns effs False"

fun mqtt_input :: "net_event \<Rightarrow> telemetry_input option" where
  "mqtt_input (Mqtt_Turn t) = Some t" | "mqtt_input (Wifi_Event e) = None"

definition mqtt_inputs :: "net_event list \<Rightarrow> telemetry_input list" where
  "mqtt_inputs es = List.map_filter mqtt_input es"

definition failed_turns :: "net_event list \<Rightarrow> nat" where
  "failed_turns es = length (filter (\<lambda>t. \<not> link_open t) (mqtt_inputs es))"

text \<open>When a lease was acquired last (0, the boot, when there was none).\<close>

fun acquisition :: "nat \<Rightarrow> net_event \<Rightarrow> nat" where
  "acquisition n (Wifi_Event (Lease_Acquired now)) = unat now" | "acquisition n _ = n"

definition acquired_at :: "net_event list \<Rightarrow> nat" where
  "acquired_at es = foldl acquisition 0 es"

lemma net_observed [simp]:
  "requests_raised [] = 0" "links_given_up [] = 0" "\<not> request_open []" "mqtt_inputs [] = []" "failed_turns [] = 0"
  "acquired_at [] = 0" "acquired_at (es @ [e]) = acquisition (acquired_at es) e"
  "requests_raised (xs @ ys) = requests_raised xs + requests_raised ys"
  "links_given_up (xs @ ys) = links_given_up xs + links_given_up ys"
  "mqtt_inputs (es @ [Mqtt_Turn t]) = mqtt_inputs es @ [t]" "mqtt_inputs (es @ [Wifi_Event we]) = mqtt_inputs es"
  "failed_turns (es @ [Mqtt_Turn t]) = failed_turns es + (if link_open t then 0 else 1)"
  "failed_turns (es @ [Wifi_Event we]) = failed_turns es"
  by (simp_all add: requests_raised_def links_given_up_def request_open_def mqtt_inputs_def failed_turns_def
      acquired_at_def map_filter_def)

lemma concerns_radio [simp]: "fold concerns (map Radio acts) b = b"
  by (induction acts arbitrary: b) simp_all

lemma concerns_mqtt [simp]: "fold concerns (map Mqtt acts) b \<longleftrightarrow> Request_Rejoin \<in> set acts \<or> b"
proof (induction acts arbitrary: b)
  case Nil
  show ?case by simp
next
  case (Cons a acts)
  then show ?case by (cases a) auto
qed

lemma observed_radio [simp]:
  "requests_raised (map Radio acts) = 0" "links_given_up (map Radio acts) = 0"
  "request_open (xs @ map Radio acts) = request_open xs"
  by (simp_all add: requests_raised_def links_given_up_def request_open_def filter_empty_conv)

lemma observed_given_up [simp]:
  "requests_raised (Link_Given_Up # map Radio acts) = 0" "links_given_up (Link_Given_Up # map Radio acts) = 1"
  "\<not> request_open (xs @ Link_Given_Up # map Radio acts)"
  by (simp_all add: requests_raised_def links_given_up_def request_open_def filter_empty_conv)

lemma observed_mqtt [simp]:
  "requests_raised (map Mqtt acts) = length (filter ((=) Request_Rejoin) acts)"
  "links_given_up (map Mqtt acts) = 0"
  "request_open (xs @ map Mqtt acts) \<longleftrightarrow> Request_Rejoin \<in> set acts \<or> request_open xs"
  by (simp_all add: requests_raised_def links_given_up_def request_open_def filter_map comp_def filter_empty_conv)

subsection \<open>The invariants\<close>

text \<open>The requests of one telemetry turn.\<close>

lemma turn_requests:
  assumes "telemetry_inv m ts" and "telemetry_turn v m t = (m1, acts)"
  shows "telemetry_inv m1 (ts @ [t])"
    and "length (filter ((=) Request_Rejoin) acts) =
      (if \<not> link_open t \<and> 5 dvd fail_run (ts @ [t]) then 1 else 0)"
proof -
  note R = telemetry_turn_recovery [OF assms(1), of v t, unfolded assms(2)]
  show "telemetry_inv m1 (ts @ [t])" using R by simp
  have "filter ((=) Request_Rejoin) acts = filter ((=) Request_Rejoin) (filter is_recovery acts)"
    unfolding filter_filter by (rule filter_cong) auto
  also have "length \<dots> = (if \<not> link_open t \<and> 5 dvd fail_run (ts @ [t]) then 1 else 0)"
    using R by (simp add: recovery_def)
  finally show "length (filter ((=) Request_Rejoin) acts) =
      (if \<not> link_open t \<and> 5 dvd fail_run (ts @ [t]) then 1 else 0)" .
qed

definition net_inv :: "('s \<Rightarrow> unit option) \<Rightarrow> 's net \<Rightarrow> net_event list \<Rightarrow> net_effect list \<Rightarrow> bool" where
  "net_inv held st es effs \<longleftrightarrow>
     telemetry_inv (n_mqtt st) (mqtt_inputs es) \<and>
     (held (n_rejoin st) \<noteq> None \<longleftrightarrow> request_open effs) \<and>
     links_given_up effs + (if request_open effs then 1 else 0) \<le> requests_raised effs \<and>
     5 * requests_raised effs + fail_run (mqtt_inputs es) mod 5 \<le> failed_turns es"

lemma raise_requests_held:
  assumes "latest_signal S held"
  shows "held (raise_requests S r acts) = (if Request_Rejoin \<in> set acts then Some () else held r)"
  using latest_signal.put_latest [OF assms] by (induction acts arbitrary: r) auto

lemma net_step_cases [consumes 1, case_names mqtt taken wifi]:
  assumes "net_step S version st e = Some (st1, new)"
  obtains t m acts where "e = Mqtt_Turn t" "telemetry_turn version (n_mqtt st) t = (m, acts)" "new = map Mqtt acts"
      "st1 = st\<lparr>n_mqtt := m, n_rejoin := raise_requests S (n_rejoin st) acts\<rparr>"
  | u r w acts where "e = Wifi_Event Rejoin_Taken" "sg_take S (n_rejoin st) = (Some u, r)"
      "wifi_step (n_wifi st) Rejoin_Taken = Some (w, acts)" "new = Link_Given_Up # map Radio acts"
      "st1 = st\<lparr>n_wifi := w, n_rejoin := r\<rparr>"
  | we w acts where "e = Wifi_Event we" "we \<noteq> Rejoin_Taken" "wifi_step (n_wifi st) we = Some (w, acts)"
      "new = map Radio acts" "st1 = st\<lparr>n_wifi := w\<rparr>"
proof (cases e)
  case (Mqtt_Turn t)
  with assms that(1) show thesis by (auto simp: net_step_def split: if_splits prod.splits)
next
  case (Wifi_Event we)
  with assms show thesis
    by (cases we)
      (auto simp: net_step_def split: if_splits option.splits prod.splits intro: that(2) that(3))
qed

lemma net_step_inv:
  assumes "latest_signal S held" and "net_inv held st es effs" and "net_step S version st e = Some (st1, new)"
  shows "net_inv held st1 (es @ [e]) (effs @ new)"
  using assms(3)
proof (cases rule: net_step_cases)
  case (mqtt t m acts)
  have inv: "telemetry_inv (n_mqtt st) (mqtt_inputs es)" using assms(2) by (simp add: net_inv_def)
  note R = turn_requests [OF inv mqtt(2)]
  have open_: "Request_Rejoin \<in> set acts \<longleftrightarrow> length (filter ((=) Request_Rejoin) acts) \<noteq> 0"
    by (auto simp: filter_empty_conv)
  show ?thesis
  proof (cases "Request_Rejoin \<in> set acts")
    case True
    with open_ R(2) have "\<not> link_open t" "fail_run (mqtt_inputs es @ [t]) mod 5 = 0"
        "length (filter ((=) Request_Rejoin) acts) = 1"
      by (auto split: if_splits)
    moreover from this have "fail_run (mqtt_inputs es) mod 5 = 4" by (auto simp: mod_Suc split: if_splits)
    ultimately show ?thesis
      using assms(2) R(1) True mqtt by (auto simp: net_inv_def raise_requests_held [OF assms(1)] simp del: fail_run_simps)
  next
    case False
    then have "length (filter ((=) Request_Rejoin) acts) = 0" using open_ by simp
    moreover have "fail_run (mqtt_inputs es @ [t]) mod 5 \<le>
        fail_run (mqtt_inputs es) mod 5 + (if link_open t then 0 else 1)"
      by (simp add: mod_Suc)
    ultimately show ?thesis
      using assms(2) R(1) False mqtt by (auto simp: net_inv_def raise_requests_held [OF assms(1)] simp del: fail_run_simps)
  qed
next
  case (taken u r w acts)
  then have "held (n_rejoin st) \<noteq> None" "held r = None"
    using latest_signal.take_clears [OF assms(1) taken(2)] by auto
  with assms(2) taken show ?thesis by (auto simp: net_inv_def)
next
  case (wifi we w acts)
  with assms(2) show ?thesis by (simp add: net_inv_def)
qed

lemma net_run_inv:
  assumes "latest_signal S held" and "net_run S version st es effs"
  shows "net_inv held st es effs"
  using assms(2)
proof induction
  case net_started
  have "telemetry_inv telemetry_new []" using telemetry.inv_start .
  then show ?case by (simp add: net_inv_def net_start_def latest_signal.new_clear [OF assms(1)])
next
  case (net_stepped st es effs e st1 new)
  show ?case by (rule net_step_inv [OF assms(1) net_stepped.IH net_stepped.hyps(2)])
qed

lemma lease_step:
  assumes "wifi_step (ph, s) we = Some ((ph1, s1), acts)"
    and "(case last_ip_ms (no_ip s) of Some t \<Rightarrow> unat t | None \<Rightarrow> 0) = acquired_at es"
  shows "(case last_ip_ms (no_ip s1) of Some t \<Rightarrow> unat t | None \<Rightarrow> 0) = acquired_at (es @ [Wifi_Event we])"
  using assms by (cases "((ph, s), we)" rule: wifi_step.cases) (auto simp: note_ip_def split: sum.splits if_splits)

lemma lease_run:
  assumes "net_run S version st es effs"
  shows "(case last_ip_ms (no_ip (snd (n_wifi st))) of Some t \<Rightarrow> unat t | None \<Rightarrow> 0) = acquired_at es"
  using assms
proof induction
  case net_started
  show ?case by (simp add: net_start_def supervisor_new_def no_ip_new_def)
next
  case (net_stepped st es effs e st1 new)
  from net_stepped.hyps(2) show ?case
  proof (cases rule: net_step_cases)
    case (mqtt t m acts)
    with net_stepped.IH show ?thesis by simp
  next
    case (taken u r w acts)
    with lease_step [of "fst (n_wifi st)" "snd (n_wifi st)" Rejoin_Taken "fst w" "snd w" acts es] net_stepped.IH
    show ?thesis by simp
  next
    case (wifi we w acts)
    with lease_step [of "fst (n_wifi st)" "snd (n_wifi st)" we "fst w" "snd w" acts es] net_stepped.IH
    show ?thesis by simp
  qed
qed

lemma resets_at_checks:
  assumes "net_run S version st es effs" and "net_step S version st e = Some (st1, new)"
  shows "Radio Sys_Reset \<in> set new \<longleftrightarrow>
    (case e of Wifi_Event (Checked now) \<Rightarrow> acquired_at es + 600000 \<le> unat now | _ \<Rightarrow> False)"
  using assms(2)
proof (cases rule: net_step_cases)
  case (mqtt t m acts)
  then show ?thesis by auto
next
  case (taken u r w acts)
  then show ?thesis
    by (cases "(n_wifi st, Rejoin_Taken)" rule: wifi_step.cases) auto
next
  case (wifi we w acts)
  note L = lease_run [OF assms(1)]
  from wifi(3) show ?thesis
    using wifi(1,4) L
    by (cases "(n_wifi st, we)" rule: wifi_step.cases)
      (auto simp: reboot_due_iff split: sum.splits if_splits)
qed

text \<open>After a link has dropped the check comes next, and nothing has been noted in between.\<close>

lemma drop_is_checked:
  assumes "net_run S version st es effs" and "net_step S version st e = Some (st1, new)"
    and "e = Wifi_Event Link_Dropped"
  shows "\<exists>st2 new2. net_step S version st1 (Wifi_Event (Checked now)) = Some (st2, new2) \<and>
    (Radio Sys_Reset \<in> set new2 \<longleftrightarrow> acquired_at es + 600000 \<le> unat now)"
proof -
  obtain s where w: "n_wifi st1 = (Checking, s)"
    using assms(2,3) by (cases "(n_wifi st, Link_Dropped)" rule: wifi_step.cases) (auto simp: net_step_def)
  obtain st2 new2 where c: "net_step S version st1 (Wifi_Event (Checked now)) = Some (st2, new2)"
    by (cases "reboot_due (no_ip s) now") (simp_all add: net_step_def w)
  have "net_run S version st1 (es @ [e]) (effs @ new)" by (rule net_stepped [OF assms(1,2)])
  from resets_at_checks [OF this c] c assms(3) show ?thesis by simp
qed

text \<open>Running a list of events, for the examples.\<close>

fun net_play :: "('s, unit) signal_cell \<Rightarrow> u32 \<Rightarrow> 's net \<Rightarrow> net_event list \<Rightarrow> ('s net \<times> net_effect list) option" where
  "net_play S version st [] = Some (st, [])"
| "net_play S version st (e # es) =
     (case net_step S version st e of
        None \<Rightarrow> None
      | Some (st1, new) \<Rightarrow> map_option (\<lambda>(st2, effs). (st2, new @ effs)) (net_play S version st1 es))"

lemma net_play_runs:
  assumes "net_run S version st es effs" and "net_play S version st es1 = Some (st1, effs1)"
  shows "net_run S version st1 (es @ es1) (effs @ effs1)"
  using assms
proof (induction es1 arbitrary: st es effs effs1)
  case Nil
  then show ?case by simp
next
  case (Cons e es1)
  then obtain st2 new effs2 where "net_step S version st e = Some (st2, new)"
      "net_play S version st2 es1 = Some (st1, effs2)" "effs1 = new @ effs2"
    by (auto split: option.splits)
  with Cons.IH [OF net_stepped [OF Cons.prems(1)]] show ?case by fastforce
qed

interpretation rejoin_cell: latest_signal "option_signal :: (unit option, unit) signal_cell" "\<lambda>s. s"
  by unfold_locales (auto simp: option_signal_def)

definition refused :: net_event where
  "refused = Mqtt_Turn \<lparr>attempt = Tcp_Failed, snapshot = None, announced = True, session = []\<rparr>"

text \<open>The fifth connection attempt in a row fails when the link has just gone down.\<close>

definition dying_link :: "net_event list" where
  "dying_link = [Wifi_Event (Join_Ended (Inr ())), Wifi_Event (Lease_Acquired 5000)] @ replicate 4 refused @
     [Wifi_Event Link_Dropped, refused, Wifi_Event (Checked 90000), Wifi_Event (Join_Ended (Inr ()))]"

lemma dying_link_play:
  "map_option (\<lambda>(st, effs). (fst (n_wifi st), n_rejoin st, requests_raised effs, request_open effs))
     (net_play option_signal 7 (net_start option_signal) dying_link) = Some (Leasing 1, Some (), 1, True)"
  by code_simp

subsection \<open>Properties\<close>

definition awaits_request :: "wifi_phase \<Rightarrow> bool" where
  "awaits_request ph = (case ph of Leasing _ \<Rightarrow> True | Watching \<Rightarrow> True | _ \<Rightarrow> False)"

text \<open>
  C16: rejoin requests are neither lost nor answered twice, in every interleaving of the telemetry
  task with the Wi-Fi supervisor. The signal is up exactly while a request has been raised since the last
  association that was given up for one; the supervisor can take it whenever it waits for a lease or watches
  the link, then gives that association up and goes on to the backoff, and it never gives one up without a
  request; and each association that is given up, or about to be, is paid for by five turns of the telemetry
  task of its own that ended without a session.
\<close>

theorem rejoin_requests_honoured:
  assumes "latest_signal S held" and "net_run S version st es effs"
  shows "(held (n_rejoin st) \<noteq> None \<longleftrightarrow> request_open effs) \<and>
    5 * (links_given_up effs + (if request_open effs then 1 else 0)) \<le> failed_turns es \<and>
    (if request_open effs \<and> awaits_request (fst (n_wifi st))
     then \<exists>st1. net_step S version st (Wifi_Event Rejoin_Taken) = Some (st1, [Link_Given_Up, Radio (Signal_Beacon (Error 2))]) \<and>
       fst (n_wifi st1) = Checking \<and> held (n_rejoin st1) = None
     else net_step S version st (Wifi_Event Rejoin_Taken) = None)"
proof -
  have inv: "net_inv held st es effs" by (rule net_run_inv [OF assms])
  obtain ph s where w: "n_wifi st = (ph, s)" by (metis surj_pair)
  obtain x r where t: "sg_take S (n_rejoin st) = (x, r)" by (metis surj_pair)
  have held: "x = held (n_rejoin st)" "held r = None"
    using latest_signal.take_clears [OF assms(1) t] by simp_all
  have "if request_open effs \<and> awaits_request ph
     then \<exists>st1. net_step S version st (Wifi_Event Rejoin_Taken) = Some (st1, [Link_Given_Up, Radio (Signal_Beacon (Error 2))]) \<and>
       fst (n_wifi st1) = Checking \<and> held (n_rejoin st1) = None
     else net_step S version st (Wifi_Event Rejoin_Taken) = None"
    using inv t held by (cases ph) (auto simp: net_step_def w net_inv_def awaits_request_def split: option.split)
  with inv w show ?thesis by (simp add: net_inv_def)
qed

theorem rejoin_requests_honoured_witness:
  "latest_signal (option_signal :: (unit option, unit) signal_cell) (\<lambda>s. s) \<and>
   (\<exists>st effs. net_run option_signal 7 st dying_link effs \<and> fst (n_wifi st) = Leasing 1 \<and> request_open effs \<and>
      (\<exists>st1. net_step option_signal 7 st (Wifi_Event Rejoin_Taken) =
          Some (st1, [Link_Given_Up, Radio (Signal_Beacon (Error 2))]) \<and>
        fst (n_wifi st1) = Checking \<and> n_rejoin st1 = None))"
proof -
  obtain st effs where p: "net_play option_signal 7 (net_start option_signal) dying_link = Some (st, effs)"
      "fst (n_wifi st) = Leasing 1" "request_open effs"
    using dying_link_play by auto
  have R: "net_run option_signal 7 st dying_link effs"
    using net_play_runs [OF net_started p(1)] by simp
  from rejoin_requests_honoured [OF rejoin_cell.latest_signal_axioms R] p(2,3)
  show ?thesis
    using rejoin_cell.latest_signal_axioms R by (auto simp: awaits_request_def)
qed

text \<open>
  C17: trouble with the network resets the device in one case only. In every interleaving of the two tasks, a reset
  is an event of the supervisor's check, at a time ten minutes or more after a lease was last acquired (after the
  boot when there was none); a check at such a time always resets; and nothing that the telemetry task does ever
  does. The time counts from the acquisition, not from when the lease was last held: the loss of a link leads
  to a check, and that check resets, at once, exactly when the lost lease was acquired ten minutes or more before.
\<close>

theorem network_resets_exact:
  assumes "net_run S version st es effs" and "net_step S version st e = Some (st1, new)"
  shows "(Radio Sys_Reset \<in> set new \<longleftrightarrow>
      (case e of Wifi_Event (Checked now) \<Rightarrow> acquired_at es + 600000 \<le> unat now | _ \<Rightarrow> False)) \<and>
    (if e = Wifi_Event Link_Dropped
     then \<forall>now. \<exists>st2 new2. net_step S version st1 (Wifi_Event (Checked now)) = Some (st2, new2) \<and>
       (Radio Sys_Reset \<in> set new2 \<longleftrightarrow> acquired_at es + 600000 \<le> unat now)
     else True)"
proof -
  have "if e = Wifi_Event Link_Dropped
     then \<forall>now. \<exists>st2 new2. net_step S version st1 (Wifi_Event (Checked now)) = Some (st2, new2) \<and>
       (Radio Sys_Reset \<in> set new2 \<longleftrightarrow> acquired_at es + 600000 \<le> unat now)
     else True"
    using drop_is_checked [OF assms] by simp
  then show ?thesis using resets_at_checks [OF assms] by (rule conjI [rotated])
qed

text \<open>A lease acquired after five seconds is held until the link drops after ten minutes and five seconds.\<close>

definition long_link :: "net_event list" where
  "long_link = [Wifi_Event (Join_Ended (Inr ())), Wifi_Event (Lease_Acquired 5000)]"

theorem network_resets_exact_witness:
  "\<exists>st effs st1 new. net_run option_signal 7 st long_link effs \<and>
     net_step option_signal 7 st (Wifi_Event Link_Dropped) = Some (st1, new) \<and> Radio Sys_Reset \<notin> set new \<and>
     (\<exists>st2 new2. net_step option_signal 7 st1 (Wifi_Event (Checked 605000)) = Some (st2, new2) \<and>
       Radio Sys_Reset \<in> set new2)"
proof -
  obtain st effs where p: "net_play option_signal 7 (net_start option_signal) long_link = Some (st, effs)"
      "fst (n_wifi st) = Watching"
    by (simp add: long_link_def net_start_def net_step_def)
  have R: "net_run option_signal 7 st long_link effs"
    using net_play_runs [OF net_started p(1)] by simp
  obtain s where w: "n_wifi st = (Watching, s)" using p(2) by (metis prod.collapse)
  obtain st1 new where step: "net_step option_signal 7 st (Wifi_Event Link_Dropped) = Some (st1, new)"
    by (simp add: net_step_def w)
  have "acquired_at long_link = 5000" by (simp add: acquired_at_def long_link_def)
  with network_resets_exact [OF R step] R step show ?thesis by fastforce
qed

end
