(* ===== verification/Ota_Deadlines.thy ===== *)
theory Ota_Deadlines
  imports Ota_Task
begin

text \<open>
  The deadlines of \<open>app/src/ota/transport.rs\<close>. Every call on the network is wrapped in
  \<open>with_timeout\<close>, whose documented behaviour is a contract here: the call is over by its deadline, with a
  result or without. The loops around the calls have no deadline of their own; how long an update check
  can be kept waiting follows from how often they call, which is what a peer that sends a byte at a time
  makes of them. Times are milliseconds.
\<close>

definition DNS_TIMEOUT_MS :: nat where "DNS_TIMEOUT_MS = 10 * 1000"
definition CONNECT_TIMEOUT_MS :: nat where "CONNECT_TIMEOUT_MS = 10 * 1000"
definition HANDSHAKE_TIMEOUT_MS :: nat where "HANDSHAKE_TIMEOUT_MS = 20 * 1000"
definition IO_TIMEOUT_MS :: nat where "IO_TIMEOUT_MS = 30 * 1000"

subsection \<open>One connection\<close>

text \<open>\<open>waited w\<close> is the time that the calls on the network have taken up to \<open>w\<close>.\<close>

locale io_deadline =
  fixes T :: "'w transport" and waited :: "'w \<Rightarrow> nat"
  assumes read_deadline: "t_read T w k = (w1, res) \<Longrightarrow> waited w1 \<le> waited w + IO_TIMEOUT_MS"
    and write_deadline: "t_write_all T w bs = (w1, wres) \<Longrightarrow> waited w1 \<le> waited w + IO_TIMEOUT_MS"
    and flush_deadline: "t_flush T w = (w1, fres) \<Longrightarrow> waited w1 \<le> waited w + IO_TIMEOUT_MS"
begin

lemma read_timed_waits: "read_timed T w buf = (w1, buf1, res) \<Longrightarrow> waited w1 \<le> waited w + IO_TIMEOUT_MS"
  by (auto simp: read_timed_def Let_def split: prod.splits timed.splits dest: read_deadline)

text \<open>The read loop of a request: each read but the last feeds at least one byte to the parser.\<close>

lemma get_loop_waits:
  assumes "get_loop T w (final push head_new bs) buf leftover = Some (w', leftover', r)"
    and "bounded_spec bs = NeedMore"
  shows "waited w' \<le> waited w + (MAX_HEAD_BYTES + 1 - length bs) * IO_TIMEOUT_MS"
  using assms
proof (induction "MAX_HEAD_BYTES - length bs" arbitrary: bs w buf rule: less_induct)
  case less
  let ?p = "final push head_new bs"
  obtain w1 buf1 res where rd: "read_timed T w buf = (w1, buf1, res)" by (metis surj_pair)
  note w1 = read_timed_waits [OF rd]
  have "1 * IO_TIMEOUT_MS \<le> (MAX_HEAD_BYTES + 1 - length bs) * IO_TIMEOUT_MS"
    using open_head_short [OF less.prems(2)] by (intro mult_le_mono1) simp
  with w1 have one: ?case if "w' = w1" unfolding that by linarith
  show ?case
  proof (cases "\<exists>n p1. res = Inr n \<and> n \<noteq> 0 \<and> feed ?p 0 (take n buf1) = (p1, None)")
    case False
    with rd less.prems(1) have "w' = w1"
      by (auto simp: get_loop.simps [of T w] Let_def split: sum.splits option.splits prod.splits if_splits)
    then show ?thesis by (rule one)
  next
    case True
    then obtain n p1 where n: "res = Inr n" "n \<noteq> 0" "feed ?p 0 (take n buf1) = (p1, None)" by blast
    let ?cs = "take n buf1"
    have cs: "length ?cs = n" using read_timed_received [OF rd [unfolded n(1)]] by simp
    from feed_open [OF n(3) less.prems(2)]
    have p1: "p1 = final push head_new (bs @ ?cs)" "bounded_spec (bs @ ?cs) = NeedMore" by simp_all
    have short: "length (bs @ ?cs) \<le> MAX_HEAD_BYTES" by (rule open_head_short [OF p1(2)])
    have "get_loop T w1 (final push head_new (bs @ ?cs)) buf1 leftover = Some (w', leftover', r)"
      using less.prems(1) rd n p1(1) by (simp add: get_loop.simps [of T w])
    from less.hyps [OF _ this p1(2)] short n(2) cs
    have "waited w' \<le> waited w1 + (MAX_HEAD_BYTES + 1 - length (bs @ ?cs)) * IO_TIMEOUT_MS" by simp
    also have "\<dots> \<le> waited w + (1 + (MAX_HEAD_BYTES + 1 - length (bs @ ?cs))) * IO_TIMEOUT_MS"
      using w1 by simp
    also have "\<dots> \<le> waited w + (MAX_HEAD_BYTES + 1 - length bs) * IO_TIMEOUT_MS"
      using short n(2) cs by (intro add_left_mono mult_le_mono1) simp
    finally show ?thesis .
  qed
qed

lemma get_waits:
  assumes "get T w request leftover = Some (w', leftover', r)"
  shows "waited w' \<le> waited w + (MAX_HEAD_BYTES + 3) * IO_TIMEOUT_MS"
proof -
  obtain w1 r1 where wr: "t_write_all T w request = (w1, r1)" by (metis surj_pair)
  obtain w2 r2 where fl: "t_flush T w1 = (w2, r2)" by (metis surj_pair)
  note W = write_deadline [OF wr] flush_deadline [OF fl]
  show ?thesis
  proof (cases "r1 = Done () \<and> r2 = Done ()")
    case True
    with wr fl assms have "get_loop T w2 head_new (replicate READ_CHUNK 0) leftover = Some (w', leftover', r)"
      by (simp add: get_def)
    then have "waited w' \<le> waited w2 + (MAX_HEAD_BYTES + 1) * IO_TIMEOUT_MS"
      using get_loop_waits [of w2 "[]" "replicate READ_CHUNK 0"] by simp
    with W show ?thesis by (simp add: algebra_simps)
  next
    case False
    with wr fl assms have "w' = w1 \<or> w' = w2" by (auto simp: get_def split: timed.splits)
    with W show ?thesis by (auto simp: algebra_simps)
  qed
qed

text \<open>A body of so many bytes: each read but the last brings at least one.\<close>

lemma small_loop_waits:
  assumes "small_loop T w len out n = (w', out', r)"
  shows "waited w' \<le> waited w + (len - n) * IO_TIMEOUT_MS"
  using assms
proof (induction "len - n" arbitrary: w out n rule: less_induct)
  case less
  show ?case
  proof (cases "n < len")
    case False
    with less.prems show ?thesis by (simp add: small_loop.simps [of T w])
  next
    case True
    obtain w1 filled res where rd: "read_timed T w (drop n (take len out)) = (w1, filled, res)" by (metis surj_pair)
    note w1 = read_timed_waits [OF rd]
    show ?thesis
    proof (cases "\<exists>got. res = Inr got \<and> got \<noteq> 0")
      case False
      with rd True less.prems have w': "w' = w1"
        by (auto simp: small_loop.simps [of T w] read_some_def split: sum.splits if_splits)
      have "1 * IO_TIMEOUT_MS \<le> (len - n) * IO_TIMEOUT_MS" using True by (intro mult_le_mono1) simp
      with w1 show ?thesis unfolding w' by linarith
    next
      case g: True
      then obtain got where got: "res = Inr got" "got \<noteq> 0" by blast
      with rd True less.prems have "small_loop T w1 len (copy_at out n filled) (n + got) = (w', out', r)"
        by (simp add: small_loop.simps [of T w] read_some_def)
      with less.hyps [of "n + got"] got(2) True
      have "waited w' \<le> waited w1 + (len - (n + got)) * IO_TIMEOUT_MS" by simp
      also have "\<dots> \<le> waited w + (1 + (len - (n + got))) * IO_TIMEOUT_MS" using w1 by simp
      also have "\<dots> \<le> waited w + (len - n) * IO_TIMEOUT_MS"
        using got(2) True by (intro add_left_mono mult_le_mono1) simp
      finally show ?thesis .
    qed
  qed
qed

lemma read_small_waits:
  assumes "read_small T w leftover len out = (w', out', r)"
  shows "waited w' \<le> waited w + length out * IO_TIMEOUT_MS"
proof (cases "of_nat (length out) < len")
  case True
  with assms show ?thesis by (simp add: read_small_def)
next
  case False
  then have "unat len \<le> unat (of_nat (length out) :: u64)" by (simp add: word_less_nat_alt)
  also have "\<dots> \<le> length out" by (simp add: unat_of_nat)
  finally have "unat len \<le> length out" .
  then have "(unat len - min (length leftover) (unat len)) * IO_TIMEOUT_MS \<le> length out * IO_TIMEOUT_MS"
    by (intro mult_le_mono1) simp
  with False assms small_loop_waits show ?thesis
    by (fastforce simp: read_small_def Let_def intro: order_trans)
qed

lemma http_read_waits:
  "http_read T b buf = (b1, buf1, res) \<Longrightarrow> waited (hb_link b1) \<le> waited (hb_link b) + IO_TIMEOUT_MS"
  by (auto simp: http_read_def read_some_def Let_def split: if_splits prod.splits dest: read_timed_waits)

lemma stream_loop_waits:
  assumes "stream_loop F (http_body_reader T) H len buf h offs tot f b = (f', b', res)"
  shows "waited (hb_link b') \<le> waited (hb_link b) + (unat len - unat tot) * IO_TIMEOUT_MS"
  using assms
proof (induction "unat len - unat tot" arbitrary: buf h offs tot f b rule: less_induct)
  case less
  let ?rem = "min (unat (len - tot)) (length buf)"
  show ?case
  proof (cases "tot < len")
    case False
    with less.prems show ?thesis by (simp add: stream_loop.simps [of F])
  next
    case True
    then have left: "unat (len - tot) = unat len - unat tot" "unat tot < unat len" by (simp_all add: word_nat)
    obtain b1 filled rd where rd: "http_read T b (take ?rem buf) = (b1, filled, rd)" by (metis surj_pair)
    then have rd': "body_read (http_body_reader T) b (take ?rem buf) = (b1, filled, rd)"
      by (simp add: http_body_reader_def)
    note b1 = http_read_waits [OF rd]
    have "1 * IO_TIMEOUT_MS \<le> (unat len - unat tot) * IO_TIMEOUT_MS" using left by (intro mult_le_mono1) simp
    with b1 have one: ?thesis if "b' = b1" unfolding that by linarith
    show ?thesis
    proof (cases "\<exists>n. rd = Inr n \<and> n \<noteq> 0 \<and> n \<le> ?rem")
      case False
      have "fst (snd (stream_loop F (http_body_reader T) H len buf h offs tot f b)) = b1"
        unfolding stream_loop.simps [of F _ H len buf h offs tot] Let_def rd' prod.case
        using False True by (cases rd) auto
      with less.prems show ?thesis by (intro one) simp
    next
      case n: True
      then obtain n where n: "rd = Inr n" "n \<noteq> 0" "n \<le> ?rem" by blast
      obtain f1 wres where fw: "flash_write F f offs (take n (filled @ drop ?rem buf)) = (f1, wres)"
        by (metis surj_pair)
      note step = stream_loop_chunk [OF True rd' [unfolded n(1)] n(2,3) refl fw, of H h]
      show ?thesis
      proof (cases wres)
        case (Inl e)
        with step less.prems have "b' = b1" by simp
        then show ?thesis by (rule one)
      next
        case (Inr u)
        note t = total_step(1) [OF True, of n]
        have tot1: "unat (tot + of_nat n) = unat tot + n" using t n(3) by simp
        from less.hyps [of "tot + of_nat n"] less.prems step Inr n(2) left(2)
        have "waited (hb_link b') \<le> waited (hb_link b1) + (unat len - (unat tot + n)) * IO_TIMEOUT_MS"
          unfolding tot1 by simp
        also have "\<dots> \<le> waited (hb_link b) + (1 + (unat len - (unat tot + n))) * IO_TIMEOUT_MS"
          using b1 by simp
        also have "\<dots> \<le> waited (hb_link b) + (unat len - unat tot) * IO_TIMEOUT_MS"
          using n(2) left(2) by (intro add_left_mono mult_le_mono1) simp
        finally show ?thesis .
      qed
    qed
  qed
qed

lemma apply_update_waits:
  assumes "apply_update F (http_body_reader T) H len expected f b = (f', b', res)"
  shows "waited (hb_link b') \<le> waited (hb_link b) + unat ACTIVE_BYTES * IO_TIMEOUT_MS"
proof (cases "ucast ACTIVE_BYTES < len")
  case True
  with assms show ?thesis by (simp add: apply_update_def)
next
  case False
  then have le: "(unat len - unat (0 :: u64)) * IO_TIMEOUT_MS \<le> unat ACTIVE_BYTES * IO_TIMEOUT_MS"
    by (intro mult_le_mono1) (simp add: word_less_nat_alt ACTIVE_BYTES_def)
  obtain f1 b1 r where L: "stream_loop F (http_body_reader T) H len (replicate CHUNK_BYTES 0)
      (hash_new H) 0 0 f b = (f1, b1, r)" by (metis surj_pair)
  have b': "b' = b1"
    using assms False L by (auto simp: apply_update_def split: sum.splits prod.splits if_splits)
  show ?thesis using stream_loop_waits [OF L] le unfolding b' by linarith
qed

end

subsection \<open>A whole check\<close>

definition request_deadline_ms :: nat where
  "request_deadline_ms = CONNECT_TIMEOUT_MS + HANDSHAKE_TIMEOUT_MS + (MAX_HEAD_BYTES + 3) * IO_TIMEOUT_MS"

definition check_deadline_ms :: nat where
  "check_deadline_ms = DNS_TIMEOUT_MS + 3 * request_deadline_ms +
     (VERSION_MAX_BYTES + SHA_MAX_BYTES + unat ACTIVE_BYTES) * IO_TIMEOUT_MS"

locale deadline_network =
  fixes N :: "('w, 'a) network" and waited :: "'w \<Rightarrow> nat"
  assumes dns_deadline: "net_dns N w name = (w1, dres) \<Longrightarrow> waited w1 \<le> waited w + DNS_TIMEOUT_MS"
    and connect_deadline: "net_connect N w ep = (w1, cres) \<Longrightarrow> waited w1 \<le> waited w + CONNECT_TIMEOUT_MS"
    and handshake_deadline: "net_handshake N w name = (w1, hres) \<Longrightarrow> waited w1 \<le> waited w + HANDSHAKE_TIMEOUT_MS"
    and io_deadlines: "io_deadline (link N c) waited"
begin

lemma resolve_waits: "resolve N w u = (w1, r) \<Longrightarrow> waited w1 \<le> waited w + DNS_TIMEOUT_MS"
  by (auto simp: resolve_def split: option.splits prod.splits timed.splits dest: dns_deadline)

lemma open_waits:
  assumes "open_link N w ep u = (w', r)"
  shows "waited w' \<le> waited w + (CONNECT_TIMEOUT_MS + HANDSHAKE_TIMEOUT_MS)"
proof -
  obtain w1 r1 where c: "net_connect N w ep = (w1, r1)" by (metis surj_pair)
  obtain w2 r2 where h: "net_handshake N w1 (host u) = (w2, r2)" by (metis surj_pair)
  have "w' = w1 \<or> w' = w2"
    using assms c h by (auto simp: open_link_def split: timed.splits if_splits)
  with connect_deadline [OF c] handshake_deadline [OF h] show ?thesis by auto
qed

lemma fetch_waits:
  assumes "fetch N d u ep w leftover name = Some (w', leftover', r)"
  shows "waited w' \<le> waited w + request_deadline_ms"
proof (cases "build_request (ota_user d) (ota_password d) u name")
  case (Inl e)
  with assms show ?thesis by (simp add: fetch_def)
next
  case (Inr request)
  obtain w1 r1 where op: "open_link N w ep u = (w1, r1)" by (metis surj_pair)
  note O = open_waits [OF op]
  show ?thesis
  proof (cases r1)
    case (Inl e)
    with Inr op assms have w': "w' = w1" by (simp add: fetch_def)
    show ?thesis using O unfolding w' request_deadline_ms_def by simp
  next
    case c: (Inr c)
    with Inr op assms obtain r2 where "send N c w1 (as_bytes request) leftover = Some (w', leftover', r2)"
      by (auto simp: fetch_def split: option.splits sum.splits)
    then have "waited w' \<le> waited w1 + (MAX_HEAD_BYTES + 3) * IO_TIMEOUT_MS"
      unfolding send_def by (rule io_deadline.get_waits [OF io_deadlines])
    with O show ?thesis by (simp add: request_deadline_ms_def)
  qed
qed

lemma fetch_text_waits:
  assumes "fetch_text N d u ep w leftover name max_bytes parse invalid = Some (w', leftover', r)"
  shows "waited w' \<le> waited w + (request_deadline_ms + max_bytes * IO_TIMEOUT_MS)"
proof -
  obtain w1 leftover1 r1 where f: "fetch N d u ep w leftover name = Some (w1, leftover1, r1)"
    using assms by (auto simp: fetch_text_def split: option.splits)
  note F = fetch_waits [OF f]
  have "w' = w1 \<or> (\<exists>c x len body r2. read_small (link N c) w1 x len (replicate max_bytes 0) = (w', body, r2))"
    using assms f
    by (auto simp: fetch_text_def split: sum.splits prod.splits if_splits option.splits)
  then show ?thesis
  proof
    assume w': "w' = w1"
    show ?thesis using F unfolding w' by simp
  next
    assume "\<exists>c x len body r2. read_small (link N c) w1 x len (replicate max_bytes 0) = (w', body, r2)"
    then obtain c x len body r2 where "read_small (link N c) w1 x len (replicate max_bytes 0) = (w', body, r2)" by blast
    from io_deadline.read_small_waits [OF io_deadlines this] F show ?thesis by simp
  qed
qed

lemma fetch_image_waits:
  assumes "fetch_image N F H d u ep w f leftover remote expected = Some (w', f', fin)"
  shows "waited w' \<le> waited w + (request_deadline_ms + unat ACTIVE_BYTES * IO_TIMEOUT_MS)"
proof (cases "resource_name remote (ascii ''.bin'')")
  case (Inl e)
  with assms show ?thesis by (simp add: fetch_image_def)
next
  case (Inr name)
  obtain w1 leftover1 r1 where f: "fetch N d u ep w leftover (as_str name) = Some (w1, leftover1, r1)"
    using assms Inr by (auto simp: fetch_image_def split: option.splits)
  note F = fetch_waits [OF f]
  have "w' = w1 \<or> (\<exists>c x len f1 b r2. apply_update F (http_body_reader (link N c)) H len expected f
      \<lparr>hb_link = w1, hb_leftover = x\<rparr> = (f1, b, r2) \<and> w' = hb_link b)"
    using assms Inr f
    by (auto simp: fetch_image_def split: sum.splits prod.splits if_splits option.splits) metis+
  then show ?thesis
  proof
    assume w': "w' = w1"
    show ?thesis using F unfolding w' by simp
  next
    assume "\<exists>c x len f1 b r2. apply_update F (http_body_reader (link N c)) H len expected f
      \<lparr>hb_link = w1, hb_leftover = x\<rparr> = (f1, b, r2) \<and> w' = hb_link b"
    then obtain c x len f1 b r2 where up: "apply_update F (http_body_reader (link N c)) H len expected f
      \<lparr>hb_link = w1, hb_leftover = x\<rparr> = (f1, b, r2)" "w' = hb_link b" by blast
    from io_deadline.apply_update_waits [OF io_deadlines up(1)] F up(2) show ?thesis by simp
  qed
qed

lemma check_waits:
  assumes "check_and_update N F H d w f = Some (w', f', fin)" and up: "net_config_up N w = Some w0"
  shows "waited w' \<le> waited w0 + check_deadline_ms"
proof (cases "parse_url (ota_url d) (ota_project d)")
  case (Inl e)
  with assms show ?thesis by (simp add: check_and_update_def up)
next
  case u: (Inr u)
  obtain w1 r1 where rs: "resolve N w0 u = (w1, r1)" by (metis surj_pair)
  note W = resolve_waits [OF rs]
  show ?thesis
  proof (cases r1)
    case (Inl e)
    with u rs assms have "w' = w1" by (simp add: check_and_update_def up)
    with W show ?thesis by (simp add: check_deadline_ms_def)
  next
    case ep: (Inr ep)
    obtain w2 leftover r2 where v: "fetch_text N d u ep w1 (replicate READ_CHUNK 0) (ascii ''version'')
        VERSION_MAX_BYTES parse_version O_Version = Some (w2, leftover, r2)"
      using assms u rs ep by (auto simp: check_and_update_def up split: option.splits)
    note V = fetch_text_waits [OF v]
    show ?thesis
    proof (cases "w' = w2")
      case True
      show ?thesis using W V unfolding True by (simp add: check_deadline_ms_def algebra_simps)
    next
      case False
      with assms u rs ep v obtain remote name where n: "r2 = Inr (Some remote)"
          "resource_name remote (ascii ''.bin.sha256'') = Inr name" "decide (running_version d) remote = D_Update"
        by (auto simp: check_and_update_def up split: sum.splits option.splits decision.splits)
      obtain w3 leftover1 r3 where h: "fetch_text N d u ep w2 leftover (as_str name)
          SHA_MAX_BYTES parse_sha256_hex O_Sha = Some (w3, leftover1, r3)"
        using assms u rs ep v n by (auto simp: check_and_update_def up split: option.splits)
      note H = fetch_text_waits [OF h]
      show ?thesis
      proof (cases "w' = w3")
        case True
        show ?thesis using W V H unfolding True by (simp add: check_deadline_ms_def algebra_simps)
      next
        case False
        with assms u rs ep v n h obtain expected where
            "fetch_image N F H d u ep w3 f leftover1 remote expected = Some (w', f', fin)"
          by (auto simp: check_and_update_def up split: sum.splits option.splits)
        from fetch_image_waits [OF this] W V H show ?thesis
          by (simp add: check_deadline_ms_def algebra_simps)
      qed
    qed
  qed
qed

end

subsection \<open>Any network with any delays\<close>

text \<open>
  The contract is met by every network whose calls take as long as they may and are cut off at their
  deadline: \<open>took w\<close> is how long the call takes that is made in \<open>w\<close>.
\<close>

definition timed_call :: "nat \<Rightarrow> nat \<Rightarrow> nat \<Rightarrow> 'v \<times> 'b timed \<Rightarrow> ('v \<times> nat) \<times> 'b timed" where
  "timed_call deadline k now r =
     (if k \<le> deadline then ((fst r, now + k), snd r) else ((fst r, now + deadline), Timed_Out))"

lemma timed_call_deadline [simp]: "timed_call deadline k now r = (w1, res) \<Longrightarrow> snd w1 \<le> now + deadline"
  by (auto simp: timed_call_def split: if_splits)

definition clocked_link :: "('v \<Rightarrow> nat) \<Rightarrow> 'v transport \<Rightarrow> ('v \<times> nat) transport" where
  "clocked_link took T =
     \<lparr>t_read = (\<lambda>(w, now) k. timed_call IO_TIMEOUT_MS (took w) now (t_read T w k)),
      t_write_all = (\<lambda>(w, now) bs. timed_call IO_TIMEOUT_MS (took w) now (t_write_all T w bs)),
      t_flush = (\<lambda>(w, now). timed_call IO_TIMEOUT_MS (took w) now (t_flush T w))\<rparr>"

definition clocked :: "('v \<Rightarrow> nat) \<Rightarrow> ('v, 'a) network \<Rightarrow> ('v \<times> nat, 'a) network" where
  "clocked took N =
     \<lparr>net_dns = (\<lambda>(w, now) name. timed_call DNS_TIMEOUT_MS (took w) now (net_dns N w name)),
      net_ipv4 = net_ipv4 N,
      net_connect = (\<lambda>(w, now) ep. timed_call CONNECT_TIMEOUT_MS (took w) now (net_connect N w ep)),
      net_handshake = (\<lambda>(w, now) name. timed_call HANDSHAKE_TIMEOUT_MS (took w) now (net_handshake N w name)),
      net_plain = clocked_link took (net_plain N), net_tls = clocked_link took (net_tls N),
      net_config_up = (\<lambda>(w, now). map_option (\<lambda>w1. (w1, now + took w)) (net_config_up N w))\<rparr>"

interpretation clocked_link: io_deadline "clocked_link took T" snd for took T
  by unfold_locales (auto simp: clocked_link_def split: prod.splits)

interpretation clocked: deadline_network "clocked took N" snd for took N
proof (rule deadline_network.intro)
  show "io_deadline (link (clocked took N) c) snd" for c
    using clocked_link.io_deadline_axioms by (cases c) (simp_all add: link_def clocked_def)
qed (auto simp: clocked_def split: prod.splits)

subsection \<open>Properties\<close>

text \<open>
  C18: how long an update check can be kept waiting once the stack has an address. From then on the check ends, whatever
  the server and the flash do, and its waits for the network together take at most 24152050000
  milliseconds: one lookup, three connections, and 30 seconds for each of the calls that its loops
  can make, of which every one but the last in a loop has brought a byte. The bound for the image is 280 days, for a
  server that sends a byte just before each deadline; the requests up to the digest take two days at most. The wait for
  an address itself has no deadline, and a check that has not ended is in it.
\<close>

theorem check_deadline:
  assumes "deadline_network N waited"
  shows "case check_and_update N F H d w f of
     None \<Rightarrow> net_config_up N w = None
   | Some (w', f', fin) \<Rightarrow> (\<exists>w0. net_config_up N w = Some w0 \<and> waited w' \<le> waited w0 + 24152050000)"
proof (cases "check_and_update N F H d w f")
  case None
  then show ?thesis using check_total [of N F H d w f] by simp
next
  case (Some y)
  then obtain w' f' fin where c: "check_and_update N F H d w f = Some (w', f', fin)" by (cases y) simp
  then obtain w0 where up: "net_config_up N w = Some w0" using check_total [of N F H d w f] by auto
  have "check_deadline_ms = 24152050000"
    by (simp add: check_deadline_ms_def request_deadline_ms_def DNS_TIMEOUT_MS_def CONNECT_TIMEOUT_MS_def
        HANDSHAKE_TIMEOUT_MS_def IO_TIMEOUT_MS_def MAX_HEAD_BYTES_def VERSION_MAX_BYTES_def SHA_MAX_BYTES_def
        ACTIVE_BYTES_def)
  with deadline_network.check_waits [OF assms c up] c up show ?thesis by simp
qed

theorem check_deadline_witness:
  "deadline_network (clocked length wire_network) snd \<and>
   (\<exists>w' f' fin. check_and_update (clocked length wire_network) nul_flasher copy_hasher
        \<lparr>ota_url = ascii ''http://host/'', ota_project = ascii ''door'', ota_user = [], ota_password = [],
         running_version = 7\<rparr> (ascii ''HTTP/1.0 404 No'', 5) () = Some (w', f', fin) \<and>
      snd w' \<le> 20 + 24152050000)"
proof -
  let ?d = "\<lparr>ota_url = ascii ''http://host/'', ota_project = ascii ''door'', ota_user = [], ota_password = [],
      running_version = 7\<rparr>" and ?w = "(ascii ''HTTP/1.0 404 No'', 5)"
  have "net_config_up (clocked length wire_network) ?w = Some (ascii ''HTTP/1.0 404 No'', 20)"
    by (simp add: clocked_def wire_network_def ascii_def)
  then show ?thesis
    using check_deadline [OF clocked.deadline_network_axioms [of length wire_network],
        where F = nul_flasher and H = copy_hasher and d = ?d and w = ?w and f = "()"]
      clocked.deadline_network_axioms [of length wire_network]
    by (auto split: option.splits)
qed

end
