(* ===== verification/Spec2Isabelle.thy ===== *)
theory Spec2Isabelle
  imports Actuator Sensor Flash_Layout Update_Machine Wifi_Policy Json_Grammar Ota_Parse Base64 Http_Head Ota_Task Telemetry Wifi_Supervisor Boot Updater Memory_X Device Tasks Build_Scripts Good_Server Rollout Loader Radio Connectivity Ota_Deadlines
begin

text \<open>
  Verification of the firmware of a garage door controller (a Raspberry Pi Pico W, Rust without
  an operating system). The program has three crates: \<open>core\<close>, the policies without hardware;
  \<open>app\<close>, the tasks that run them; \<open>bootloader\<close>, which swaps images. A reed switch tells the door
  state, a relay presses the opener, an MQTT session connects both to a broker, and an OTA task
  replaces the firmware by way of a second flash partition that the bootloader swaps in on
  trial.

  \<^bold>\<open>How the code is rendered.\<close> A struct is a record, an enum a datatype, an integer a word of its
  width, a byte slice a list of bytes. \<open>Result\<close> is a sum with the error on the left. A method
  with \<open>&mut self\<close> returns the new state. A task is one function per turn of its loop; what it
  reads from the clock, the pins and the network is part of the turn's event, so timing
  and scheduling are explicit. A loop that ends by its structure is a recursive function
  with a measure; the read loop of a request and the erase loop are
  partial functions whose \<open>None\<close> is not returning, with theorems that they return. So is a network call without a
  timeout: the wait for an address may be \<open>None\<close>, and a check that is in it does not return. Code outside the repository
  (the flash driver, the firmware updater, channels and signals, SHA-256, the network stack, sockets, TLS, DNS, the MQTT
  client, curl, the credentials) is a parameter; where its behaviour matters it is a locale
  with an interpretation.

  \<^bold>\<open>Foundations.\<close> \<open>Prelude\<close>: machine integers, byte strings, the slice operations. \<open>Machines\<close>: runs of
  step functions, and the two contracts the components share, an invariant over the
  history of events and a simulation of an abstract machine. \<open>Utf8\<close>, \<open>Decimal\<close>, \<open>Byte_Sink\<close>: text,
  numbers and bounded output buffers.

  \<^bold>\<open>The door.\<close> \<open>Door\<close> (\<open>core/src/door.rs\<close>): the relay interlock refines an abstract guard over
  unbounded time, and the debouncer is related to the history of its samples. \<open>Actuator\<close> and
  \<open>Sensor\<close> (\<open>app/src/actuator.rs\<close>, \<open>sensor.rs\<close>): the tasks around them. \<open>Tasks\<close>: these two, the
  telemetry task and the wake-up of the OTA task interleaved in any order over the command
  channel (capacity 4) and the two signals; each pulse answers one live trigger message, and every
  state of the debounced door gets one attempt to report it, whose outcome is part of the run.

  \<^bold>\<open>MQTT.\<close> \<open>Json_Scanner\<close> (\<open>core/src/mqtt.rs\<close>): the request parser, with fuel for
  its nested loops; \<open>scan_fuel\<close>, twice the length of the payload and two, is shown to be enough. \<open>Json_Grammar\<close>: the
  grammar as an inductive relation, and that the parser accepts exactly it; it is that of JSON but for numbers, which may
  have leading zeros, and it does not decode strings. \<open>Mqtt_Encode\<close>: the two
  responses. \<open>Telemetry\<close> (\<open>app/src/telemetry.rs\<close>): classification, the session and the outer loop with its
  backoff; ids of up to 64 bytes are answered in a buffer of 160.

  \<^bold>\<open>Wi-Fi and beacon.\<close> \<open>Wifi_Policy\<close> (\<open>core/src/wifi.rs\<close>) has the no-lease watchdog, the rejoin
  counter and the contract of a doubling backoff, which \<open>Wifi_Supervisor\<close> (\<open>app/src/wifi.rs\<close>) and
  \<open>Telemetry\<close> both meet. \<open>Connectivity\<close>: these two tasks interleaved in any order, the supervisor
  cut at its waits, over \<open>WIFI_REJOIN_SIGNAL\<close>; requests are neither lost nor answered twice, each takes five failed
  telemetry turns, and only a check ten minutes or more after a lease was last acquired resets the device. The code notes
  the acquisition of a lease and not its loss, so this comes at once when a link drops that has held its lease for so long. \<open>Beacon\<close>
  (\<open>app/src/beacon.rs\<close>): the LED patterns, each step with the time after which it ran out or a signal ended it.

  \<^bold>\<open>Updates.\<close> \<open>Ota_Parse\<close>, \<open>Base64\<close> (\<open>core/src/ota/mod.rs\<close>): URLs, versions, digests, credentials.
  \<open>Http_Head\<close> (\<open>core/src/ota/http.rs\<close>): the byte-fed head parser against a specification on whole lines; a
  head has at most 2048 bytes and is decided by the 2049th. \<open>Session\<close>
  (\<open>core/src/ota/session.rs\<close>): the verified download in chunks of 4096 bytes, over any flasher and body
  source. \<open>Ota_Text\<close> (\<open>app/src/ota/mod.rs\<close> and \<open>build_request\<close>): requests of at most 512
  bytes with 192 for the authorization, and error codes. \<open>Ota_Transport\<close>
  (\<open>app/src/ota/transport.rs\<close>): connections, the response head in reads of 256 bytes, and the bodies; the locale of body
  sources is interpreted on it. \<open>Ota_Task\<close> (\<open>app/src/ota/task.rs\<close>): a whole check, which resets only
  after a verified and marked image. \<open>Good_Server\<close>: the converse, that over a network on which
  nothing fails, and whose connections may cut their bytes into any reads, a published image is
  installed. \<open>Ota_Deadlines\<close>: how long a check can be kept waiting, once the stack has an address, when each call on the network is over
  by its deadline.

  \<^bold>\<open>Flash and boot.\<close> \<open>Flash_Layout\<close> and \<open>Update_Machine\<close> (\<open>core/src/flash.rs\<close>): the partitions, which
  tile the flash and are ordered by address, and the life of an update. \<open>Updater\<close> (\<open>app/src/update.rs\<close>,
  \<open>watchdog.rs\<close>): page-wise erasing under the watchdog of eight seconds, the wrapper of the
  firmware updater, and the feeder task. \<open>Boot\<close> (\<open>core/src/ota/selftest.rs\<close>, \<open>app/src/main.rs\<close>): the
  self-test and \<open>main\<close> as the list of its steps. \<open>Device\<close>: power cycles of bootloader, \<open>main\<close> and OTA
  task as an inductive relation, over any updater that changes the lifecycle as documented; whatever happens, two boots in which nothing is
  confirmed bring back the version confirmed last. \<open>Rollout\<close>: a published release that passes its
  checks is installed by one update check, confirmed by the boot after it, and then left alone, with any firmware
  updater behind the wrapper of \<open>Updater\<close> that keeps the contract \<open>working_updater\<close>.
  \<open>Loader\<close> (\<open>bootloader/src/main.rs\<close>): the bootloader's steps and fault handlers, and the linker symbols
  it works with: it jumps to where the application is linked.

  \<^bold>\<open>Builds.\<close> \<open>Memory_X\<close> (\<open>bootloader/build.rs\<close> and both \<open>memory.x\<close>): parsing and checking the
  linker's memory map, with overflow checks as in a dev build or wrap-around as in a release build (the parameter \<open>chk\<close>).
  \<open>Build_Scripts\<close> (\<open>app/build.rs\<close> and both \<open>main\<close> functions): the scripts over a file system, and, when curl keeps its
  contract, no partial radio blobs.
  \<open>Radio\<close> (\<open>app/src/radio.rs\<close>, \<open>heap.rs\<close>): the order in which the radio is brought up, with the blobs
  that the build script fetched, and the heap's region.

  \<^bold>\<open>Not modelled.\<close> \<open>embassy_boot\<close> itself, whose policy is that of \<open>Update_Machine\<close>;
  the radio and network drivers and the allocator; logging; closing of
  sockets, which has no effect on what is stated; the credentials, whose file is not in the
  repository; the release scripts in Python and shell. The messages that are logged have no
  counterpart. Versions stand for images in \<open>Update_Machine\<close>, \<open>Boot\<close> and \<open>Device\<close>, as in the code's own
  lifecycle.
\<close>

end
